(* ===== verification/Prelude.thy ===== *)
theory Prelude
  imports Main "HOL-Library.Word"
begin

text \<open>
  The shared vocabulary of the development: names for the machine integers of the C code, the
  ways a C function can go wrong as values of a sum type, byte buffers with checked access, and
  the lemmas on lists and words the components use.  Nothing here models a particular source
  file; the collections \<open>c_simps\<close> and \<open>bit_mask_simps\<close> carry the component proofs.
\<close>

unbundle bit_operations_syntax

section \<open>Machine integers\<close>

type_synonym u8 = "8 word"
type_synonym u16 = "16 word"
type_synonym u32 = "32 word"
type_synonym u64 = "64 word"

named_theorems c_simps \<open>unfolding rules for the error monad and checked buffers\<close>

named_theorems bit_mask_simps \<open>bounds and tests on masked words\<close>

section \<open>Failing computations\<close>

text \<open>
  What stops a C function without a return value: a failed \<open>g_assert\<close>, a call of \<open>abort\<close>,
  an access outside a buffer, the use of a null pointer, a division by zero or one that
  overflows, a shift by the width of the type or more, a loop that does not end.  Every operation that can do one of these returns
  \<open>c_error + 'a\<close>.
\<close>

datatype c_error =
    Assert_failed | Aborted | Out_of_bounds | Null_deref | Div_by_zero | Div_overflow
  | Shift_range | No_return

definition sbind :: "'e + 'a \<Rightarrow> ('a \<Rightarrow> 'e + 'b) \<Rightarrow> 'e + 'b" where
  "sbind m f = (case m of Inl e \<Rightarrow> Inl e | Inr x \<Rightarrow> f x)"

definition c_assert :: "bool \<Rightarrow> c_error + unit" where
  "c_assert b = (if b then Inr () else Inl Assert_failed)"

text \<open>Shifts as C has them: undefined from the width of the type on.\<close>

definition c_shl :: "'a::len word \<Rightarrow> nat \<Rightarrow> c_error + 'a word" where
  "c_shl x n = (if n < LENGTH('a) then Inr (push_bit n x) else Inl Shift_range)"

definition c_shr :: "'a::len word \<Rightarrow> nat \<Rightarrow> c_error + 'a word" where
  "c_shr x n = (if n < LENGTH('a) then Inr (drop_bit n x) else Inl Shift_range)"

definition c_sar :: "'a::len word \<Rightarrow> nat \<Rightarrow> c_error + 'a word" where
  "c_sar x n = (if n < LENGTH('a) then Inr (signed_drop_bit n x) else Inl Shift_range)"

lemma sbind_simps [simp]:
  "sbind (Inl e) f = Inl e"
  "sbind (Inr x) f = f x"
  by (simp_all add: sbind_def)

lemma sbind_cong [fundef_cong]:
  "m = m' \<Longrightarrow> (\<And>x. m' = Inr x \<Longrightarrow> f x = f' x) \<Longrightarrow> sbind m f = sbind m' f'"
  by (cases m') (auto simp: sbind_def)

lemma sbind_eq_Inr_iff [c_simps]:
  "sbind m f = Inr y \<longleftrightarrow> (\<exists>x. m = Inr x \<and> f x = Inr y)"
  by (cases m) (auto simp: sbind_def)

lemma sbind_eq_Inl_iff:
  "sbind m f = Inl e \<longleftrightarrow> m = Inl e \<or> (\<exists>x. m = Inr x \<and> f x = Inl e)"
  by (cases m) (auto simp: sbind_def)

lemma sbind_assoc: "sbind (sbind m f) g = sbind m (\<lambda>x. sbind (f x) g)"
  by (cases m) (simp_all add: sbind_def)

lemma c_assert_simps [simp]:
  "c_assert True = Inr ()"
  "c_assert b = Inr u \<longleftrightarrow> b"
  "c_assert b = Inl e \<longleftrightarrow> \<not> b \<and> e = Assert_failed"
  by (auto simp: c_assert_def)

section \<open>Byte buffers\<close>

text \<open>
  A C buffer is the list of its bytes.  \<open>buf_get\<close> is \<open>buf[i]\<close>, \<open>buf_put\<close> is \<open>buf[i] = x\<close>, \<open>buf_write\<close> is \<open>memcpy\<close> to
  offset \<open>off\<close>; they fail outside the buffer.
\<close>

definition buf_get :: "'a list \<Rightarrow> nat \<Rightarrow> c_error + 'a" where
  "buf_get xs i = (if i < length xs then Inr (xs ! i) else Inl Out_of_bounds)"

definition buf_put :: "'a list \<Rightarrow> nat \<Rightarrow> 'a \<Rightarrow> c_error + 'a list" where
  "buf_put xs i x = (if i < length xs then Inr (xs[i := x]) else Inl Out_of_bounds)"

definition buf_write :: "'a list \<Rightarrow> nat \<Rightarrow> 'a list \<Rightarrow> c_error + 'a list" where
  "buf_write dst off xs =
     (if off + length xs \<le> length dst
      then Inr (take off dst @ xs @ drop (off + length xs) dst)
      else Inl Out_of_bounds)"

lemma buf_get_in [simp]: "i < length xs \<Longrightarrow> buf_get xs i = Inr (xs ! i)"
  by (simp add: buf_get_def)

lemma buf_get_eq_Inr_iff [c_simps]: "buf_get xs i = Inr x \<longleftrightarrow> i < length xs \<and> x = xs ! i"
  by (auto simp: buf_get_def)

lemma buf_write_in [simp]:
  "off + length xs \<le> length dst \<Longrightarrow>
   buf_write dst off xs = Inr (take off dst @ xs @ drop (off + length xs) dst)"
  by (simp add: buf_write_def)

lemma buf_write_eq_Inr_iff [c_simps]:
  "buf_write dst off xs = Inr dst' \<longleftrightarrow>
   off + length xs \<le> length dst \<and> dst' = take off dst @ xs @ drop (off + length xs) dst"
  by (auto simp: buf_write_def)

lemma buf_write_length: "buf_write dst off xs = Inr dst' \<Longrightarrow> length dst' = length dst"
  by (auto simp: c_simps)

lemma buf_write_take:
  "buf_write dst off xs = Inr dst' \<Longrightarrow> n \<le> off \<Longrightarrow> take n dst' = take n dst"
  by (auto simp: c_simps min_def)

lemma buf_write_nth_old:
  "buf_write dst off xs = Inr dst' \<Longrightarrow> k < off \<Longrightarrow> dst' ! k = dst ! k"
  by (auto simp: c_simps nth_append)

lemma buf_write_nth_new:
  "buf_write dst off xs = Inr dst' \<Longrightarrow> k < length xs \<Longrightarrow> dst' ! (off + k) = xs ! k"
  by (auto simp: c_simps nth_append)

section \<open>Lists and index ranges\<close>

text \<open>A property of every index of a half-open range: the invariant of most loops.\<close>

definition all_in :: "(nat \<Rightarrow> bool) \<Rightarrow> nat \<Rightarrow> nat \<Rightarrow> bool" where
  "all_in P i j \<longleftrightarrow> (\<forall>k. i \<le> k \<and> k < j \<longrightarrow> P k)"

lemma all_in_same [simp, intro!]: "all_in P i i"
  by (auto simp: all_in_def)

lemma all_in_empty: "j \<le> i \<Longrightarrow> all_in P i j"
  by (auto simp: all_in_def)

lemma all_in_step: "P i \<Longrightarrow> all_in P (Suc i) j \<Longrightarrow> all_in P i j"
  unfolding all_in_def by (metis Suc_leI le_neq_implies_less)

lemma all_in_trans [trans]: "all_in P i j \<Longrightarrow> all_in P j k \<Longrightarrow> all_in P i k"
  unfolding all_in_def by (meson not_le_imp_less)

lemma all_inD [dest?]: "all_in P i j \<Longrightarrow> i \<le> k \<Longrightarrow> k < j \<Longrightarrow> P k"
  by (simp add: all_in_def)

lemma all_inI [intro?]: "(\<And>k. i \<le> k \<Longrightarrow> k < j \<Longrightarrow> P k) \<Longrightarrow> all_in P i j"
  by (simp add: all_in_def)

lemma take_eq_mono: "take n xs = take n ys \<Longrightarrow> m \<le> n \<Longrightarrow> take m xs = take m ys"
  by (metis min.absorb1 take_take)

lemma nth_eq_of_take_eq:
  "take n xs = take n ys \<Longrightarrow> k < n \<Longrightarrow> xs ! k = ys ! k"
  by (metis nth_take)

lemma take_drop_eq_of_take_eq:
  "take n xs = take n ys \<Longrightarrow> k + m \<le> n \<Longrightarrow> take m (drop k xs) = take m (drop k ys)"
  by (metis take_drop take_eq_mono add.commute)

text \<open>Two buffers that differ at most at the offsets from \<open>lo\<close> to \<open>hi\<close>.\<close>

definition same_outside :: "nat \<Rightarrow> nat \<Rightarrow> 'a list \<Rightarrow> 'a list \<Rightarrow> bool" where
  "same_outside lo hi xs ys \<longleftrightarrow>
     length xs = length ys \<and> take lo xs = take lo ys \<and> drop hi xs = drop hi ys"

lemma same_outside_refl [simp, intro!]: "same_outside lo hi xs xs"
  by (simp add: same_outside_def)

lemma same_outside_trans [trans]:
  "same_outside lo hi xs ys \<Longrightarrow> same_outside lo hi ys zs \<Longrightarrow> same_outside lo hi xs zs"
  by (simp add: same_outside_def)

lemma same_outside_mono:
  "same_outside lo hi xs ys \<Longrightarrow> lo' \<le> lo \<Longrightarrow> hi \<le> hi' \<Longrightarrow> same_outside lo' hi' xs ys"
  unfolding same_outside_def by (metis drop_drop le_add_diff_inverse2 take_eq_mono)

lemma same_outside_write:
  "buf_write dst off xs = Inr dst' \<Longrightarrow> same_outside off (off + length xs) dst dst'"
  by (auto simp: same_outside_def c_simps min_absorb2)

section \<open>Words\<close>

lemma word_less_exp_bit: "n < 2 ^ k \<Longrightarrow> bit n j \<Longrightarrow> j < k" for n :: "'a::len word"
  by (metis less_mask_eq bit_and_iff bit_mask_iff)

lemma word_eq_bits: "x = y \<longleftrightarrow> (\<forall>n<LENGTH('a). bit x n = bit y n)" for x y :: "'a::len word"
  by (auto intro: bit_word_eqI)

lemma drop_bit_not_int: "drop_bit n (NOT k) = NOT (drop_bit n (k :: int))"
  by (rule bit_eqI) (simp add: bit_drop_bit_eq bit_not_iff_eq)

end
