(* ===== verification/Xbzrle.thy ===== *)
theory Xbzrle
  imports Prelude
begin

text \<open>
  The XBZRLE codec of live migration: \<open>uleb128_encode_small\<close> and \<open>uleb128_decode_small\<close> of
  \<open>util/cutils.c\<close>, and \<open>xbzrle_encode_buffer\<close> and \<open>xbzrle_decode_buffer\<close> of \<open>xbzrle.c\<close>.
  The host is little endian with an eight byte \<open>long\<close>, so a read through \<open>(long *)\<close> is
  \<open>read_long\<close>.  Buffers are lists of bytes, indices and run lengths are natural numbers (the code
  keeps them in \<open>int\<close> and \<open>uint32_t\<close>; a page is far below \<open>2 ^ 31\<close> bytes), and an
  access outside a buffer is the error \<open>Out_of_bounds\<close>.
\<close>

section \<open>ULEB128 numbers of at most 14 bits\<close>

definition uleb128_encode_small :: "u8 list \<Rightarrow> nat \<Rightarrow> u32 \<Rightarrow> c_error + (nat \<times> u8 list)" where
  "uleb128_encode_small out p n =
     sbind (c_assert (n \<le> 0x3fff)) (\<lambda>_.
       if n < 0x80 then
         sbind (buf_write out p [ucast n]) (\<lambda>out1. Inr (1, out1))
       else
         sbind (buf_write out p [ucast ((n AND 0x7f) OR 0x80)]) (\<lambda>out1.
         sbind (buf_write out1 (p + 1) [ucast (drop_bit 7 n)]) (\<lambda>out2. Inr (2, out2))))"

definition uleb128_decode_small :: "u8 list \<Rightarrow> nat \<Rightarrow> c_error + (int \<times> u32)" where
  "uleb128_decode_small inp p =
     sbind (buf_get inp p) (\<lambda>b0.
       if b0 AND 0x80 = 0 then Inr (1, ucast b0)
       else
         sbind (buf_get inp (p + 1)) (\<lambda>b1.
           if b1 AND 0x80 \<noteq> 0 then Inr (-1, ucast (b0 AND 0x7f))
           else Inr (2, ucast (b0 AND 0x7f) OR push_bit 7 (ucast b1))))"

section \<open>The encoder\<close>

definition read_long :: "u8 list \<Rightarrow> nat \<Rightarrow> u64" where
  "read_long buf i = word_rcat (rev (take 8 (drop i buf)))"

text \<open>The scan over equal bytes: up to the next eight byte boundary from the end, then a word at
  a time, then the rest.\<close>

fun zrun_align :: "u8 list \<Rightarrow> u8 list \<Rightarrow> nat \<Rightarrow> nat \<Rightarrow> nat \<Rightarrow> nat \<times> nat \<times> nat" where
  "zrun_align old new 0 i zrun = (0, i, zrun)"
| "zrun_align old new (Suc res) i zrun =
     (if old ! i = new ! i then zrun_align old new res (i + 1) (zrun + 1)
      else (Suc res, i, zrun))"

function zrun_words :: "u8 list \<Rightarrow> u8 list \<Rightarrow> nat \<Rightarrow> nat \<Rightarrow> nat \<Rightarrow> nat \<times> nat" where
  "zrun_words old new slen i zrun =
     (if i < slen \<and> read_long old i = read_long new i
      then zrun_words old new slen (i + 8) (zrun + 8)
      else (i, zrun))"
  by pat_completeness auto
termination
  by (relation "measure (\<lambda>(old, new, slen, i, zrun). slen - i)") auto

function zrun_rest :: "u8 list \<Rightarrow> u8 list \<Rightarrow> nat \<Rightarrow> nat \<Rightarrow> nat \<Rightarrow> nat \<times> nat" where
  "zrun_rest old new slen i zrun =
     (if i < slen \<and> old ! i = new ! i
      then zrun_rest old new slen (i + 1) (zrun + 1)
      else (i, zrun))"
  by pat_completeness auto
termination
  by (relation "measure (\<lambda>(old, new, slen, i, zrun). slen - i)") auto

definition zrun_scan :: "u8 list \<Rightarrow> u8 list \<Rightarrow> nat \<Rightarrow> nat \<Rightarrow> nat \<Rightarrow> nat \<times> nat" where
  "zrun_scan old new slen i zrun =
     (case zrun_align old new ((slen - i) mod 8) i zrun of (res, i1, zrun1) \<Rightarrow>
        if res = 0 then
          (case zrun_words old new slen i1 zrun1 of (i2, zrun2) \<Rightarrow>
             zrun_rest old new slen i2 zrun2)
        else (i1, zrun1))"

text \<open>The scan over different bytes, with the test for a zero byte in a word.\<close>

definition long_mask :: u64 where
  "long_mask = 0x0101010101010101"

definition has_zero_byte :: "u64 \<Rightarrow> bool" where
  "has_zero_byte x = ((x - long_mask) AND NOT x AND push_bit 7 long_mask \<noteq> 0)"

fun nzrun_align :: "u8 list \<Rightarrow> u8 list \<Rightarrow> nat \<Rightarrow> nat \<Rightarrow> nat \<Rightarrow> nat \<times> nat \<times> nat" where
  "nzrun_align old new 0 i nzrun = (0, i, nzrun)"
| "nzrun_align old new (Suc res) i nzrun =
     (if old ! i \<noteq> new ! i then nzrun_align old new res (i + 1) (nzrun + 1)
      else (Suc res, i, nzrun))"

text \<open>The innermost loop has no bound of its own in the source: it relies on the zero byte that
  was found.  Leaving the buffer is an error.\<close>

function nzrun_rest :: "u8 list \<Rightarrow> u8 list \<Rightarrow> nat \<Rightarrow> nat \<Rightarrow> c_error + (nat \<times> nat)" where
  "nzrun_rest old new i nzrun =
     (if i < length old \<and> i < length new then
        if old ! i \<noteq> new ! i then nzrun_rest old new (i + 1) (nzrun + 1)
        else Inr (i, nzrun)
      else Inl Out_of_bounds)"
  by pat_completeness auto
termination
  by (relation "measure (\<lambda>(old, new, i, nzrun). length old - i)") auto

function nzrun_words :: "u8 list \<Rightarrow> u8 list \<Rightarrow> nat \<Rightarrow> nat \<Rightarrow> nat \<Rightarrow> c_error + (nat \<times> nat)" where
  "nzrun_words old new slen i nzrun =
     (if i < slen then
        if has_zero_byte (read_long old i XOR read_long new i)
        then nzrun_rest old new i nzrun
        else nzrun_words old new slen (i + 8) (nzrun + 8)
      else Inr (i, nzrun))"
  by pat_completeness auto
termination
  by (relation "measure (\<lambda>(old, new, slen, i, nzrun). slen - i)") auto

definition nzrun_scan :: "u8 list \<Rightarrow> u8 list \<Rightarrow> nat \<Rightarrow> nat \<Rightarrow> nat \<Rightarrow> c_error + (nat \<times> nat)" where
  "nzrun_scan old new slen i nzrun =
     (case nzrun_align old new ((slen - i) mod 8) i nzrun of (res, i1, nzrun1) \<Rightarrow>
        if res = 0 then nzrun_words old new slen i1 nzrun1 else Inr (i1, nzrun1))"

declare zrun_words.simps [simp del] zrun_rest.simps [simp del]
  nzrun_rest.simps [simp del] nzrun_words.simps [simp del]

text \<open>Each scan makes progress, which is what ends the encoder's outer loop.\<close>

lemma zrun_align_props:
  "zrun_align old new res i z = (r, j, z') \<Longrightarrow>
   i \<le> j \<and> r + j = res + i \<and> z' + i = z + j \<and> all_in (\<lambda>k. old ! k = new ! k) i j \<and>
   (r \<noteq> 0 \<longrightarrow> old ! j \<noteq> new ! j)"
proof (induction old new res i z rule: zrun_align.induct)
  case (2 old new res i z)
  show ?case
  proof (cases "old ! i = new ! i")
    case True
    with 2 have "Suc i \<le> j \<and> r + j = res + Suc i \<and> z' + Suc i = Suc z + j \<and>
        all_in (\<lambda>k. old ! k = new ! k) (Suc i) j \<and> (r \<noteq> 0 \<longrightarrow> old ! j \<noteq> new ! j)"
      by simp
    with True show ?thesis by (intro conjI) (auto intro: all_in_step)
  next
    case False
    with 2 show ?thesis by auto
  qed
qed auto

lemma zrun_rest_props:
  "zrun_rest old new slen i z = (j, z') \<Longrightarrow>
   i \<le> j \<and> (i \<le> slen \<longrightarrow> j \<le> slen) \<and> z' + i = z + j \<and>
   all_in (\<lambda>k. old ! k = new ! k) i j \<and> (j < slen \<longrightarrow> old ! j \<noteq> new ! j)"
proof (induction old new slen i z rule: zrun_rest.induct)
  case (1 old new slen i z)
  show ?case
  proof (cases "i < slen \<and> old ! i = new ! i")
    case True
    with "1.prems" have "zrun_rest old new slen (i + 1) (z + 1) = (j, z')"
      by (simp add: zrun_rest.simps [of old new slen i z])
    from "1.IH" [OF True this] True show ?thesis
      by (auto intro: all_in_step)
  next
    case False
    with "1.prems" show ?thesis
      by (auto simp: zrun_rest.simps [of old new slen i z])
  qed
qed

lemma zrun_words_ge:
  "zrun_words old new slen i z = (j, z') \<Longrightarrow> i \<le> j \<and> z' + i = z + j"
proof (induction old new slen i z rule: zrun_words.induct)
  case (1 old new slen i z)
  show ?case
  proof (cases "i < slen \<and> read_long old i = read_long new i")
    case True
    with "1.prems" have "zrun_words old new slen (i + 8) (z + 8) = (j, z')"
      by (simp add: zrun_words.simps [of old new slen i z])
    from "1.IH" [OF True this] show ?thesis by auto
  next
    case False
    with "1.prems" show ?thesis
      by (auto simp: zrun_words.simps [of old new slen i z])
  qed
qed

lemma zrun_scan_ge:
  "zrun_scan old new slen i z = (j, z') \<Longrightarrow>
   i \<le> j \<and> z' + i = z + j \<and> (j < slen \<longrightarrow> old ! j \<noteq> new ! j)"
  by (auto simp: zrun_scan_def split: prod.splits if_splits
           dest!: zrun_align_props zrun_words_ge zrun_rest_props)

lemma nzrun_align_props:
  "nzrun_align old new res i n = (r, j, n') \<Longrightarrow>
   i \<le> j \<and> r + j = res + i \<and> n' + i = n + j \<and> all_in (\<lambda>k. old ! k \<noteq> new ! k) i j \<and>
   (r \<noteq> 0 \<longrightarrow> old ! j = new ! j)"
proof (induction old new res i n rule: nzrun_align.induct)
  case (2 old new res i n)
  show ?case
  proof (cases "old ! i = new ! i")
    case False
    with 2 have "Suc i \<le> j \<and> r + j = res + Suc i \<and> n' + Suc i = Suc n + j \<and>
        all_in (\<lambda>k. old ! k \<noteq> new ! k) (Suc i) j \<and> (r \<noteq> 0 \<longrightarrow> old ! j = new ! j)"
      by simp
    with False show ?thesis by (intro conjI) (auto intro: all_in_step)
  next
    case True
    with 2 show ?thesis by auto
  qed
qed auto

lemma nzrun_rest_props:
  "nzrun_rest old new i n = Inr (j, n') \<Longrightarrow>
   i \<le> j \<and> j < length old \<and> n' + i = n + j \<and> all_in (\<lambda>k. old ! k \<noteq> new ! k) i j \<and>
   old ! j = new ! j"
proof (induction old new i n rule: nzrun_rest.induct)
  case (1 old new i n)
  show ?case
  proof (cases "i < length old \<and> i < length new \<and> old ! i \<noteq> new ! i")
    case True
    with "1.prems" have "nzrun_rest old new (i + 1) (n + 1) = Inr (j, n')"
      by (simp add: nzrun_rest.simps [of old new i n])
    with "1.IH" True show ?thesis by (auto intro: all_in_step)
  next
    case False
    with "1.prems" show ?thesis
      by (auto simp: nzrun_rest.simps [of old new i n] split: if_splits)
  qed
qed

lemma nzrun_words_ge:
  "nzrun_words old new slen i n = Inr (j, n') \<Longrightarrow>
   i \<le> j \<and> n' + i = n + j \<and> (i < slen \<and> old ! i \<noteq> new ! i \<longrightarrow> i < j)"
proof (induction old new slen i n rule: nzrun_words.induct)
  case (1 old new slen i n)
  consider (rest) "i < slen" "has_zero_byte (read_long old i XOR read_long new i)"
    | (next_word) "i < slen" "\<not> has_zero_byte (read_long old i XOR read_long new i)"
    | (stop) "\<not> i < slen"
    by blast
  then show ?case
  proof cases
    case rest
    with "1.prems" have "nzrun_rest old new i n = Inr (j, n')"
      by (simp add: nzrun_words.simps [of old new slen i n])
    from nzrun_rest_props [OF this] show ?thesis by (auto simp: le_less)
  next
    case next_word
    with "1.prems" have "nzrun_words old new slen (i + 8) (n + 8) = Inr (j, n')"
      by (simp add: nzrun_words.simps [of old new slen i n])
    from "1.IH" [OF next_word this] show ?thesis by auto
  next
    case stop
    with "1.prems" show ?thesis
      by (simp add: nzrun_words.simps [of old new slen i n])
  qed
qed

lemma nzrun_scan_ge:
  assumes "nzrun_scan old new slen i n = Inr (j, n')"
  shows "i \<le> j \<and> n' + i = n + j \<and> (i < slen \<and> old ! i \<noteq> new ! i \<longrightarrow> i < j)"
proof -
  obtain r i1 n1 where a: "nzrun_align old new ((slen - i) mod 8) i n = (r, i1, n1)"
    by (metis prod_cases3)
  note al = nzrun_align_props [OF a]
  show ?thesis
  proof (cases "r = 0")
    case True
    with assms a have "nzrun_words old new slen i1 n1 = Inr (j, n')"
      by (simp add: nzrun_scan_def)
    from nzrun_words_ge [OF this] al show ?thesis by (auto simp: le_less)
  next
    case False
    with assms a al show ?thesis by (auto simp: nzrun_scan_def le_less)
  qed
qed

function xbzrle_encode_loop ::
    "u8 list \<Rightarrow> u8 list \<Rightarrow> nat \<Rightarrow> u8 list \<Rightarrow> nat \<Rightarrow> nat \<Rightarrow> nat \<Rightarrow> c_error + (int \<times> u8 list)" where
  "xbzrle_encode_loop old new slen dst dlen d i =
     (if i < slen then
        if d + 2 > dlen then Inr (-1, dst)
        else (case zrun_scan old new slen i 0 of (i1, zrun) \<Rightarrow>
          if zrun = slen then Inr (0, dst)
          else if i1 = slen then Inr (int d, dst)
          else
            sbind (uleb128_encode_small dst d (word_of_nat zrun)) (\<lambda>(k1, dst1).
              if d + k1 + 2 > dlen then Inr (-1, dst1)
              else
                sbind (nzrun_scan old new slen i1 0) (\<lambda>(i2, nzrun).
                sbind (uleb128_encode_small dst1 (d + k1) (word_of_nat nzrun)) (\<lambda>(k2, dst2).
                  if d + k1 + k2 + nzrun > dlen then Inr (-1, dst2)
                  else
                    sbind (buf_write dst2 (d + k1 + k2) (take nzrun (drop i1 new))) (\<lambda>dst3.
                      xbzrle_encode_loop old new slen dst3 dlen (d + k1 + k2 + nzrun) i2)))))
      else Inr (int d, dst))"
  by pat_completeness auto
termination
  by (relation "measure (\<lambda>(old, new, slen, dst, dlen, d, i). slen - i)")
     (auto dest!: zrun_scan_ge [OF sym] nzrun_scan_ge)

declare xbzrle_encode_loop.simps [simp del]

text \<open>The source also asserts that both buffers are aligned to a \<open>long\<close>; lists have no address,
  so only the length is checked.\<close>

definition xbzrle_encode_buffer ::
    "u8 list \<Rightarrow> u8 list \<Rightarrow> nat \<Rightarrow> u8 list \<Rightarrow> nat \<Rightarrow> c_error + (int \<times> u8 list)" where
  "xbzrle_encode_buffer old new slen dst dlen =
     sbind (c_assert (slen mod 8 = 0)) (\<lambda>_. xbzrle_encode_loop old new slen dst dlen 0 0)"

section \<open>The decoder\<close>

lemma uleb128_decode_small_ret:
  "uleb128_decode_small inp p = Inr (r, n) \<Longrightarrow> r = -1 \<or> r = 1 \<or> r = 2"
  by (auto simp: uleb128_decode_small_def c_simps split: if_splits)

function xbzrle_decode_loop ::
    "u8 list \<Rightarrow> nat \<Rightarrow> u8 list \<Rightarrow> nat \<Rightarrow> nat \<Rightarrow> nat \<Rightarrow> c_error + (int \<times> u8 list)" where
  "xbzrle_decode_loop src slen dst dlen i d =
     (if i < slen then
        if slen - i < 2 then Inr (-1, dst)
        else
          sbind (uleb128_decode_small src i) (\<lambda>(ret, count).
            if ret < 0 \<or> (i \<noteq> 0 \<and> count = 0) then Inr (-1, dst)
            else
              let i1 = i + nat ret; d1 = d + unat count in
              if d1 > dlen then Inr (-1, dst)
              else if slen - i1 < 2 then Inr (-1, dst)
              else
                sbind (uleb128_decode_small src i1) (\<lambda>(ret2, count2).
                  if ret2 < 0 \<or> count2 = 0 then Inr (-1, dst)
                  else
                    let i2 = i1 + nat ret2; n = unat count2 in
                    if d1 + n > dlen \<or> i2 + n > slen then Inr (-1, dst)
                    else
                      sbind (buf_write dst d1 (take n (drop i2 src))) (\<lambda>dst1.
                        xbzrle_decode_loop src slen dst1 dlen (i2 + n) (d1 + n))))
      else Inr (int d, dst))"
  by pat_completeness auto
termination
  by (relation "measure (\<lambda>(src, slen, dst, dlen, i, d). slen - i)")
     (auto dest!: uleb128_decode_small_ret)

declare xbzrle_decode_loop.simps [simp del]

definition xbzrle_decode_buffer ::
    "u8 list \<Rightarrow> nat \<Rightarrow> u8 list \<Rightarrow> nat \<Rightarrow> c_error + (int \<times> u8 list)" where
  "xbzrle_decode_buffer src slen dst dlen = xbzrle_decode_loop src slen dst dlen 0 0"

section \<open>Comparing a word at a time\<close>

lemma bit_horner_sum_bytes:
  "bit (horner_sum uint 256 (ws :: u8 list)) n \<longleftrightarrow>
   n div 8 < length ws \<and> bit (ws ! (n div 8)) (n mod 8)"
  using bit_horner_sum_uint_exp_iff [of ws n] by simp

lemma bit_read_long:
  assumes "i + 8 \<le> length buf"
  shows "bit (read_long buf i) n \<longleftrightarrow> n < 64 \<and> bit (buf ! (i + n div 8)) (n mod 8)"
proof -
  have "bit (read_long buf i) n \<longleftrightarrow>
      n < 64 \<and> bit (horner_sum uint 256 (take 8 (drop i buf))) n"
    by (simp add: read_long_def word_rcat_def bit_word_of_int_iff)
  also have "\<dots> \<longleftrightarrow> n < 64 \<and> bit (buf ! (i + n div 8)) (n mod 8)"
    using assms by (auto simp: bit_horner_sum_bytes less_mult_imp_div_less)
  finally show ?thesis .
qed

lemma byte_eq_iff: "(a :: u8) = b \<longleftrightarrow> (\<forall>n < 8. bit a n = bit b n)"
  by (auto intro: bit_word_eqI)

lemma read_long_eq_iff:
  assumes "i + 8 \<le> length old" "i + 8 \<le> length new"
  shows "read_long old i = read_long new i \<longleftrightarrow> all_in (\<lambda>k. old ! k = new ! k) i (i + 8)"
proof
  assume eq: "read_long old i = read_long new i"
  show "all_in (\<lambda>k. old ! k = new ! k) i (i + 8)"
  proof (rule all_inI)
    fix k assume k: "i \<le> k" "k < i + 8"
    have "bit (old ! k) n = bit (new ! k) n" if "n < 8" for n
    proof -
      have "bit (read_long old i) (8 * (k - i) + n) = bit (read_long new i) (8 * (k - i) + n)"
        by (simp add: eq)
      moreover have "8 * (k - i) + n < 64" using k that by linarith
      ultimately show ?thesis using k that by (simp add: bit_read_long assms)
    qed
    then show "old ! k = new ! k" by (simp add: byte_eq_iff)
  qed
next
  assume eq: "all_in (\<lambda>k. old ! k = new ! k) i (i + 8)"
  show "read_long old i = read_long new i"
  proof (rule bit_word_eqI)
    fix n assume "n < LENGTH(64)"
    then have "n div 8 < 8" by simp
    with all_inD [OF eq, of "i + n div 8"] have "old ! (i + n div 8) = new ! (i + n div 8)"
      by simp
    then show "bit (read_long old i) n = bit (read_long new i) n"
      by (simp add: bit_read_long assms)
  qed
qed

definition bytes_int :: "u8 list \<Rightarrow> int" where
  "bytes_int bs = horner_sum uint 256 bs"

definition ones_int :: "u8 list \<Rightarrow> int" where
  "ones_int bs = horner_sum (\<lambda>_. 1) 256 bs"

lemma bytes_int_simps [simp]:
  "bytes_int [] = 0" "bytes_int (b # bs) = uint b + 256 * bytes_int bs"
  by (simp_all add: bytes_int_def)

lemma ones_int_simps [simp]:
  "ones_int [] = 0" "ones_int (b # bs) = 1 + 256 * ones_int bs"
  by (simp_all add: ones_int_def)

lemma int_split_byte: "(z :: int) = 0 \<longleftrightarrow> take_bit 8 z = 0 \<and> drop_bit 8 z = 0"
  by (metis bits_ident drop_bit_of_0 push_bit_of_0 take_bit_of_0 add_0)

lemma take_byte: "0 \<le> b \<Longrightarrow> b < 256 \<Longrightarrow> take_bit 8 (b + 256 * z) = (b :: int)"
  by (simp add: take_bit_eq_mod)

lemma drop_byte: "0 \<le> b \<Longrightarrow> b < 256 \<Longrightarrow> drop_bit 8 (b + 256 * z) = (z :: int)"
  by (simp add: drop_bit_eq_div)

lemma byte_dec: "(0 :: int) < b \<Longrightarrow> b < 256 \<Longrightarrow> (b - 1) AND NOT b AND 128 = 0"
proof -
  assume b: "0 < b" "b < 256"
  have "\<not> bit ((b - 1) AND NOT b) 7"
  proof
    assume "bit ((b - 1) AND NOT b) 7"
    then have "bit (b - 1) 7" "\<not> bit b 7"
      by (simp_all add: bit_and_iff bit_not_iff_eq)
    then have "odd ((b - 1) div 128)" "even (b div 128)"
      by (simp_all add: bit_iff_odd)
    moreover have "(b - 1) div 128 = 0 \<or> b div 128 = 1"
      using b by (cases "b < 128") auto
    ultimately show False by auto
  qed
  then have "((b - 1) AND NOT b) AND 2 ^ 7 = 0"
    by (simp only: and_exp_eq_0_iff_not_bit not_False_eq_True)
  then show ?thesis by (simp add: and.assoc)
qed

lemma zero_byte_int:
  "(bytes_int bs - ones_int bs) AND NOT (bytes_int bs) AND (128 * ones_int bs) \<noteq> 0
   \<longleftrightarrow> 0 \<in> set bs"
proof (induction bs)
  case (Cons b bs)
  let ?H = "bytes_int bs" and ?M = "ones_int bs"
  let ?z = "(bytes_int (b # bs) - ones_int (b # bs)) AND NOT (bytes_int (b # bs)) AND
            (128 * ones_int (b # bs))"
  have b: "0 \<le> uint b" "uint b < 256" using uint_lt2p [of b] by simp_all
  have ones: "128 * ones_int (b # bs) = 128 + 256 * (128 * ?M)" by simp
  show ?case
  proof (cases "b = 0")
    case True
    have sub: "bytes_int (b # bs) - ones_int (b # bs) = 255 + 256 * (?H - ?M - 1)"
      using True by simp
    have H: "bytes_int (b # bs) = 0 + 256 * ?H" using True by simp
    have "take_bit 8 ?z = 255 AND take_bit 8 (NOT (take_bit 8 (0 + 256 * ?H))) AND 128"
      unfolding sub ones unfolding H take_bit_and take_bit_not_take_bit
      by (simp only: take_byte [of 255] take_byte [of 128])
    also have "\<dots> = 128" by (simp only: take_byte [of 0]) (simp add: mask_eq_exp_minus_1)
    finally have "?z \<noteq> 0" by (metis take_bit_of_0 zero_neq_numeral)
    with True show ?thesis by simp
  next
    case False
    then have pos: "0 < uint b" using b by (simp add: uint_0_iff le_less)
    have sub: "bytes_int (b # bs) - ones_int (b # bs) = (uint b - 1) + 256 * (?H - ?M)"
      by simp
    have "take_bit 8 ?z = (uint b - 1) AND take_bit 8 (NOT (take_bit 8 (uint b + 256 * ?H))) AND 128"
      unfolding sub ones unfolding bytes_int_simps take_bit_and take_bit_not_take_bit
      using pos b by (simp only: take_byte [of "uint b - 1"] take_byte [of 128])
    also have "\<dots> = take_bit 8 ((uint b - 1) AND NOT (uint b) AND 128)"
      unfolding take_bit_and using pos b
      by (simp add: take_byte [of "uint b"] take_bit_int_eq_self)
    finally have "take_bit 8 ?z = 0" using pos b byte_dec [of "uint b"] by simp
    moreover have "drop_bit 8 ?z = (?H - ?M) AND NOT ?H AND (128 * ?M)"
      unfolding sub ones drop_bit_and drop_bit_not_int unfolding bytes_int_simps using pos b
      by (simp only: drop_byte [of "uint b - 1"] drop_byte [of "uint b"] drop_byte [of 128])
    ultimately show ?thesis
      using Cons False int_split_byte [of ?z] by simp
  qed
qed simp

lemma xor_read_long:
  assumes "i + 8 \<le> length old" "i + 8 \<le> length new"
  shows "read_long old i XOR read_long new i =
    word_of_int (bytes_int (map2 (XOR) (take 8 (drop i old)) (take 8 (drop i new))))"
proof (rule bit_word_eqI)
  fix n assume "n < LENGTH(64)"
  then have "n < 64" "n div 8 < 8" by simp_all
  with assms show "bit (read_long old i XOR read_long new i) n =
      bit (word_of_int (bytes_int (map2 (XOR) (take 8 (drop i old)) (take 8 (drop i new)))) :: u64) n"
    by (simp add: bit_read_long bit_xor_iff bit_word_of_int_iff bytes_int_def bit_horner_sum_bytes)
qed

lemma list8:
  assumes "length bs = 8"
  obtains a b c d e f g h where "bs = [a, b, c, d, e, f, g, h]"
  using assms by (auto simp: length_Suc_conv eval_nat_numeral)

lemma ones_int_8: "length bs = 8 \<Longrightarrow> ones_int bs = 0x0101010101010101"
  by (erule list8) simp

lemma bytes_int_bounds: "0 \<le> bytes_int bs \<and> bytes_int bs < 256 ^ length bs"
proof (induction bs)
  case (Cons b bs)
  have "0 \<le> uint b" "uint b < 256" using uint_lt2p [of b] by simp_all
  with Cons show ?case by auto
qed simp

lemma has_zero_byte_word:
  assumes "length bs = 8"
  shows "has_zero_byte (word_of_int (bytes_int bs)) \<longleftrightarrow> 0 \<in> set bs"
proof -
  let ?z = "(bytes_int bs - ones_int bs) AND NOT (bytes_int bs) AND (128 * ones_int bs)"
  have "0 \<le> ?z \<and> ?z < 2 ^ 64"
  proof -
    have "?z \<le> 128 * ones_int bs" "0 \<le> ?z"
       by (simp_all add: ones_int_8 [OF assms] AND_upper2)
    then show ?thesis by (simp add: ones_int_8 [OF assms])
  qed
  then have "uint (word_of_int ?z :: u64) = ?z"
    by (simp only: uint_word_of_int take_bit_int_eq_self len_of_numeral_defs) simp
  then have z: "(word_of_int ?z :: u64) = 0 \<longleftrightarrow> ?z = 0"
    by (metis uint_0_iff)
  have "(word_of_int (bytes_int bs) - long_mask) AND NOT (word_of_int (bytes_int bs))
        AND push_bit 7 long_mask = (word_of_int ?z :: u64)"
    by (simp add: ones_int_8 [OF assms] long_mask_def push_bit_eq_mult
        of_int_and_eq of_int_not_eq)
  then show ?thesis using z zero_byte_int [of bs] by (simp add: has_zero_byte_def)
qed

lemma byte_xor_0: "(a :: u8) XOR b = 0 \<longleftrightarrow> a = b"
  by (auto simp: bit_eq_iff bit_xor_iff)

lemma has_zero_byte_xor:
  assumes "i + 8 \<le> length old" "i + 8 \<le> length new"
  shows "has_zero_byte (read_long old i XOR read_long new i) \<longleftrightarrow>
    (\<exists>k. i \<le> k \<and> k < i + 8 \<and> old ! k = new ! k)"
proof -
  let ?bs = "map2 (XOR) (take 8 (drop i old)) (take 8 (drop i new))"
  have len: "length ?bs = 8" using assms by simp
  have "0 \<in> set ?bs \<longleftrightarrow> (\<exists>k<8. ?bs ! k = 0)" by (metis in_set_conv_nth len)
  also have "\<dots> \<longleftrightarrow> (\<exists>k<8. old ! (i + k) = new ! (i + k))"
    using assms by (intro ex_cong1 conj_cong) (simp_all add: byte_xor_0)
  also have "\<dots> \<longleftrightarrow> (\<exists>k. i \<le> k \<and> k < i + 8 \<and> old ! k = new ! k)"
    by (metis add_less_cancel_left le_add1 le_iff_add)
  finally show ?thesis unfolding xor_read_long [OF assms] has_zero_byte_word [OF len] .
qed

section \<open>What the scans compute\<close>

lemma dvd_sub8: "8 dvd (n - i) \<Longrightarrow> (8 :: nat) dvd (n - (i + 8))"
  by (metis diff_diff_left dvd_diff_nat dvd_refl)

lemma zrun_words_props:
  "zrun_words old new slen i z = (j, z') \<Longrightarrow> slen \<le> length old \<Longrightarrow> slen \<le> length new \<Longrightarrow>
   i \<le> slen \<Longrightarrow> 8 dvd (slen - i) \<Longrightarrow>
   i \<le> j \<and> j \<le> slen \<and> z' + i = z + j \<and> all_in (\<lambda>k. old ! k = new ! k) i j"
proof (induction old new slen i z rule: zrun_words.induct)
  case (1 old new slen i z)
  show ?case
  proof (cases "i < slen \<and> read_long old i = read_long new i")
    case True
    with "1.prems" have rec: "zrun_words old new slen (i + 8) (z + 8) = (j, z')"
      by (simp add: zrun_words.simps [of old new slen i z])
    have le: "i + 8 \<le> slen" using True "1.prems" by (auto dest!: dvd_imp_le)
    have dvd: "8 dvd (slen - (i + 8))" using "1.prems"(5) by (rule dvd_sub8)
    have "all_in (\<lambda>k. old ! k = new ! k) i (i + 8)"
      using True le "1.prems" by (simp add: read_long_eq_iff)
    moreover have "i + 8 \<le> j \<and> j \<le> slen \<and> z' + (i + 8) = z + 8 + j \<and>
        all_in (\<lambda>k. old ! k = new ! k) (i + 8) j"
      using "1.IH" [OF True rec "1.prems"(2,3) le dvd] .
    ultimately show ?thesis using all_in_trans by fastforce
  next
    case False
    with "1.prems" show ?thesis
      by (auto simp: zrun_words.simps [of old new slen i z])
  qed
qed

lemma zrun_scan_props:
  assumes "zrun_scan old new slen i z = (j, z')" "slen \<le> length old" "slen \<le> length new" "i \<le> slen"
  shows "i \<le> j \<and> j \<le> slen \<and> z' + i = z + j \<and> all_in (\<lambda>k. old ! k = new ! k) i j \<and>
    (j < slen \<longrightarrow> old ! j \<noteq> new ! j)"
proof -
  obtain r i1 z1 where a: "zrun_align old new ((slen - i) mod 8) i z = (r, i1, z1)"
    by (metis prod_cases3)
  note al = zrun_align_props [OF a]
  have i1: "r + i1 \<le> slen" using al assms(4) mod_less_eq_dividend [of "slen - i" 8] by linarith
  show ?thesis
  proof (cases "r = 0")
    case True
    obtain i2 z2 where w: "zrun_words old new slen i1 z1 = (i2, z2)" by fastforce
    have "8 dvd (slen - i1)"
    proof -
      have "slen - i1 = (slen - i) - (slen - i) mod 8" using al True assms(4) by linarith
      then show ?thesis by (simp add: minus_mod_eq_mult_div)
    qed
    then have w': "i1 \<le> i2 \<and> i2 \<le> slen \<and> z2 + i1 = z1 + i2 \<and> all_in (\<lambda>k. old ! k = new ! k) i1 i2"
      using zrun_words_props [OF w assms(2,3)] i1 True by simp
    have "zrun_rest old new slen i2 z2 = (j, z')"
      using assms(1) a w True by (simp add: zrun_scan_def)
    note r = zrun_rest_props [OF this]
    have "all_in (\<lambda>k. old ! k = new ! k) i j"
      using al w' r all_in_trans by blast
    with al w' r show ?thesis by simp
  next
    case False
    with assms(1) a have "j = i1" "z' = z1" by (simp_all add: zrun_scan_def)
    with al False i1 show ?thesis by auto
  qed
qed

lemma nzrun_rest_stops:
  "i \<le> k \<Longrightarrow> k < length old \<Longrightarrow> k < length new \<Longrightarrow> old ! k = new ! k \<Longrightarrow>
   \<exists>j. nzrun_rest old new i n = Inr (j, n + (j - i)) \<and> i \<le> j \<and> j \<le> k \<and>
     all_in (\<lambda>k. old ! k \<noteq> new ! k) i j \<and> old ! j = new ! j"
proof (induction "k - i" arbitrary: i n)
  case 0
  then show ?case by (auto simp: nzrun_rest.simps [of old new i n])
next
  case (Suc m)
  show ?case
  proof (cases "old ! i = new ! i")
    case True
    with Suc.prems show ?thesis by (auto simp: nzrun_rest.simps [of old new i n])
  next
    case False
    from Suc.hyps(2) Suc.prems have "m = k - (i + 1)" "i + 1 \<le> k" by auto
    with Suc.hyps(1) [OF this(1) this(2)] Suc.prems(2-) obtain j where
      "nzrun_rest old new (i + 1) (n + 1) = Inr (j, n + 1 + (j - (i + 1)))" "i + 1 \<le> j" "j \<le> k"
      "all_in (\<lambda>k. old ! k \<noteq> new ! k) (i + 1) j" "old ! j = new ! j"
      by blast
    with False Suc.prems show ?thesis
      by (intro exI [of _ j]) (auto simp: nzrun_rest.simps [of old new i n] intro: all_in_step)
  qed
qed

lemma nzrun_words_props:
  "slen \<le> length old \<Longrightarrow> slen \<le> length new \<Longrightarrow> i \<le> slen \<Longrightarrow> 8 dvd (slen - i) \<Longrightarrow>
   \<exists>j. nzrun_words old new slen i n = Inr (j, n + (j - i)) \<and> i \<le> j \<and> j \<le> slen \<and>
     all_in (\<lambda>k. old ! k \<noteq> new ! k) i j \<and> (j < slen \<longrightarrow> old ! j = new ! j)"
proof (induction old new slen i n rule: nzrun_words.induct)
  case (1 old new slen i n)
  show ?case
  proof (cases "i < slen")
    case True
    have le: "i + 8 \<le> slen" using True "1.prems" by (auto dest!: dvd_imp_le)
    show ?thesis
    proof (cases "has_zero_byte (read_long old i XOR read_long new i)")
      case zero: True
      then obtain k where "i \<le> k" "k < i + 8" "old ! k = new ! k"
        using le "1.prems" by (auto simp: has_zero_byte_xor)
      with nzrun_rest_stops [of i k old new n] le "1.prems" obtain j where
        "nzrun_rest old new i n = Inr (j, n + (j - i))" "i \<le> j" "j \<le> k"
        "all_in (\<lambda>k. old ! k \<noteq> new ! k) i j" "old ! j = new ! j"
        by auto
      with True zero le \<open>k < i + 8\<close> show ?thesis
        by (intro exI [of _ j]) (simp add: nzrun_words.simps [of old new slen i n])
    next
      case False
      have here: "all_in (\<lambda>k. old ! k \<noteq> new ! k) i (i + 8)"
        using False le "1.prems" by (auto simp: has_zero_byte_xor all_in_def)
      from "1.IH" [OF True False "1.prems"(1,2) le dvd_sub8 [OF "1.prems"(4)]] obtain j where
        j: "nzrun_words old new slen (i + 8) (n + 8) = Inr (j, n + 8 + (j - (i + 8)))" "i + 8 \<le> j"
        "j \<le> slen" "all_in (\<lambda>k. old ! k \<noteq> new ! k) (i + 8) j" "j < slen \<longrightarrow> old ! j = new ! j"
        by blast
      have "all_in (\<lambda>k. old ! k \<noteq> new ! k) i j" using here j(4) by (rule all_in_trans)
      with True False j show ?thesis
        by (intro exI [of _ j]) (simp add: nzrun_words.simps [of old new slen i n])
    qed
  next
    case False
    with "1.prems" show ?thesis
      by (intro exI [of _ i]) (simp add: nzrun_words.simps [of old new slen slen n])
  qed
qed

lemma nzrun_scan_props:
  assumes "slen \<le> length old" "slen \<le> length new" "i \<le> slen"
  shows "\<exists>j. nzrun_scan old new slen i n = Inr (j, n + (j - i)) \<and> i \<le> j \<and> j \<le> slen \<and>
    all_in (\<lambda>k. old ! k \<noteq> new ! k) i j \<and> (j < slen \<longrightarrow> old ! j = new ! j)"
proof -
  obtain r i1 n1 where a: "nzrun_align old new ((slen - i) mod 8) i n = (r, i1, n1)"
    by (metis prod_cases3)
  note al = nzrun_align_props [OF a]
  have i1: "r + i1 \<le> slen" using al assms(3) mod_less_eq_dividend [of "slen - i" 8] by linarith
  show ?thesis
  proof (cases "r = 0")
    case True
    have "slen - i1 = (slen - i) - (slen - i) mod 8" using al True assms(3) by linarith
    then have "8 dvd (slen - i1)" by (simp add: minus_mod_eq_mult_div)
    with nzrun_words_props [OF assms(1,2), of i1 n1] i1 obtain j where
      j: "nzrun_words old new slen i1 n1 = Inr (j, n1 + (j - i1))" "i1 \<le> j" "j \<le> slen"
      "all_in (\<lambda>k. old ! k \<noteq> new ! k) i1 j" "j < slen \<longrightarrow> old ! j = new ! j"
      by auto
    have "all_in (\<lambda>k. old ! k \<noteq> new ! k) i j" using al j(4) all_in_trans by blast
    moreover have "n1 + (j - i1) = n + (j - i)" using al j(2) by linarith
    ultimately show ?thesis using a al True j by (intro exI [of _ j]) (simp add: nzrun_scan_def)
  next
    case False
    have "n1 = n + (i1 - i)" using al by linarith
    with False a al i1 show ?thesis by (intro exI [of _ i1]) (simp add: nzrun_scan_def)
  qed
qed

section \<open>Writing and reading back a run length\<close>

lemma uleb128_encode_small_ok:
  assumes "n \<le> 0x3fff" "p + 2 \<le> length out"
  shows "\<exists>k out'. uleb128_encode_small out p n = Inr (k, out')"
  using assms by (simp add: uleb128_encode_small_def)

lemma uleb128_encode_small_frame:
  assumes "uleb128_encode_small out p n = Inr (k, out')"
  shows "length out' = length out" "take p out' = take p out" "k = 1 \<or> k = 2"
    "p + k \<le> length out" "n \<le> 0x3fff"
  using assms by (auto simp: uleb128_encode_small_def c_simps min_def split: if_splits)

lemma uleb128_roundtrip:
  assumes enc: "uleb128_encode_small out p n = Inr (k, out')"
    and same: "take (p + k) src = take (p + k) out'" and len: "p + k \<le> length src"
  shows "uleb128_decode_small src p = Inr (int k, n)"
proof -
  have n: "n \<le> 0x3fff" using uleb128_encode_small_frame [OF enc] by simp
  have nth: "src ! j = out' ! j" if "j < p + k" for j
    using same that by (rule nth_eq_of_take_eq)
  show ?thesis
  proof (cases "n < 0x80")
    case True
    with enc have k: "k = 1" and o: "out' ! p = ucast n"
      by (auto simp: uleb128_encode_small_def c_simps nth_append)
    have b: "j < 7" if "bit n j" for j using word_less_exp_bit [of n 7 j] True that by simp
    have "\<not> bit (ucast n :: u8) 7" using b by (auto simp: bit_ucast_iff)
    then have "(ucast n :: u8) AND 2 ^ 7 = 0" by (simp only: and_exp_eq_0_iff_not_bit not_False_eq_True)
    moreover have "ucast (ucast n :: u8) = n"
      by (rule bit_word_eqI) (auto simp: bit_ucast_iff dest: b)
    ultimately have "(ucast n :: u8) AND 0x80 = 0" "ucast (ucast n :: u8) = n" by simp_all
    then show ?thesis using nth [of p] len k o by (simp add: uleb128_decode_small_def)
  next
    case False
    with enc n have k: "k = 2" and o0: "out' ! p = ucast ((n AND 0x7f) OR 0x80)"
      and o1: "out' ! Suc p = ucast (drop_bit 7 n)"
      by (auto simp: uleb128_encode_small_def c_simps nth_append)
    have b: "j < 14" if "bit n j" for j
      using word_less_exp_bit [of n 14 j] n that by (simp add: word_le_nat_alt word_less_nat_alt)
    have x7f: "0x7f = (mask 7 :: u32)" "0x7f = (mask 7 :: u8)"
      and x80: "0x80 = (2 ^ 7 :: u32)" "0x80 = (2 ^ 7 :: u8)"
      by (simp_all add: mask_eq_exp_minus_1)
    have "(ucast ((n AND 0x7f) OR 0x80) :: u8) AND 0x80 \<noteq> 0" 
      unfolding x80 by (simp only: and_exp_eq_0_iff_not_bit) (simp add: bit_simps)
    moreover have "(ucast (drop_bit 7 n) :: u8) AND 0x80 = 0" using b [of 14]
      unfolding x80 by (simp only: and_exp_eq_0_iff_not_bit) (auto simp: bit_ucast_iff bit_drop_bit_eq)
    moreover have "ucast ((ucast ((n AND 0x7f) OR 0x80) :: u8) AND 0x7f)
      OR push_bit 7 (ucast (ucast (drop_bit 7 n) :: u8)) = n"
      unfolding x7f x80
    proof (rule bit_word_eqI)
      fix j assume "j < LENGTH(32)"
      moreover have "bit (128 :: u32) j \<longleftrightarrow> j = 7" using bit_exp_iff [of 7 j, where ?'a = u32] by auto
      ultimately show "bit (ucast ((ucast ((n AND mask 7) OR 2 ^ 7) :: u8) AND mask 7)
        OR push_bit 7 (ucast (ucast (drop_bit 7 n) :: u8)) :: u32) j = bit n j"
        using b [of j] by (cases "j < 7") (auto simp: bit_simps)
    qed
    ultimately show ?thesis using nth [of p] nth [of "Suc p"] len k o0 o1
      by (simp add: uleb128_decode_small_def)
  qed
qed

lemma word_of_nat_le_3fff: "n \<le> 0x3fff \<Longrightarrow> (word_of_nat n :: u32) \<le> 0x3fff"
  by (simp add: word_le_nat_alt unat_of_nat)

lemma unat_of_nat_3fff: "n \<le> 0x3fff \<Longrightarrow> unat (word_of_nat n :: u32) = n"
  by (simp add: unat_of_nat take_bit_nat_eq_self)

lemma uleb128_encode_small_outside:
  "uleb128_encode_small out p n = Inr (k, out') \<Longrightarrow> same_outside p (p + k) out out'"
  by (auto simp: uleb128_encode_small_def c_simps same_outside_def min_def split: if_splits)

lemma uleb128_encode_small_room:
  assumes "n \<le> 0x3fff" "p + 2 \<le> hi" "hi \<le> length out"
  obtains k out' where "uleb128_encode_small out p (word_of_nat n) = Inr (k, out')"
    "k = 1 \<or> k = 2" "length out' = length out" "same_outside p hi out out'"
proof -
  obtain k out' where e: "uleb128_encode_small out p (word_of_nat n) = Inr (k, out')"
    using uleb128_encode_small_ok [OF word_of_nat_le_3fff [OF assms(1)], of p out] assms by auto
  note f = uleb128_encode_small_frame [OF e]
  have "same_outside p hi out out'"
    using uleb128_encode_small_outside [OF e] f(3) assms(2) by (auto intro: same_outside_mono)
  with e f show thesis by (intro that)
qed

text \<open>One round of the encoder: it stops because the rest is equal, it gives up for lack of room,
  or it emits one run of equal and one run of different bytes.\<close>

definition enc_round ::
    "u8 list \<Rightarrow> u8 list \<Rightarrow> nat \<Rightarrow> u8 list \<Rightarrow> nat \<Rightarrow> nat \<Rightarrow> nat \<Rightarrow> nat \<Rightarrow> nat \<Rightarrow> nat \<Rightarrow> nat \<Rightarrow> u8 list \<Rightarrow> bool" where
  "enc_round old new slen dst dlen d i i1 i2 k1 k2 dst3 \<longleftrightarrow>
     i \<le> i1 \<and> i1 < i2 \<and> i2 \<le> slen \<and> all_in (\<lambda>k. old ! k = new ! k) i i1 \<and>
     old ! i1 \<noteq> new ! i1 \<and> (i2 < slen \<longrightarrow> old ! i2 = new ! i2) \<and>
     d + k1 + k2 + (i2 - i1) \<le> dlen \<and>
     (\<exists>dst1 dst2.
        uleb128_encode_small dst d (word_of_nat (i1 - i)) = Inr (k1, dst1) \<and>
        uleb128_encode_small dst1 (d + k1) (word_of_nat (i2 - i1)) = Inr (k2, dst2) \<and>
        buf_write dst2 (d + k1 + k2) (take (i2 - i1) (drop i1 new)) = Inr dst3)"

lemma encode_loop_end:
  "\<not> i < slen \<Longrightarrow> xbzrle_encode_loop old new slen dst dlen d i = Inr (int d, dst)"
  by (subst xbzrle_encode_loop.simps) simp

lemma encode_loop_cases:
  assumes len: "slen \<le> length old" "slen \<le> length new" and i: "i < slen"
    and dst: "dlen \<le> length dst" and small: "slen \<le> 0x3fff" and start: "i = 0 \<longrightarrow> d = 0"
  obtains
    (stop) "xbzrle_encode_loop old new slen dst dlen d i = Inr (int d, dst)"
      "all_in (\<lambda>k. old ! k = new ! k) i slen" "d \<le> dlen"
  | (full) dst' where "xbzrle_encode_loop old new slen dst dlen d i = Inr (-1, dst')"
      "same_outside d dlen dst dst'"
  | (run) i1 i2 k1 k2 dst3 where
      "enc_round old new slen dst dlen d i i1 i2 k1 k2 dst3"
      "xbzrle_encode_loop old new slen dst dlen d i =
         xbzrle_encode_loop old new slen dst3 dlen (d + k1 + k2 + (i2 - i1)) i2"
proof (cases "d + 2 \<le> dlen")
  case False
  then have "xbzrle_encode_loop old new slen dst dlen d i = Inr (-1, dst)"
    using i by (simp add: xbzrle_encode_loop.simps [of old new slen dst dlen d i])
  then show thesis by (rule full) simp
next
  case room: True
  obtain i1 z where zs: "zrun_scan old new slen i 0 = (i1, z)" by fastforce
  note zp = zrun_scan_props [OF zs len less_imp_le [OF i]]
  then have z: "z = i1 - i" by linarith
  note unf = xbzrle_encode_loop.simps [of old new slen dst dlen d i]
  show thesis
  proof (cases "i1 = slen")
    case True
    with i room start zs z have "xbzrle_encode_loop old new slen dst dlen d i = Inr (int d, dst)"
      by (auto simp: unf)
    with zp True room show thesis by (intro stop) auto
  next
    case False
    with zp have i1: "i1 < slen" "old ! i1 \<noteq> new ! i1" "i1 - i \<noteq> slen" by auto
    obtain k1 dst1 where e1: "uleb128_encode_small dst d (word_of_nat (i1 - i)) = Inr (k1, dst1)"
      "k1 = 1 \<or> k1 = 2" "length dst1 = length dst" "same_outside d dlen dst dst1"
      by (rule uleb128_encode_small_room [of "i1 - i" d dlen dst]) (use i1 small room dst in auto)
    show thesis
    proof (cases "d + k1 + 2 \<le> dlen")
      case False
      with i room zs z i1 e1 have "xbzrle_encode_loop old new slen dst dlen d i = Inr (-1, dst1)"
        by (simp add: unf)
      then show thesis using e1(4) by (rule full)
    next
      case room1: True
      obtain i2 where n: "nzrun_scan old new slen i1 0 = Inr (i2, i2 - i1)" "i1 \<le> i2" "i2 \<le> slen"
        "i2 < slen \<longrightarrow> old ! i2 = new ! i2"
        using nzrun_scan_props [OF len, of i1 0] i1 by auto
      have lt: "i1 < i2" using nzrun_scan_ge [OF n(1)] i1 by auto
      obtain k2 dst2 where
        e2: "uleb128_encode_small dst1 (d + k1) (word_of_nat (i2 - i1)) = Inr (k2, dst2)"
        "k2 = 1 \<or> k2 = 2" "length dst2 = length dst1" "same_outside (d + k1) dlen dst1 dst2"
        by (rule uleb128_encode_small_room [of "i2 - i1" "d + k1" dlen dst1])
          (use n small room1 dst e1 in auto)
      show thesis
      proof (cases "d + k1 + k2 + (i2 - i1) \<le> dlen")
        case False
        with i room zs z i1 e1 room1 n e2
        have "xbzrle_encode_loop old new slen dst dlen d i = Inr (-1, dst2)"
          by (simp add: unf)
        moreover have "same_outside d dlen dst1 dst2" using e2(4) by (rule same_outside_mono) auto
        then have "same_outside d dlen dst dst2" using e1(4) same_outside_trans by blast
        ultimately show thesis by (rule full)
      next
        case fits: True
        obtain dst3 where w: "buf_write dst2 (d + k1 + k2) (take (i2 - i1) (drop i1 new)) = Inr dst3"
          using fits dst e1(3) e2(3) len n(3) by simp
        have "enc_round old new slen dst dlen d i i1 i2 k1 k2 dst3"
          unfolding enc_round_def using zp i1 lt n fits e1(1) e2(1) w by auto
        moreover from i room zs z i1 e1(1) room1 n e2(1) fits w
        have "xbzrle_encode_loop old new slen dst dlen d i =
            xbzrle_encode_loop old new slen dst3 dlen (d + k1 + k2 + (i2 - i1)) i2"
          by (simp add: unf del: of_nat_diff)
        ultimately show thesis by (rule run)
      qed
    qed
  qed
qed

lemma enc_round_frame:
  assumes "enc_round old new slen dst dlen d i i1 i2 k1 k2 dst3"
  shows "length dst3 = length dst" "same_outside d dlen dst dst3"
proof -
  from assms obtain dst1 dst2 where
    e1: "uleb128_encode_small dst d (word_of_nat (i1 - i)) = Inr (k1, dst1)"
    and e2: "uleb128_encode_small dst1 (d + k1) (word_of_nat (i2 - i1)) = Inr (k2, dst2)"
    and w: "buf_write dst2 (d + k1 + k2) (take (i2 - i1) (drop i1 new)) = Inr dst3"
    and fits: "d + k1 + k2 + (i2 - i1) \<le> dlen"
    by (auto simp: enc_round_def)
  have "same_outside d dlen dst dst1"
    by (rule same_outside_mono [OF uleb128_encode_small_outside [OF e1]]) (use fits in auto)
  also have "same_outside d dlen dst1 dst2"
    by (rule same_outside_mono [OF uleb128_encode_small_outside [OF e2]]) (use fits in auto)
  also have "same_outside d dlen dst2 dst3"
    by (rule same_outside_mono [OF same_outside_write [OF w]]) (use fits in auto)
  finally show "same_outside d dlen dst dst3" .
  then show "length dst3 = length dst" by (simp add: same_outside_def)
qed

lemma encode_loop_safe:
  assumes len: "slen \<le> length old" "slen \<le> length new" and small: "slen \<le> 0x3fff"
  shows "i \<le> slen \<Longrightarrow> d \<le> dlen \<Longrightarrow> dlen \<le> length dst \<Longrightarrow> (i = 0 \<longrightarrow> d = 0) \<Longrightarrow>
    \<exists>r dst'. xbzrle_encode_loop old new slen dst dlen d i = Inr (r, dst') \<and>
      -1 \<le> r \<and> r \<le> int dlen \<and> (0 \<le> r \<longrightarrow> int d \<le> r) \<and> same_outside d dlen dst dst'"
proof (induction "slen - i" arbitrary: i d dst rule: less_induct)
  case less
  show ?case
  proof (cases "i < slen")
    case False
    with less.prems show ?thesis by (simp add: encode_loop_end)
  next
    case True
    show ?thesis
    proof (rule encode_loop_cases [OF len True less.prems(3) small less.prems(4)])
      fix i1 i2 k1 k2 dst3
      assume r: "enc_round old new slen dst dlen d i i1 i2 k1 k2 dst3"
        and eq: "xbzrle_encode_loop old new slen dst dlen d i =
          xbzrle_encode_loop old new slen dst3 dlen (d + k1 + k2 + (i2 - i1)) i2"
      note f = enc_round_frame [OF r]
      let ?d = "d + k1 + k2 + (i2 - i1)"
      have b: "i < i2" "i2 \<le> slen" "?d \<le> dlen" using r by (auto simp: enc_round_def)
      then have "slen - i2 < slen - i" "i2 = 0 \<longrightarrow> ?d = 0" using True by auto
      with less.hyps [OF this(1) b(2) b(3), of dst3] obtain s dst' where "xbzrle_encode_loop old new slen dst3 dlen ?d i2 = Inr (s, dst')"
        "-1 \<le> s" "s \<le> int dlen" "0 \<le> s \<longrightarrow> int ?d \<le> s" "same_outside ?d dlen dst3 dst'"
        using less.prems(3) f(1) by auto
      moreover have "same_outside d dlen dst dst'"
        using same_outside_trans [OF f(2) same_outside_mono [OF \<open>same_outside ?d dlen dst3 dst'\<close>]]
        by auto
      ultimately show ?thesis using eq by auto
    qed (use less.prems in auto)
  qed
qed

text \<open>What the encoder wrote, the decoder turns back into the new page over the old one.\<close>

lemma decode_loop_run:
  assumes "i < slen" "slen - i \<ge> 2" "uleb128_decode_small src i = Inr (int k1, c1)"
    "i = 0 \<or> c1 \<noteq> 0" "d + unat c1 \<le> dlen" "slen - (i + k1) \<ge> 2"
    "uleb128_decode_small src (i + k1) = Inr (int k2, c2)" "c2 \<noteq> 0"
    "d + unat c1 + unat c2 \<le> dlen" "i + k1 + k2 + unat c2 \<le> slen"
    "buf_write dst (d + unat c1) (take (unat c2) (drop (i + k1 + k2) src)) = Inr dst1"
  shows "xbzrle_decode_loop src slen dst dlen i d =
    xbzrle_decode_loop src slen dst1 dlen (i + k1 + k2 + unat c2) (d + unat c1 + unat c2)"
  using assms by (subst xbzrle_decode_loop.simps) (auto simp: Let_def)

lemma decode_loop_end:
  "\<not> i < slen \<Longrightarrow> xbzrle_decode_loop src slen dst dlen i d = Inr (int d, dst)"
  by (subst xbzrle_decode_loop.simps) simp

lemma splice_step:
  assumes "i \<le> i1" "i1 \<le> i2" "i2 \<le> length old" "length new = length old"
    and eq: "all_in (\<lambda>k. old ! k = new ! k) i i1"
  shows "buf_write (take i new @ drop i old) i1 (take (i2 - i1) (drop i1 new)) =
    Inr (take i2 new @ drop i2 old)"
proof -
  have "take i1 (take i new @ drop i old) = take i1 new"
  proof (rule nth_equalityI)
    fix k assume "k < length (take i1 (take i new @ drop i old))"
    then have "k < i1" by simp
    then show "take i1 (take i new @ drop i old) ! k = take i1 new ! k"
      using assms(1-4) all_inD [OF eq, of k] by (auto simp: nth_append)
  qed (use assms in auto)
  moreover have "take i1 new @ take (i2 - i1) (drop i1 new) = take i2 new"
    using assms(2) by (metis le_add_diff_inverse take_add)
  ultimately show ?thesis using assms(1-4) by (simp add: buf_write_def flip: append_assoc)
qed

text \<open>The decoder undoes one round of the encoder.\<close>

lemma decode_round:
  fixes d k1 k2 i1 i2 :: nat
  defines "e \<equiv> d + k1 + k2 + (i2 - i1)"
  assumes len: "slen = length old" "slen = length new" and small: "slen \<le> 0x3fff"
    and rnd: "enc_round old new slen dst dlen d i i1 i2 k1 k2 dst3"
    and room: "dlen \<le> length dst" and more: "i < slen" and match: "d = 0 \<or> i = slen \<or> old ! i = new ! i"
    and safe: "e \<le> r" "same_outside e dlen dst3 dst'" and r': "r \<le> dlen"
  shows "xbzrle_decode_loop dst' r (take i new @ drop i old) slen d i =
    xbzrle_decode_loop dst' r (take i2 new @ drop i2 old) slen e i2"
proof -
  let ?d = "d + k1 + k2 + (i2 - i1)"
  note safe = safe [unfolded e_def] and fr = enc_round_frame [OF rnd]
  from rnd obtain dst1 dst2 where
    e1: "uleb128_encode_small dst d (word_of_nat (i1 - i)) = Inr (k1, dst1)"
    and e2: "uleb128_encode_small dst1 (d + k1) (word_of_nat (i2 - i1)) = Inr (k2, dst2)"
    and w: "buf_write dst2 (d + k1 + k2) (take (i2 - i1) (drop i1 new)) = Inr dst3"
    and b: "i \<le> i1" "i1 < i2" "i2 \<le> slen" "?d \<le> dlen" "i2 < slen \<longrightarrow> old ! i2 = new ! i2"
      "old ! i1 \<noteq> new ! i1" "all_in (\<lambda>k. old ! k = new ! k) i i1"
    by (auto simp: enc_round_def)
  note f1 = uleb128_encode_small_frame [OF e1] and f2 = uleb128_encode_small_frame [OF e2]
  have u: "unat (word_of_nat (i1 - i) :: u32) = i1 - i" "unat (word_of_nat (i2 - i1) :: u32) = i2 - i1"
    using b small by (auto simp del: of_nat_diff intro!: unat_of_nat_3fff)
  have r: "r \<le> length dst'" using safe r' room fr(1) by (simp add: same_outside_def)
  have t3: "take ?d dst' = take ?d dst3" using safe(2) by (simp add: same_outside_def)
  have t2: "take (d + k1 + k2) dst3 = take (d + k1 + k2) dst2"
    using same_outside_write [OF w] by (simp add: same_outside_def)
  have p2: "take (d + k1 + k2) dst' = take (d + k1 + k2) dst2"
    using take_eq_mono [OF t3, of "d + k1 + k2"] t2 by simp
  have d2: "uleb128_decode_small dst' (d + k1) = Inr (int k2, word_of_nat (i2 - i1))"
    by (rule uleb128_roundtrip [OF e2 p2]) (use safe r in simp)
  have "take (d + k1) dst' = take (d + k1) dst1"
    using take_eq_mono [OF p2, of "d + k1"] f2(2) by simp
  then have d1: "uleb128_decode_small dst' d = Inr (int k1, word_of_nat (i1 - i))"
    by (rule uleb128_roundtrip [OF e1]) (use safe r in simp)
  have data: "take (i2 - i1) (drop (d + k1 + k2) dst') = take (i2 - i1) (drop i1 new)"
    using take_drop_eq_of_take_eq [OF t3, of "d + k1 + k2" "i2 - i1"] w b len
    by (auto simp: c_simps)
  have nz: "d = 0 \<or> (word_of_nat (i1 - i) :: u32) \<noteq> 0"
  proof (cases "d = 0")
    case False
    then have "i < i1" using match more b by (metis le_neq_implies_less less_irrefl)
    then have "unat (word_of_nat (i1 - i) :: u32) \<noteq> 0" unfolding u by simp
    then show ?thesis by (metis unat_0)
  qed simp
  have "xbzrle_decode_loop dst' r (take i new @ drop i old) slen d i =
    xbzrle_decode_loop dst' r (take i2 new @ drop i2 old) slen
      (d + k1 + k2 + unat (word_of_nat (i2 - i1) :: u32))
      (i + unat (word_of_nat (i1 - i) :: u32) + unat (word_of_nat (i2 - i1) :: u32))"
  proof (rule decode_loop_run [OF _ _ d1 nz _ _ d2])
    have "unat (word_of_nat (i2 - i1) :: u32) \<noteq> 0" unfolding u using b by simp
    then show "(word_of_nat (i2 - i1) :: u32) \<noteq> 0" by (metis unat_0)
    show "buf_write (take i new @ drop i old) (i + unat (word_of_nat (i1 - i) :: u32))
       (take (unat (word_of_nat (i2 - i1) :: u32)) (drop (d + k1 + k2) dst')) =
       Inr (take i2 new @ drop i2 old)"
      using splice_step [OF b(1) less_imp_le [OF b(2)], of old new] b len
      unfolding u data by simp
  qed (use safe b f1(3) f2(3) in \<open>unfold u, auto\<close>)
  then show ?thesis unfolding u e_def using b by simp
qed

lemma encode_decode_loop:
  assumes len: "slen = length old" "slen = length new" and small: "slen \<le> 0x3fff"
  shows "i \<le> slen \<Longrightarrow> d \<le> dlen \<Longrightarrow> dlen \<le> length dst \<Longrightarrow> (i = 0 \<longrightarrow> d = 0) \<Longrightarrow>
    (d = 0 \<or> i = slen \<or> old ! i = new ! i) \<Longrightarrow>
    xbzrle_encode_loop old new slen dst dlen d i = Inr (int r, dst') \<Longrightarrow>
    \<exists>p. xbzrle_decode_loop dst' r (take i new @ drop i old) slen d i = Inr (int p, new) \<and> p \<le> slen"
proof (induction "slen - i" arbitrary: i d dst rule: less_induct)
  case less
  have len': "slen \<le> length old" "slen \<le> length new" using len by simp_all
  show ?case
  proof (cases "i < slen")
    case False
    with less.prems have "i = slen" "r = d" by (simp_all add: encode_loop_end)
    with len show ?thesis by (simp add: decode_loop_end)
  next
    case True
    show ?thesis
    proof (rule encode_loop_cases [OF len' True less.prems(3) small less.prems(4)])
      assume eq: "xbzrle_encode_loop old new slen dst dlen d i = Inr (int d, dst)"
        and all: "all_in (\<lambda>k. old ! k = new ! k) i slen"
      have "drop i old = drop i new"
      proof (rule nth_equalityI)
        fix k assume "k < length (drop i old)"
        then show "drop i old ! k = drop i new ! k"
          using all_inD [OF all, of "i + k"] len by simp
      qed (use len in simp)
      then show ?thesis using eq less.prems by (intro exI [of _ i]) (simp add: decode_loop_end)
    next
      fix dst'' assume "xbzrle_encode_loop old new slen dst dlen d i = Inr (- 1, dst'')"
      with less.prems show ?thesis by simp
    next
      fix i1 i2 k1 k2 dst3
      assume rnd: "enc_round old new slen dst dlen d i i1 i2 k1 k2 dst3"
        and eq: "xbzrle_encode_loop old new slen dst dlen d i =
          xbzrle_encode_loop old new slen dst3 dlen (d + k1 + k2 + (i2 - i1)) i2"
      let ?d = "d + k1 + k2 + (i2 - i1)"
      note fr = enc_round_frame [OF rnd]
      from rnd have b: "i \<le> i1" "i1 < i2" "i2 \<le> slen" "?d \<le> dlen" "i2 < slen \<longrightarrow> old ! i2 = new ! i2"
        by (auto simp: enc_round_def)
      from encode_loop_safe [OF len' small b(3) b(4), of dst3] less.prems(3,6) fr(1) eq b
      have safe: "?d \<le> r" "same_outside ?d dlen dst3 dst'" and r': "r \<le> dlen" by auto
      have "\<exists>p. xbzrle_decode_loop dst' r (take i2 new @ drop i2 old) slen ?d i2 = Inr (int p, new)
          \<and> p \<le> slen"
      proof (rule less.hyps [OF _ b(3) b(4)])
        show "slen - i2 < slen - i" using b True by simp
        show "?d = 0 \<or> i2 = slen \<or> old ! i2 = new ! i2" using b by auto
      qed (use b less.prems(3,6) fr(1) eq in auto)
      moreover have "xbzrle_decode_loop dst' r (take i new @ drop i old) slen d i =
          xbzrle_decode_loop dst' r (take i2 new @ drop i2 old) slen ?d i2"
        by (rule decode_round [OF len small rnd less.prems(3) True less.prems(5) safe r'])
      ultimately show ?thesis by simp
    qed
  qed
qed

lemma uleb128_decode_small_ok:
  assumes "p + 2 \<le> length inp"
  obtains r n where "uleb128_decode_small inp p = Inr (r, n)"
proof -
  have "\<exists>r n. uleb128_decode_small inp p = Inr (r, n)"
    using assms by (simp add: uleb128_decode_small_def)
  then show thesis using that by blast
qed

lemma decode_loop_safe:
  "slen \<le> length src \<Longrightarrow> dlen \<le> length dst \<Longrightarrow> d \<le> dlen \<Longrightarrow>
   \<exists>r dst'. xbzrle_decode_loop src slen dst dlen i d = Inr (r, dst') \<and>
     -1 \<le> r \<and> r \<le> int dlen \<and> same_outside 0 dlen dst dst'"
proof (induction "slen - i" arbitrary: i d dst rule: less_induct)
  case less
  note unf = xbzrle_decode_loop.simps [of src slen dst dlen i d]
  show ?case
  proof (cases "i < slen \<and> slen - i \<ge> 2")
    case False
    with less.prems show ?thesis by (auto simp: unf)
  next
    case True
    then have "i + 2 \<le> length src" using less.prems by linarith
    then obtain r1 c1 where d1: "uleb128_decode_small src i = Inr (r1, c1)"
      by (rule uleb128_decode_small_ok)
    show ?thesis
    proof (cases "r1 < 0 \<or> (i \<noteq> 0 \<and> c1 = 0) \<or> d + unat c1 > dlen \<or> slen - (i + nat r1) < 2")
      case fail: True
      with True d1 show ?thesis by (auto simp: unf Let_def)
    next
      case ok: False
      then have "i + nat r1 + 2 \<le> length src" using less.prems by linarith
      then obtain r2 c2 where d2: "uleb128_decode_small src (i + nat r1) = Inr (r2, c2)"
        by (rule uleb128_decode_small_ok)
      let ?i = "i + nat r1 + nat r2" and ?d = "d + unat c1" and ?n = "unat c2"
      show ?thesis
      proof (cases "r2 < 0 \<or> c2 = 0 \<or> ?d + ?n > dlen \<or> ?i + ?n > slen")
        case fail: True
        with True ok d1 d2 show ?thesis by (auto simp: unf Let_def)
      next
        case run: False
        then have "?d + length (take ?n (drop ?i src)) \<le> length dst"
          using less.prems by auto
        then obtain dst1 where w: "buf_write dst ?d (take ?n (drop ?i src)) = Inr dst1"
          using buf_write_in by blast
        have so: "same_outside 0 dlen dst dst1"
          by (rule same_outside_mono [OF same_outside_write [OF w]]) (use run less.prems in auto)
        have "slen - (?i + ?n) < slen - i"
          using True run uleb128_decode_small_ret [OF d1] ok by auto
        from less.hyps [OF this less.prems(1), of dst1 "?d + ?n"] run so less.prems(2)
        obtain r dst' where "xbzrle_decode_loop src slen dst1 dlen (?i + ?n) (?d + ?n) = Inr (r, dst')"
          "-1 \<le> r" "r \<le> int dlen" "same_outside 0 dlen dst1 dst'"
          by (auto simp: same_outside_def)
        moreover have "xbzrle_decode_loop src slen dst dlen i d =
            xbzrle_decode_loop src slen dst1 dlen (?i + ?n) (?d + ?n)"
          using True ok d1 d2 run w by (auto simp: unf Let_def)
        ultimately show ?thesis using same_outside_trans [OF so] by auto
      qed
    qed
  qed
qed

section \<open>The codec's properties\<close>

text \<open>C1: decoding what \<open>xbzrle_encode_buffer\<close> produced for the pair of pages over a copy of the
  old page gives exactly the new page, whenever the encoder does not report an overflow.\<close>

theorem xbzrle_roundtrip:
  assumes "length old = slen" "length new = slen" "slen mod 8 = 0" "slen \<le> 0x3fff"
    "dlen \<le> length dst"
    "xbzrle_encode_buffer old new slen dst dlen = Inr (r, dst')" "0 \<le> r"
  shows "\<exists>p. xbzrle_decode_buffer dst' (nat r) old slen = Inr (p, new) \<and> 0 \<le> p \<and> p \<le> int slen"
proof -
  have "xbzrle_encode_loop old new slen dst dlen 0 0 = Inr (int (nat r), dst')"
    using assms by (simp add: xbzrle_encode_buffer_def)
  from encode_decode_loop [OF assms(1,2) [symmetric] assms(4) _ _ assms(5) _ _ this]
  show ?thesis using assms(1,2) by (auto simp: xbzrle_decode_buffer_def)
qed

text \<open>C2: for a page whose runs fit the 14 bit lengths the encoder always returns, reports a length
  between -1 and the size of its output buffer, and never writes outside that buffer.\<close>

theorem xbzrle_encode_safe:
  assumes "slen \<le> length old" "slen \<le> length new" "slen mod 8 = 0" "slen \<le> 0x3fff"
    "dlen \<le> length dst"
  shows "\<exists>r dst'. xbzrle_encode_buffer old new slen dst dlen = Inr (r, dst') \<and>
    -1 \<le> r \<and> r \<le> int dlen \<and> length dst' = length dst \<and> drop dlen dst' = drop dlen dst"
  using encode_loop_safe [OF assms(1,2,4), of 0 0 dlen dst] assms(3,5)
  by (auto simp: xbzrle_encode_buffer_def same_outside_def)

text \<open>C3: on any input, also a malformed one, the decoder returns, reads only the input it was
  given, writes only inside its output buffer and returns a position inside it or -1.\<close>

theorem xbzrle_decode_safe:
  assumes "slen \<le> length src" "dlen \<le> length dst"
  shows "\<exists>r dst'. xbzrle_decode_buffer src slen dst dlen = Inr (r, dst') \<and>
    -1 \<le> r \<and> r \<le> int dlen \<and> length dst' = length dst \<and> drop dlen dst' = drop dlen dst"
  using decode_loop_safe [OF assms, of 0 0] by (auto simp: xbzrle_decode_buffer_def same_outside_def)

lemma ex_encode:
  "xbzrle_encode_buffer [0,0,0,0,0,0,0,0] [0,0,7,7,0,0,0,0] 8 [0,0,0,0,0,0,0,0] 8 =
     Inr (4, [2,2,7,7,0,0,0,0])"
  by code_simp

theorem xbzrle_roundtrip_witness:
  "\<exists>p. xbzrle_decode_buffer [2,2,7,7,0,0,0,0] (nat 4) [0,0,0,0,0,0,0,0] 8 =
     Inr (p, [0,0,7,7,0,0,0,0]) \<and> 0 \<le> p \<and> p \<le> int 8"
  by (rule xbzrle_roundtrip [OF _ _ _ _ _ ex_encode]) simp_all

theorem xbzrle_encode_safe_witness:
  "\<exists>r dst'. xbzrle_encode_buffer [1,2,3,4,5,6,7,8] [1,2,0,0,5,6,7,0] 8 [9,9,9] 2 = Inr (r, dst') \<and>
     -1 \<le> r \<and> r \<le> int 2 \<and> length dst' = length ([9,9,9] :: u8 list) \<and>
     drop 2 dst' = drop 2 [9,9,9]"
  by (rule xbzrle_encode_safe) simp_all

theorem xbzrle_decode_safe_witness:
  "\<exists>r dst'. xbzrle_decode_buffer [0xff,0xff,3,200] 4 [1,2,3,4] 4 = Inr (r, dst') \<and>
     -1 \<le> r \<and> r \<le> int 4 \<and> length dst' = length ([1,2,3,4] :: u8 list) \<and>
     drop 4 dst' = drop 4 [1,2,3,4]"
  by (rule xbzrle_decode_safe) simp_all

end
