(* ===== verification/Host_Utils.thy ===== *)
theory Host_Utils
  imports Prelude "HOL-Library.Signed_Division"
begin

text \<open>
  The integer helpers of \<open>include/qemu/host-utils.h\<close>, \<open>util/host-utils.c\<close>,
  \<open>include/qemu/bitops.h\<close> and \<open>util/cutils.c\<close>: the portable versions of the bit counting
  routines, the 128 bit products and quotients in both configurations (with and without a
  128 bit compiler type), rotates and bit fields.  The lemmas state each routine against the
  bits or the integer value of its arguments.
\<close>

section \<open>Counting bits\<close>

text \<open>
  The binary searches of \<open>clz32\<close> and \<open>ctz32\<close>: one step tests the bits of a mask and, when none
  is set, counts and shifts.
\<close>

definition clz_step :: "u32 \<Rightarrow> nat \<Rightarrow> nat \<times> u32 \<Rightarrow> nat \<times> u32" where
  "clz_step m n s = (case s of (cnt, val) \<Rightarrow>
     if val AND m = 0 then (cnt + n, push_bit n val) else (cnt, val))"

definition clz32 :: "u32 \<Rightarrow> nat" where
  "clz32 val0 =
     (let s = clz_step 0xFFFF0000 16 (0, val0);
          s = clz_step 0xFF000000 8 s;
          s = clz_step 0xF0000000 4 s;
          s = clz_step 0xC0000000 2 s;
          s = clz_step 0x80000000 1 s
      in if snd s AND 0x80000000 = 0 then fst s + 1 else fst s)"

definition clo32 :: "u32 \<Rightarrow> nat" where
  "clo32 val = clz32 (NOT val)"

definition clz64 :: "u64 \<Rightarrow> nat" where
  "clz64 val =
     (if drop_bit 32 val = 0 then 32 + clz32 (ucast val) else clz32 (ucast (drop_bit 32 val)))"

definition clo64 :: "u64 \<Rightarrow> nat" where
  "clo64 val = clz64 (NOT val)"

definition ctz_step :: "u32 \<Rightarrow> nat \<Rightarrow> nat \<times> u32 \<Rightarrow> nat \<times> u32" where
  "ctz_step m n s = (case s of (cnt, val) \<Rightarrow>
     if val AND m = 0 then (cnt + n, drop_bit n val) else (cnt, val))"

definition ctz32 :: "u32 \<Rightarrow> nat" where
  "ctz32 val0 =
     (let s = ctz_step 0x0000FFFF 16 (0, val0);
          s = ctz_step 0x000000FF 8 s;
          s = ctz_step 0x0000000F 4 s;
          s = ctz_step 0x00000003 2 s;
          s = ctz_step 0x00000001 1 s
      in if snd s AND 0x00000001 = 0 then fst s + 1 else fst s)"

definition cto32 :: "u32 \<Rightarrow> nat" where
  "cto32 val = ctz32 (NOT val)"

definition ctz64 :: "u64 \<Rightarrow> nat" where
  "ctz64 val =
     (if (ucast val :: u32) = 0 then 32 + ctz32 (ucast (drop_bit 32 val)) else ctz32 (ucast val))"

definition cto64 :: "u64 \<Rightarrow> nat" where
  "cto64 val = ctz64 (NOT val)"

definition clrsb32 :: "u32 \<Rightarrow> int" where
  "clrsb32 val = int (clz32 (val XOR signed_drop_bit 1 val)) - 1"

definition clrsb64 :: "u64 \<Rightarrow> int" where
  "clrsb64 val = int (clz64 (val XOR signed_drop_bit 1 val)) - 1"

definition ctpop8 :: "u8 \<Rightarrow> nat" where
  "ctpop8 val =
     (let val = (val AND 0x55) + (drop_bit 1 val AND 0x55);
          val = (val AND 0x33) + (drop_bit 2 val AND 0x33);
          val = (val AND 0x0f) + (drop_bit 4 val AND 0x0f)
      in unat val)"

definition ctpop16 :: "u16 \<Rightarrow> nat" where
  "ctpop16 val =
     (let val = (val AND 0x5555) + (drop_bit 1 val AND 0x5555);
          val = (val AND 0x3333) + (drop_bit 2 val AND 0x3333);
          val = (val AND 0x0f0f) + (drop_bit 4 val AND 0x0f0f);
          val = (val AND 0x00ff) + (drop_bit 8 val AND 0x00ff)
      in unat val)"

definition ctpop32 :: "u32 \<Rightarrow> nat" where
  "ctpop32 val =
     (let val = (val AND 0x55555555) + (drop_bit 1 val AND 0x55555555);
          val = (val AND 0x33333333) + (drop_bit 2 val AND 0x33333333);
          val = (val AND 0x0f0f0f0f) + (drop_bit 4 val AND 0x0f0f0f0f);
          val = (val AND 0x00ff00ff) + (drop_bit 8 val AND 0x00ff00ff);
          val = (val AND 0x0000ffff) + (drop_bit 16 val AND 0x0000ffff)
      in unat val)"

definition ctpop64 :: "u64 \<Rightarrow> nat" where
  "ctpop64 val =
     (let val = (val AND 0x5555555555555555) + (drop_bit 1 val AND 0x5555555555555555);
          val = (val AND 0x3333333333333333) + (drop_bit 2 val AND 0x3333333333333333);
          val = (val AND 0x0f0f0f0f0f0f0f0f) + (drop_bit 4 val AND 0x0f0f0f0f0f0f0f0f);
          val = (val AND 0x00ff00ff00ff00ff) + (drop_bit 8 val AND 0x00ff00ff00ff00ff);
          val = (val AND 0x0000ffff0000ffff) + (drop_bit 16 val AND 0x0000ffff0000ffff);
          val = (val AND 0x00000000ffffffff) + (drop_bit 32 val AND 0x00000000ffffffff)
      in unat val)"

function hweight_loop :: "nat \<Rightarrow> u64 \<Rightarrow> nat" where
  "hweight_loop count w =
     (if w = 0 then count else hweight_loop (count + unat (w AND 1)) (drop_bit 1 w))"
  by pat_completeness auto

termination hweight_loop
proof (relation "measure (\<lambda>(count, w). unat w)", simp, clarsimp)
  fix w :: u64
  assume "w \<noteq> 0"
  then have "unat w > 0"
    by (simp add: unat_gt_0)
  then show "unat (drop_bit (Suc 0) w) < unat w"
    by (simp add: drop_bit_Suc unat_div)
qed

declare hweight_loop.simps [simp del]

definition hweight_long :: "u64 \<Rightarrow> nat" where
  "hweight_long w = hweight_loop 0 w"

definition is_power_of_2 :: "u64 \<Rightarrow> bool" where
  "is_power_of_2 value = (if value = 0 then False else value AND (value - 1) = 0)"

definition pow2floor :: "u64 \<Rightarrow> c_error + u64" where
  "pow2floor value =
     (if \<not> is_power_of_2 value then c_shr 0x8000000000000000 (clz64 value) else Inr value)"

section \<open>Long products and quotients\<close>

text \<open>Without a 128 bit type: school multiplication on 32 bit halves.  The result is (low, high).\<close>

definition lo32 :: "u64 \<Rightarrow> u64" where
  "lo32 x = ucast (ucast x :: u32)"

definition hi32 :: "u64 \<Rightarrow> u64" where
  "hi32 x = drop_bit 32 x"

definition mul64 :: "u64 \<Rightarrow> u64 \<Rightarrow> u64 \<times> u64" where
  "mul64 a b =
     (let rl = lo32 a * lo32 b;
          rm = lo32 a * hi32 b;
          rn = hi32 a * lo32 b;
          rh = hi32 a * hi32 b;
          c = hi32 rl + lo32 rm + lo32 rn;
          rl = push_bit 32 (lo32 c) OR lo32 rl;
          c = drop_bit 32 c;
          c = c + hi32 rm + hi32 rn + lo32 rh;
          rh = push_bit 32 (lo32 (hi32 rh + hi32 c)) OR lo32 c
      in (rl, rh))"

definition mulu64 :: "u64 \<Rightarrow> u64 \<Rightarrow> u64 \<times> u64" where
  "mulu64 a b = mul64 a b"

definition muls64 :: "u64 \<Rightarrow> u64 \<Rightarrow> u64 \<times> u64" where
  "muls64 a b =
     (let (pl, rh) = mul64 a b;
          rh = (if b <s 0 then rh - a else rh);
          rh = (if a <s 0 then rh - b else rh)
      in (pl, rh))"

text \<open>
  \<open>divu128\<close> and \<open>divs128\<close> return the overflow flag with the new \<open>*plow\<close> and \<open>*phigh\<close>.
\<close>

primrec divu128_loop :: "nat \<Rightarrow> u64 \<Rightarrow> u64 \<Rightarrow> u64 \<Rightarrow> u64 \<times> u64" where
  "divu128_loop 0 dlo dhi divisor = (dlo, dhi)"
| "divu128_loop (Suc i) dlo dhi divisor =
     (let carry = drop_bit 63 dhi;
          dhi = push_bit 1 dhi OR drop_bit 63 dlo
      in if carry \<noteq> 0 \<or> dhi \<ge> divisor
         then divu128_loop i (push_bit 1 dlo OR 1) (dhi - divisor) divisor
         else divu128_loop i (push_bit 1 dlo OR 0) dhi divisor)"

definition divu128 :: "u64 \<Rightarrow> u64 \<Rightarrow> u64 \<Rightarrow> bool \<times> u64 \<times> u64" where
  "divu128 plow phigh divisor =
     (if divisor = 0 then (True, plow, phigh)
      else if phigh = 0 then (False, plow div divisor, plow mod divisor)
      else if phigh > divisor then (True, plow, phigh)
      else (False, divu128_loop 64 plow phigh divisor))"

definition divs128 :: "u64 \<Rightarrow> u64 \<Rightarrow> u64 \<Rightarrow> bool \<times> u64 \<times> u64" where
  "divs128 plow phigh divisor =
     (let sgn_dvdnd = phigh <s 0;
          sgn_divsr = divisor <s 0;
          (plow, phigh) =
            (if sgn_dvdnd
             then let plow = NOT plow; phigh = NOT phigh
                  in if plow = - 1 then (0, phigh + 1) else (plow + 1, phigh)
             else (plow, phigh));
          divisor = (if sgn_divsr then 0 - divisor else divisor);
          (overflow, plow, phigh) = divu128 plow phigh divisor;
          plow = (if sgn_dvdnd \<noteq> sgn_divsr then 0 - plow else plow);
          overflow = (if \<not> overflow
                      then (if (plow <s 0) \<noteq> (sgn_dvdnd \<noteq> sgn_divsr) then True else overflow)
                      else overflow)
      in (overflow, plow, phigh))"

text \<open>The versions for compilers with \<open>__int128_t\<close>.\<close>

definition mulu64_int128 :: "u64 \<Rightarrow> u64 \<Rightarrow> u64 \<times> u64" where
  "mulu64_int128 a b =
     (let r = (ucast a :: 128 word) * ucast b in (ucast r, ucast (drop_bit 64 r)))"

definition muls64_int128 :: "u64 \<Rightarrow> u64 \<Rightarrow> u64 \<times> u64" where
  "muls64_int128 a b =
     (let r = (scast a :: 128 word) * scast b in (ucast r, ucast (signed_drop_bit 64 r)))"

definition divu128_int128 :: "u64 \<Rightarrow> u64 \<Rightarrow> u64 \<Rightarrow> bool \<times> u64 \<times> u64" where
  "divu128_int128 plow phigh divisor =
     (if divisor = 0 then (True, plow, phigh)
      else let dividend = push_bit 64 (ucast phigh :: 128 word) OR ucast plow;
               result = dividend div ucast divisor
           in (result > 0xFFFFFFFFFFFFFFFF, ucast result, ucast (dividend mod ucast divisor)))"

definition divs128_int128 :: "u64 \<Rightarrow> u64 \<Rightarrow> u64 \<Rightarrow> bool \<times> u64 \<times> u64" where
  "divs128_int128 plow phigh divisor =
     (if divisor = 0 then (True, plow, phigh)
      else let dividend = push_bit 64 (scast phigh :: 128 word) OR scast plow;
               result = (word_of_int (sint dividend sdiv sint divisor) :: 128 word);
               plow = ucast result
           in (result \<noteq> scast plow, plow,
               word_of_int (sint dividend smod sint divisor)))"

section \<open>Rotates and bit fields\<close>

definition rol8 :: "u8 \<Rightarrow> nat \<Rightarrow> c_error + u8" where
  "rol8 word shift =
     sbind (c_shl (ucast word :: u32) shift) (\<lambda>l.
     sbind (c_shr (ucast word :: u32) (unat (8 - of_nat shift :: u32))) (\<lambda>r.
       Inr (ucast (l OR r))))"

definition ror8 :: "u8 \<Rightarrow> nat \<Rightarrow> c_error + u8" where
  "ror8 word shift =
     sbind (c_shr (ucast word :: u32) shift) (\<lambda>r.
     sbind (c_shl (ucast word :: u32) (unat (8 - of_nat shift :: u32))) (\<lambda>l.
       Inr (ucast (r OR l))))"

definition rol16 :: "u16 \<Rightarrow> nat \<Rightarrow> c_error + u16" where
  "rol16 word shift =
     sbind (c_shl (ucast word :: u32) shift) (\<lambda>l.
     sbind (c_shr (ucast word :: u32) (unat (16 - of_nat shift :: u32))) (\<lambda>r.
       Inr (ucast (l OR r))))"

definition ror16 :: "u16 \<Rightarrow> nat \<Rightarrow> c_error + u16" where
  "ror16 word shift =
     sbind (c_shr (ucast word :: u32) shift) (\<lambda>r.
     sbind (c_shl (ucast word :: u32) (unat (16 - of_nat shift :: u32))) (\<lambda>l.
       Inr (ucast (r OR l))))"

definition rol32 :: "u32 \<Rightarrow> nat \<Rightarrow> c_error + u32" where
  "rol32 word shift =
     sbind (c_shl word shift) (\<lambda>l.
     sbind (c_shr word (unat (32 - of_nat shift :: u32))) (\<lambda>r. Inr (l OR r)))"

definition ror32 :: "u32 \<Rightarrow> nat \<Rightarrow> c_error + u32" where
  "ror32 word shift =
     sbind (c_shr word shift) (\<lambda>r.
     sbind (c_shl word (unat (32 - of_nat shift :: u32))) (\<lambda>l. Inr (r OR l)))"

definition rol64 :: "u64 \<Rightarrow> nat \<Rightarrow> c_error + u64" where
  "rol64 word shift =
     sbind (c_shl word shift) (\<lambda>l.
     sbind (c_shr word (unat (64 - of_nat shift :: u32))) (\<lambda>r. Inr (l OR r)))"

definition ror64 :: "u64 \<Rightarrow> nat \<Rightarrow> c_error + u64" where
  "ror64 word shift =
     sbind (c_shr word shift) (\<lambda>r.
     sbind (c_shl word (unat (64 - of_nat shift :: u32))) (\<lambda>l. Inr (r OR l)))"

definition extract32 :: "u32 \<Rightarrow> int \<Rightarrow> int \<Rightarrow> c_error + u32" where
  "extract32 v start len =
     sbind (c_assert (start \<ge> 0 \<and> len > 0 \<and> len \<le> 32 - start)) (\<lambda>_.
       Inr (drop_bit (nat start) v AND drop_bit (nat (32 - len)) (NOT 0)))"

definition extract64 :: "u64 \<Rightarrow> int \<Rightarrow> int \<Rightarrow> c_error + u64" where
  "extract64 v start len =
     sbind (c_assert (start \<ge> 0 \<and> len > 0 \<and> len \<le> 64 - start)) (\<lambda>_.
       Inr (drop_bit (nat start) v AND drop_bit (nat (64 - len)) (NOT 0)))"

definition sextract32 :: "u32 \<Rightarrow> int \<Rightarrow> int \<Rightarrow> c_error + u32" where
  "sextract32 v start len =
     sbind (c_assert (start \<ge> 0 \<and> len > 0 \<and> len \<le> 32 - start)) (\<lambda>_.
       Inr (signed_drop_bit (nat (32 - len)) (push_bit (nat (32 - len - start)) v)))"

definition sextract64 :: "u64 \<Rightarrow> int \<Rightarrow> int \<Rightarrow> c_error + u64" where
  "sextract64 v start len =
     sbind (c_assert (start \<ge> 0 \<and> len > 0 \<and> len \<le> 64 - start)) (\<lambda>_.
       Inr (signed_drop_bit (nat (64 - len)) (push_bit (nat (64 - len - start)) v)))"

definition deposit32 :: "u32 \<Rightarrow> int \<Rightarrow> int \<Rightarrow> u32 \<Rightarrow> c_error + u32" where
  "deposit32 v start len fieldval =
     sbind (c_assert (start \<ge> 0 \<and> len > 0 \<and> len \<le> 32 - start)) (\<lambda>_.
       let mask = push_bit (nat start) (drop_bit (nat (32 - len)) (NOT 0))
       in Inr ((v AND NOT mask) OR (push_bit (nat start) fieldval AND mask)))"

definition deposit64 :: "u64 \<Rightarrow> int \<Rightarrow> int \<Rightarrow> u64 \<Rightarrow> c_error + u64" where
  "deposit64 v start len fieldval =
     sbind (c_assert (start \<ge> 0 \<and> len > 0 \<and> len \<le> 64 - start)) (\<lambda>_.
       let mask = push_bit (nat start) (drop_bit (nat (64 - len)) (NOT 0))
       in Inr ((v AND NOT mask) OR (push_bit (nat start) fieldval AND mask)))"

definition bitrev8 :: "u8 \<Rightarrow> u8" where
  "bitrev8 v =
     (let v = drop_bit 4 (v AND 0xF0) OR push_bit 4 (v AND 0x0F);
          v = drop_bit 2 (v AND 0xCC) OR push_bit 2 (v AND 0x33)
      in drop_bit 1 (v AND 0xAA) OR push_bit 1 (v AND 0x55))"

definition bitrev16 :: "u16 \<Rightarrow> u16" where
  "bitrev16 v = push_bit 8 (ucast (bitrev8 (ucast (v AND 0xff)))) OR ucast (bitrev8 (ucast (drop_bit 8 v)))"

definition bitrev32 :: "u32 \<Rightarrow> u32" where
  "bitrev32 v =
     push_bit 16 (ucast (bitrev16 (ucast (v AND 0xffff)))) OR ucast (bitrev16 (ucast (drop_bit 16 v)))"

definition bitrev64 :: "u64 \<Rightarrow> u64" where
  "bitrev64 v =
     push_bit 32 (ucast (bitrev32 (ucast (v AND 0xffffffff)))) OR ucast (bitrev32 (ucast (drop_bit 32 v)))"

text \<open>\<open>muldiv64\<close>: \<open>a * b / c\<close> with a 96 bit intermediate.\<close>

definition muldiv64 :: "u64 \<Rightarrow> u32 \<Rightarrow> u32 \<Rightarrow> c_error + u64" where
  "muldiv64 a b c =
     (let rl = lo32 a * ucast b;
          rh = hi32 a * ucast b;
          rh = rh + drop_bit 32 rl
      in if c = 0 then Inl Div_by_zero
         else let high = (ucast (rh div ucast c) :: u32);
                  low = (ucast ((push_bit 32 (rh mod ucast c) + (rl AND 0xffffffff)) div ucast c) :: u32)
              in Inr (push_bit 32 (ucast high) OR ucast low))"

section \<open>Leading and trailing zeros\<close>

lemma and_top_mask_eq_0_iff:
  fixes x :: u32
  assumes "k \<le> 32"
  shows "x AND push_bit (32 - k) (mask k) = 0 \<longleftrightarrow> all_in (\<lambda>i. \<not> bit x i) (32 - k) 32"
  using assms by (auto simp: word_eq_bits bit_simps all_in_def)

lemma and_low_mask_eq_0_iff:
  fixes x :: u32
  assumes "k \<le> 32"
  shows "x AND mask k = 0 \<longleftrightarrow> all_in (\<lambda>i. \<not> bit x i) 0 k"
  using assms bit_imp_le_length [of x] by (fastforce simp: word_eq_bits bit_simps all_in_def)

text \<open>
  The invariant of the binary search for the leading one: the value is the argument shifted by
  the count, the bits counted so far are zero, and a non-zero argument has its leading one among
  the top \<open>k\<close> bits of the value.
\<close>

definition clz_inv :: "u32 \<Rightarrow> nat \<Rightarrow> nat \<Rightarrow> nat \<times> u32 \<Rightarrow> bool" where
  "clz_inv v b k s \<longleftrightarrow> (case s of (cnt, val) \<Rightarrow>
     cnt \<le> b \<and> val = push_bit cnt v \<and> all_in (\<lambda>i. \<not> bit v i) (32 - cnt) 32 \<and>
     (v \<noteq> 0 \<longrightarrow> \<not> all_in (\<lambda>i. \<not> bit val i) (32 - k) 32) \<and> (v = 0 \<longrightarrow> cnt = b))"

lemma clz_inv_init: "clz_inv v 0 32 (0, v)"
  by (auto simp: clz_inv_def all_in_def word_eq_bits)

lemma clz_inv_step:
  assumes inv: "clz_inv v b (2 * k) s" and b: "b + 2 * k = 32" and m: "m = push_bit (32 - k) (mask k)"
  shows "clz_inv v (b + k) k (clz_step m k s)"
proof (cases s)
  case (Pair cnt val)
  have k: "k \<le> 32" using b by simp
  note I = inv [unfolded clz_inv_def Pair prod.case]
  show ?thesis
  proof (cases "all_in (\<lambda>i. \<not> bit val i) (32 - k) 32")
    case True
    have Z: "all_in (\<lambda>i. \<not> bit v i) (32 - (cnt + k)) 32"
    proof (rule all_inI)
      fix i assume i: "32 - (cnt + k) \<le> i" "i < 32"
      show "\<not> bit v i"
      proof (cases "32 - cnt \<le> i")
        case True then show ?thesis using I i by (auto simp: all_in_def)
      next
        case False
        then have "\<not> bit val (i + cnt)" using all_inD [OF True, of "i + cnt"] i False by linarith
        then show ?thesis using I False by (auto simp: bit_simps)
      qed
    qed
    have N: "\<not> all_in (\<lambda>i. \<not> bit (push_bit k val) i) (32 - k) 32" if nz: "v \<noteq> 0"
    proof -
      obtain i where i: "32 - 2 * k \<le> i" "i < 32" "bit val i"
        using I nz by (auto simp: all_in_def)
      then have "i < 32 - k" using all_inD [OF True, of i] by linarith
      then have "bit (push_bit k val) (i + k)" "32 - k \<le> i + k" "i + k < 32"
        using i by (auto simp: bit_simps)
      then show ?thesis by (auto simp: all_in_def)
    qed
    show ?thesis
      using I Z N True k unfolding Pair
      by (simp add: clz_step_def clz_inv_def m and_top_mask_eq_0_iff push_bit_push_bit add.commute)
  next
    case False
    moreover have "v \<noteq> 0"
    proof
      assume "v = 0"
      then have "val = 0" using I by simp
      then show False using False by (simp add: all_in_def)
    qed
    ultimately show ?thesis
      using I k unfolding Pair
      by (auto simp: clz_step_def clz_inv_def m and_top_mask_eq_0_iff)
  qed
qed

lemma clz32_inv:
  "\<exists>s. clz_inv v 31 1 s \<and> clz32 v = (if snd s AND 0x80000000 = 0 then fst s + 1 else fst s)"
proof -
  note st = clz_inv_step
  have 1: "clz_inv v 16 16 (clz_step 0xFFFF0000 16 (0, v))"
    using st [of v 0 16 "(0, v)" "0xFFFF0000"] clz_inv_init [of v] by (simp add: mask_eq_exp_minus_1 push_bit_eq_mult)
  have 2: "clz_inv v 24 8 (clz_step 0xFF000000 8 (clz_step 0xFFFF0000 16 (0, v)))" (is "clz_inv _ _ _ ?s2")
    using st [of v 16 8 _ "0xFF000000"] 1 by (simp add: mask_eq_exp_minus_1 push_bit_eq_mult)
  have 3: "clz_inv v 28 4 (clz_step 0xF0000000 4 ?s2)" (is "clz_inv _ _ _ ?s3")
    using st [of v 24 4 _ "0xF0000000"] 2 by (simp add: mask_eq_exp_minus_1 push_bit_eq_mult)
  have 4: "clz_inv v 30 2 (clz_step 0xC0000000 2 ?s3)" (is "clz_inv _ _ _ ?s4")
    using st [of v 28 2 _ "0xC0000000"] 3 by (simp add: mask_eq_exp_minus_1 push_bit_eq_mult)
  have 5: "clz_inv v 31 1 (clz_step 0x80000000 1 ?s4)"
    using st [of v 30 1 _ "0x80000000"] 4 by (simp add: mask_eq_exp_minus_1 push_bit_eq_mult)
  show ?thesis
    by (rule exI [of _ "clz_step 0x80000000 1 ?s4"]) (use 5 in \<open>simp add: clz32_def Let_def\<close>)
qed

definition clz_spec :: "'a::len word \<Rightarrow> nat \<Rightarrow> bool" where
  "clz_spec v n \<longleftrightarrow>
     n \<le> LENGTH('a) \<and> all_in (\<lambda>i. \<not> bit v i) (LENGTH('a) - n) LENGTH('a) \<and>
     (n < LENGTH('a) \<longrightarrow> bit v (LENGTH('a) - Suc n))"

lemma clz32_spec: "clz_spec v (clz32 v)"
proof -
  obtain cnt val where I: "clz_inv v 31 1 (cnt, val)"
    and c: "clz32 v = (if val AND 0x80000000 = 0 then cnt + 1 else cnt)"
    using clz32_inv [of v] by auto
  have top: "val AND 0x80000000 = 0 \<longleftrightarrow> \<not> bit val 31"
    using and_exp_eq_0_iff_not_bit [of val 31] by simp
  show ?thesis
  proof (cases "v = 0")
    case True
    then show ?thesis using I c by (simp add: clz_inv_def clz_spec_def all_in_def)
  next
    case False
    then obtain i where "31 \<le> i" "i < 32" "bit val i"
      using I by (auto simp: clz_inv_def all_in_def)
    then have "bit val 31"
      by (cases "i = 31") auto
    then show ?thesis using I c top by (auto simp: clz_inv_def clz_spec_def bit_simps)
  qed
qed

text \<open>The search for the trailing one, from the other end.\<close>

definition ctz_inv :: "u32 \<Rightarrow> nat \<Rightarrow> nat \<Rightarrow> nat \<times> u32 \<Rightarrow> bool" where
  "ctz_inv v b k s \<longleftrightarrow> (case s of (cnt, val) \<Rightarrow>
     cnt \<le> b \<and> val = drop_bit cnt v \<and> all_in (\<lambda>i. \<not> bit v i) 0 cnt \<and>
     (v \<noteq> 0 \<longrightarrow> \<not> all_in (\<lambda>i. \<not> bit val i) 0 k) \<and> (v = 0 \<longrightarrow> cnt = b))"

lemma ctz_inv_init: "ctz_inv v 0 32 (0, v)"
  by (auto simp: ctz_inv_def all_in_def word_eq_bits)

lemma ctz_inv_step:
  assumes inv: "ctz_inv v b (2 * k) s" and b: "b + 2 * k = 32" and m: "m = mask k"
  shows "ctz_inv v (b + k) k (ctz_step m k s)"
proof (cases s)
  case (Pair cnt val)
  have k: "k \<le> 32" using b by simp
  note I = inv [unfolded ctz_inv_def Pair prod.case]
  show ?thesis
  proof (cases "all_in (\<lambda>i. \<not> bit val i) 0 k")
    case True
    have Z: "all_in (\<lambda>i. \<not> bit v i) 0 (cnt + k)"
    proof (rule all_inI)
      fix i assume i: "0 \<le> i" "i < cnt + k"
      show "\<not> bit v i"
        using I i all_inD [OF True, of "i - cnt"] by (cases "i < cnt") (auto simp: all_in_def bit_simps)
    qed
    have N: "\<not> all_in (\<lambda>i. \<not> bit (drop_bit k val) i) 0 k" if nz: "v \<noteq> 0"
    proof -
      obtain i where i: "i < 2 * k" "bit val i"
        using I nz by (auto simp: all_in_def)
      then have "k \<le> i" using all_inD [OF True, of i] by linarith
      then show ?thesis using i unfolding all_in_def
        by (intro notI) (drule spec [of _ "i - k"], simp add: bit_simps)
    qed
    show ?thesis
      using I Z N True k unfolding Pair
      by (simp add: ctz_step_def ctz_inv_def m and_low_mask_eq_0_iff drop_bit_drop_bit add.commute)
  next
    case False
    moreover have "v \<noteq> 0"
      using False I by (auto simp: all_in_def)
    ultimately show ?thesis
      using I k unfolding Pair
      by (auto simp: ctz_step_def ctz_inv_def m and_low_mask_eq_0_iff)
  qed
qed

lemma ctz32_inv:
  "\<exists>s. ctz_inv v 31 1 s \<and> ctz32 v = (if snd s AND 1 = 0 then fst s + 1 else fst s)"
proof -
  note st = ctz_inv_step
  have 1: "ctz_inv v 16 16 (ctz_step 0xFFFF 16 (0, v))"
    using st [of v 0 16 "(0, v)" "0xFFFF"] ctz_inv_init [of v] by (simp add: mask_eq_exp_minus_1)
  have 2: "ctz_inv v 24 8 (ctz_step 0xFF 8 (ctz_step 0xFFFF 16 (0, v)))" (is "ctz_inv _ _ _ ?s2")
    using st [of v 16 8 _ "0xFF"] 1 by (simp add: mask_eq_exp_minus_1)
  have 3: "ctz_inv v 28 4 (ctz_step 0xF 4 ?s2)" (is "ctz_inv _ _ _ ?s3")
    using st [of v 24 4 _ "0xF"] 2 by (simp add: mask_eq_exp_minus_1)
  have 4: "ctz_inv v 30 2 (ctz_step 3 2 ?s3)" (is "ctz_inv _ _ _ ?s4")
    using st [of v 28 2 _ 3] 3 by (simp add: mask_eq_exp_minus_1)
  have 5: "ctz_inv v 31 1 (ctz_step 1 1 ?s4)"
    using st [of v 30 1 _ 1] 4 by (simp add: mask_eq_exp_minus_1)
  show ?thesis
    by (rule exI [of _ "ctz_step 1 1 ?s4"]) (use 5 in \<open>simp add: ctz32_def Let_def\<close>)
qed

definition ctz_spec :: "'a::len word \<Rightarrow> nat \<Rightarrow> bool" where
  "ctz_spec v n \<longleftrightarrow>
     n \<le> LENGTH('a) \<and> all_in (\<lambda>i. \<not> bit v i) 0 n \<and> (n < LENGTH('a) \<longrightarrow> bit v n)"

lemma ctz32_spec: "ctz_spec v (ctz32 v)"
proof -
  obtain cnt val where I: "ctz_inv v 31 1 (cnt, val)"
    and c: "ctz32 v = (if val AND 1 = 0 then cnt + 1 else cnt)"
    using ctz32_inv [of v] by auto
  have low: "val AND 1 = 0 \<longleftrightarrow> \<not> bit val 0"
    using and_exp_eq_0_iff_not_bit [of val 0] by simp
  show ?thesis
  proof (cases "v = 0")
    case True
    then show ?thesis using I c by (simp add: ctz_inv_def ctz_spec_def all_in_def)
  next
    case False
    then have "bit val 0"
      using I by (auto simp: ctz_inv_def all_in_def)
    then show ?thesis using I c low by (auto simp: ctz_inv_def ctz_spec_def bit_simps)
  qed
qed

lemma clz_spec_unique: "clz_spec v n \<Longrightarrow> clz_spec v m \<Longrightarrow> n = m"
  for v :: "'a::len word"
proof (induction n m rule: linorder_wlog)
  case (le n m)
  then show ?case
    by (cases "n = m") (auto simp: clz_spec_def all_in_def)
qed simp

lemma ctz_spec_unique: "ctz_spec v n \<Longrightarrow> ctz_spec v m \<Longrightarrow> n = m"
  for v :: "'a::len word"
proof (induction n m rule: linorder_wlog)
  case (le n m)
  then show ?case
    by (cases "n = m") (auto simp: ctz_spec_def all_in_def)
qed simp

lemma clz64_spec: "clz_spec v (clz64 v)"
proof (cases "drop_bit 32 v = 0")
  case True
  have hi: "\<not> bit v i" if "32 \<le> i" for i
    using arg_cong [OF True, of "\<lambda>w. bit w (i - 32)"] that by (simp add: bit_simps)
  from clz32_spec [of "ucast v"] show ?thesis
    by (auto simp: clz64_def True clz_spec_def all_in_def bit_simps hi not_less)
      (metis hi linorder_not_less)+
next
  case False
  have "clz32 (ucast (drop_bit 32 v)) < 32"
  proof (rule ccontr)
    assume "\<not> clz32 (ucast (drop_bit 32 v)) < 32"
    then have Z: "\<forall>k<32. \<not> bit v (32 + k)"
      using clz32_spec [of "ucast (drop_bit 32 v)"]
      by (auto simp: clz_spec_def all_in_def bit_simps)
    have "drop_bit 32 v = 0"
    proof (rule bit_word_eqI)
      fix n assume "n < LENGTH(64)"
      then show "bit (drop_bit 32 v) n = bit (0 :: u64) n"
        using Z bit_imp_le_length [of v "32 + n"] by (cases "n < 32") (auto simp: bit_simps)
    qed
    then show False using False by simp
  qed
  moreover note clz32_spec [of "ucast (drop_bit 32 v)"]
  ultimately show ?thesis
    using False
    by (auto simp: clz64_def clz_spec_def all_in_def bit_simps) (drule_tac x = "k - 32" in spec, force)
qed

lemma ctz64_spec: "ctz_spec v (ctz64 v)"
proof (cases "(ucast v :: u32) = 0")
  case True
  have lo: "\<not> bit v i" if "i < 32" for i
    using arg_cong [OF True, of "\<lambda>w. bit w i"] that by (simp add: bit_simps)
  have Z: "\<not> bit v i" if "i < 32 + ctz32 (ucast (drop_bit 32 v))" for i
    using ctz32_spec [of "ucast (drop_bit 32 v)"] that lo [of i]
    by (cases "i < 32") (auto simp: ctz_spec_def all_in_def bit_simps dest!: spec [of _ "i - 32"])
  show ?thesis
    using ctz32_spec [of "ucast (drop_bit 32 v)"] Z
    by (auto simp: ctz64_def True ctz_spec_def all_in_def bit_simps)
next
  case False
  have "ctz32 (ucast v) < 32"
  proof (rule ccontr)
    assume "\<not> ctz32 (ucast v) < 32"
    then have "(ucast v :: u32) = 0"
      using ctz32_spec [of "ucast v"] by (auto simp: ctz_spec_def all_in_def word_eq_bits bit_simps)
    then show False using False by simp
  qed
  then show ?thesis
    using False ctz32_spec [of "ucast v"]
    by (auto simp: ctz64_def ctz_spec_def all_in_def bit_simps)
qed

lemma ctz64_lowest: "v \<noteq> 0 \<Longrightarrow> ctz64 v < 64 \<and> bit v (ctz64 v) \<and> (\<forall>i < ctz64 v. \<not> bit v i)"
  using ctz64_spec [of v] by (cases "ctz64 v < 64") (auto simp: ctz_spec_def all_in_def word_eq_bits)

lemma clz64_highest:
  "v \<noteq> 0 \<Longrightarrow> clz64 v < 64 \<and> bit v (63 - clz64 v) \<and> (\<forall>i > 63 - clz64 v. \<not> bit v i)"
proof -
  assume "v \<noteq> 0"
  then have lt: "clz64 v < 64"
    using clz64_spec [of v] by (rule_tac ccontr) (auto simp: clz_spec_def all_in_def word_eq_bits)
  have "\<not> bit v i" if "i > 63 - clz64 v" for i
    using clz64_spec [of v] that bit_imp_le_length [of v i] lt
    by (cases "i < 64") (auto simp: clz_spec_def all_in_def)
  then show ?thesis using lt clz64_spec [of v] by (auto simp: clz_spec_def)
qed

lemma clz64_zero: "clz64 0 = 64"
  by (simp add: clz64_def) (simp add: clz32_def clz_step_def Let_def)

lemma ctz64_zero: "ctz64 0 = 64"
  by (simp add: ctz64_def) (simp add: ctz32_def ctz_step_def Let_def)

text \<open>Powers of two.\<close>

lemma drop_bit_exp_word: "k \<le> n \<Longrightarrow> n < LENGTH('a) \<Longrightarrow> drop_bit k (2 ^ n) = (2 ^ (n - k) :: 'a::len word)"
  by (rule bit_word_eqI) (auto simp: bit_simps)

lemma unat_exp_below: "n < LENGTH('a) \<Longrightarrow> unat (2 ^ n :: 'a::len word) = 2 ^ n"
  by (rule bit_eqI) (auto simp: bit_simps)

lemma bit_of_range:
  fixes x :: "'a::len word"
  assumes "2 ^ m \<le> unat x" "unat x < 2 ^ Suc m"
  shows "bit x m"
proof -
  have "unat x div 2 ^ m = 1"
    using assms by (intro div_nat_eqI) auto
  then have "bit (unat x) m"
    by (simp add: bit_iff_odd)
  then show ?thesis
    by (simp add: bit_unsigned_iff)
qed

lemma unat_less_of_bits:
  fixes x :: "'a::len word"
  assumes "\<forall>i>m. \<not> bit x i"
  shows "unat x < 2 ^ Suc m"
proof -
  have "take_bit (Suc m) (unat x) = unat x"
    using assms by (intro bit_eqI) (auto simp: bit_simps not_less less_Suc_eq_le)
  then show ?thesis
    using take_bit_nat_less_exp [of "Suc m" "unat x"] by simp
qed

lemma unat_ge_of_bit:
  fixes x :: "'a::len word"
  assumes "bit x m"
  shows "2 ^ m \<le> unat x"
proof (rule ccontr)
  assume "\<not> 2 ^ m \<le> unat x"
  then have "\<not> bit (unat x) m"
    by (simp add: bit_iff_odd)
  then show False
    using assms bit_imp_le_length by (auto simp: bit_unsigned_iff)
qed

lemma is_power_of_2_iff: "is_power_of_2 v \<longleftrightarrow> (\<exists>n<64. v = 2 ^ n)"
proof
  assume p: "is_power_of_2 v"
  then have nz: "v \<noteq> 0" and z: "v AND (v - 1) = 0"
    by (auto simp: is_power_of_2_def split: if_splits)
  define n where "n = 63 - clz64 v"
  have n: "n < 64" "bit v n" "\<forall>i>n. \<not> bit v i"
    using clz64_highest [OF nz] by (auto simp: n_def)
  have ge: "2 ^ n \<le> unat v" and lt: "unat v < 2 ^ Suc n"
    using unat_ge_of_bit [OF n(2)] unat_less_of_bits [OF n(3)] by auto
  have u1: "unat (v - 1) = unat v - 1"
    using nz by (simp add: unat_minus_one)
  have "\<not> bit (v - 1) n"
    using arg_cong [OF z, of "\<lambda>w. bit w n"] n(2) by (simp add: bit_and_iff)
  then have "\<not> 2 ^ n \<le> unat v - 1"
    using bit_of_range [of n "v - 1"] lt u1 by linarith
  then have "unat v = 2 ^ n"
    using ge by linarith
  then have "v = of_nat (2 ^ n)"
    by (metis of_nat_unat ucast_id)
  then show "\<exists>n<64. v = 2 ^ n"
    using n(1) by auto
next
  assume "\<exists>n<64. v = 2 ^ n"
  then obtain n where n: "n < 64" "v = 2 ^ n" by blast
  have "v AND (v - 1) = 0"
    by (rule bit_word_eqI) (auto simp: n(2) bit_simps simp flip: mask_eq_exp_minus_1)
  moreover have "v \<noteq> 0"
    using n by (simp add: exp_eq_zero_iff)
  ultimately show "is_power_of_2 v" by (simp add: is_power_of_2_def)
qed

text \<open>\<open>pow2floor\<close> is the largest power of two below a non-zero argument.\<close>

lemma pow2floor_spec:
  assumes "v \<noteq> 0"
  shows "\<exists>n<64. pow2floor v = Inr (2 ^ n) \<and> 2 ^ n \<le> unat v \<and> unat v < 2 ^ Suc n"
proof -
  have b: "clz64 v < 64" "bit v (63 - clz64 v)" "\<forall>i>63 - clz64 v. \<not> bit v i"
    using clz64_highest [OF assms] by auto
  have e: "drop_bit (clz64 v) 0x8000000000000000 = (2 ^ (63 - clz64 v) :: u64)"
    using drop_bit_exp_word [of "clz64 v" 63, where 'a = 64] b(1) by simp
  show ?thesis
  proof (cases "is_power_of_2 v")
    case True
    then obtain n where "n < 64" "v = 2 ^ n" by (auto simp: is_power_of_2_iff)
    then show ?thesis using True by (intro exI [of _ n]) (auto simp: pow2floor_def unat_exp_below)
  next
    case False
    then show ?thesis
      using b e unat_ge_of_bit [OF b(2)] unat_less_of_bits [OF b(3)]
      by (intro exI [of _ "63 - clz64 v"]) (auto simp: pow2floor_def c_shr_def)
  qed
qed

section \<open>Products and quotients\<close>

lemma unat_lo32: "unat (lo32 x) = unat x mod 2 ^ 32"
  by (simp add: lo32_def unsigned_ucast_eq take_bit_eq_mod unat_mod)

lemma unat_hi32: "unat (hi32 x) = unat x div 2 ^ 32"
  by (simp add: hi32_def drop_bit_eq_div unat_div)

lemma unat_below: "unat (x :: 'a::len word) < 2 ^ LENGTH('a)"
  by (rule unsigned_less)

lemma uint_below: "uint (x :: 'a::len word) < 2 ^ LENGTH('a)"
  by (rule unsigned_less)

lemma unat_add_below:
  "unat x + unat y < 2 ^ LENGTH('a) \<Longrightarrow> unat (x + y) = unat x + unat y" for x y :: "'a::len word"
  by (simp add: unat_word_ariths)

lemma unat_mult_below:
  "unat x * unat y < 2 ^ LENGTH('a) \<Longrightarrow> unat (x * y) = unat x * unat y" for x y :: "'a::len word"
  by (simp add: unat_word_ariths)

lemma unat_join32:
  "unat (push_bit 32 (lo32 h) OR lo32 l) = 2 ^ 32 * (unat h mod 2 ^ 32) + unat l mod 2 ^ 32"
proof -
  have "push_bit 32 (lo32 h) OR lo32 l = push_bit 32 (lo32 h) + lo32 l"
    by (rule disjunctive_add_eq_or [symmetric]) (rule bit_word_eqI, auto simp: bit_simps lo32_def)
  moreover have "unat (push_bit 32 (lo32 h)) = 2 ^ 32 * (unat h mod 2 ^ 32)"
  proof -
    have "2 ^ 32 * (unat h mod 2 ^ 32) < 2 ^ 64"
      by simp
    then show ?thesis
      by (simp add: push_bit_eq_mult unat_word_ariths unat_lo32 mult.commute)
  qed
  moreover have "2 ^ 32 * (unat h mod 2 ^ 32) + unat l mod 2 ^ 32 < 2 ^ 64"
    by simp
  ultimately show ?thesis
    by (simp add: unat_add_below unat_lo32)
qed

lemma school_sum:
  fixes p0 p1 q0 q1 r0 r1 s0 s1 c0 c1 d0 d1 :: nat
  assumes "2 ^ 32 * c1 + c0 = p1 + q0 + r0" and "2 ^ 32 * d1 + d0 = c1 + q1 + r1 + s0"
  shows "(2 ^ 32 * c0 + p0) + 2 ^ 64 * (2 ^ 32 * (s1 + d1) + d0) =
         (2 ^ 32 * p1 + p0) + 2 ^ 32 * ((2 ^ 32 * q1 + q0) + (2 ^ 32 * r1 + r0)) + 2 ^ 64 * (2 ^ 32 * s1 + s0)"
  using assms by simp

lemma school_product:
  fixes p q r s :: nat
  assumes "c = p div 2 ^ 32 + q mod 2 ^ 32 + r mod 2 ^ 32"
    and "d = c div 2 ^ 32 + q div 2 ^ 32 + r div 2 ^ 32 + s mod 2 ^ 32"
  shows "(2 ^ 32 * (c mod 2 ^ 32) + p mod 2 ^ 32) +
           2 ^ 64 * (2 ^ 32 * (s div 2 ^ 32 + d div 2 ^ 32) + d mod 2 ^ 32) =
         p + 2 ^ 32 * (q + r) + 2 ^ 64 * s"
proof -
  have m: "2 ^ 32 * (x div 2 ^ 32) + x mod 2 ^ 32 = x" for x :: nat
    by simp
  show ?thesis
    using school_sum [of "c div 2 ^ 32" "c mod 2 ^ 32" "p div 2 ^ 32" "q mod 2 ^ 32" "r mod 2 ^ 32"
        "d div 2 ^ 32" "d mod 2 ^ 32" "q div 2 ^ 32" "r div 2 ^ 32" "s mod 2 ^ 32" "p mod 2 ^ 32"
        "s div 2 ^ 32"]
    unfolding m using assms by blast
qed

lemma mul64_correct:
  "unat (fst (mul64 a b)) + 2 ^ 64 * unat (snd (mul64 a b)) = unat a * unat b"
proof -
  define al ah bl bh where "al = unat a mod 2 ^ 32" and "ah = unat a div 2 ^ 32"
    and "bl = unat b mod 2 ^ 32" and "bh = unat b div 2 ^ 32"
  note ub = unat_below [of a, simplified] unat_below [of b, simplified]
  have lt: "al < 2 ^ 32" "ah < 2 ^ 32" "bl < 2 ^ 32" "bh < 2 ^ 32"
    using ub by (auto simp: al_def ah_def bl_def bh_def less_mult_imp_div_less)
  have prod: "x * y \<le> (2 ^ 32 - 1) * (2 ^ 32 - 1)" if "x < 2 ^ 32" "y < 2 ^ 32" for x y :: nat
    using that by (intro mult_le_mono) auto
  define p q r s where "p = lo32 a * lo32 b" and "q = lo32 a * hi32 b"
    and "r = hi32 a * lo32 b" and "s = hi32 a * hi32 b"
  have u: "unat p = al * bl" "unat q = al * bh" "unat r = ah * bl" "unat s = ah * bh"
    using prod [OF lt(1,3)] prod [OF lt(1,4)] prod [OF lt(2,3)] prod [OF lt(2,4)]
    by (simp_all add: p_def q_def r_def s_def unat_mult_below unat_lo32 unat_hi32 al_def ah_def bl_def bh_def)
  define c where "c = hi32 p + lo32 q + lo32 r"
  define d where "d = drop_bit 32 c + hi32 q + hi32 r + lo32 s"
  have md: "x mod 2 ^ 32 < 2 ^ 32" for x :: nat by simp
  have dv: "unat w div 2 ^ 32 < 2 ^ 32" for w :: u64
    using unat_below [of w] by (auto intro!: less_mult_imp_div_less)
  have uc: "unat c = unat p div 2 ^ 32 + unat q mod 2 ^ 32 + unat r mod 2 ^ 32"
    using dv [of p] md [of "unat q"] md [of "unat r"]
    by (simp add: c_def unat_add_below unat_lo32 unat_hi32)
  have ud: "unat d = unat c div 2 ^ 32 + unat q div 2 ^ 32 + unat r div 2 ^ 32 + unat s mod 2 ^ 32"
    using dv [of c] dv [of q] dv [of r] md [of "unat s"]
    by (simp add: d_def unat_add_below unat_lo32 unat_hi32 flip: hi32_def)
  have uh: "unat (hi32 s + hi32 d) = unat s div 2 ^ 32 + unat d div 2 ^ 32"
    using dv [of s] dv [of d] by (simp add: unat_add_below unat_hi32)
  have ab: "unat a = 2 ^ 32 * ah + al" "unat b = 2 ^ 32 * bh + bl"
    by (simp_all add: al_def ah_def bl_def bh_def)
  have total: "(2 ^ 32 * (unat c mod 2 ^ 32) + unat p mod 2 ^ 32) +
      2 ^ 64 * (2 ^ 32 * (unat s div 2 ^ 32 + unat d div 2 ^ 32) + unat d mod 2 ^ 32) = unat a * unat b"
    by (subst school_product [OF uc ud]) (simp add: u ab algebra_simps)
  have "unat a * unat b < 2 ^ 64 * 2 ^ 64"
    using ub by (intro mult_strict_mono) auto
  then have small: "unat s div 2 ^ 32 + unat d div 2 ^ 32 < 2 ^ 32"
    using total by simp
  have "mul64 a b = (push_bit 32 (lo32 c) OR lo32 p, push_bit 32 (lo32 (hi32 s + hi32 d)) OR lo32 d)"
    by (simp add: mul64_def Let_def c_def d_def p_def q_def r_def s_def)
  then show ?thesis
    using total small by (simp only: fst_conv snd_conv unat_join32 uh mod_less)
qed

lemma unat_ucast_128: "unat (ucast (a :: u64) :: 128 word) = unat a"
  using unat_below [of a] by (simp add: unsigned_ucast_eq take_bit_eq_mod)

lemma mulu64_eq_int128: "mulu64 a b = mulu64_int128 a b"
proof -
  define r where "r = (ucast a :: 128 word) * ucast b"
  have "unat a * unat b < 2 ^ 64 * 2 ^ 64"
    using unat_below [of a] unat_below [of b] by (intro mult_strict_mono) auto
  then have r: "unat r = unat a * unat b"
    by (simp add: r_def unat_mult_below unat_ucast_128)
  then have t: "unat r = unat (fst (mul64 a b)) + 2 ^ 64 * unat (snd (mul64 a b))"
    by (simp only: mul64_correct)
  have "unat (ucast r :: u64) = unat (fst (mul64 a b))"
    using unat_below [of "fst (mul64 a b)"]
    by (simp add: unsigned_ucast_eq t take_bit_eq_mod)
  moreover have "unat (ucast (drop_bit 64 r) :: u64) = unat (snd (mul64 a b))"
    using unat_below [of "fst (mul64 a b)"] unat_below [of "snd (mul64 a b)"]
    by (simp add: unsigned_ucast_eq unat_drop_bit_eq t take_bit_eq_mod drop_bit_eq_div unat_div)
  ultimately show ?thesis
    by (simp add: mulu64_def mulu64_int128_def Let_def prod_eq_iff word_unat_eq_iff flip: r_def)
qed

lemma ucast_low_128: "(ucast (word_of_int k :: 128 word) :: u64) = word_of_int k"
  by (rule bit_word_eqI) (simp add: bit_simps)

lemma ucast_high_128:
  "(ucast (drop_bit 64 (word_of_int k :: 128 word)) :: u64) = word_of_int (k div 2 ^ 64)"
  "(ucast (signed_drop_bit 64 (word_of_int k :: 128 word)) :: u64) = word_of_int (k div 2 ^ 64)"
  unfolding drop_bit_eq_div [symmetric] by (rule bit_word_eqI, simp add: bit_simps)+

lemma sint_eq_uint_bit: "sint a = uint a - 2 ^ 64 * of_bool (bit a 63)" for a :: u64
  using uint_below [of a]
  by (simp add: sint_uint signed_take_bit_eq_take_bit_minus bit_uint_iff take_bit_int_eq_self)

lemma sless_0_iff_bit: "a <s 0 \<longleftrightarrow> bit a 63" for a :: u64
  using sint_eq_uint_bit [of a] uint_below [of a] by (auto simp: word_sless_alt)

lemma sint_eq_uint_diff: "sint a = uint a - 2 ^ 64 * of_bool (a <s 0)" for a :: u64
  by (simp add: sint_eq_uint_bit sless_0_iff_bit)

lemma mul64_words:
  "mul64 a b = (word_of_int (uint a * uint b), word_of_int ((uint a * uint b) div 2 ^ 64))"
proof -
  have "(ucast a :: 128 word) * ucast b = word_of_int (uint a * uint b)"
    by simp
  then show ?thesis
    using mulu64_eq_int128 [of a b]
    by (simp only: mulu64_def mulu64_int128_def Let_def ucast_low_128 ucast_high_128)
qed

lemma muls64_eq_int128: "muls64 a b = muls64_int128 a b"
proof -
  define x where "x = uint b * of_bool (a <s 0) + uint a * of_bool (b <s 0) -
    2 ^ 64 * of_bool (a <s 0) * of_bool (b <s 0)"
  have P: "sint a * sint b = uint a * uint b - 2 ^ 64 * x"
    by (simp add: sint_eq_uint_diff x_def algebra_simps)
  have r: "(scast a :: 128 word) * scast b = word_of_int (sint a * sint b)"
    by simp
  have lo: "(word_of_int (uint a * uint b - 2 ^ 64 * x) :: u64) = word_of_int (uint a * uint b)"
  proof -
    have z: "(word_of_int (2 ^ 64) :: u64) = 0"
      by code_simp
    show ?thesis
      by (simp only: of_int_diff of_int_mult z mult_zero_left diff_zero)
  qed
  have "(uint a * uint b - 2 ^ 64 * x) div 2 ^ 64 = (uint a * uint b) div 2 ^ 64 - x"
    using div_mult_self2 [of "2 ^ 64" "uint a * uint b" "- x"] by simp
  then have hi: "(word_of_int ((uint a * uint b - 2 ^ 64 * x) div 2 ^ 64) :: u64) =
      word_of_int ((uint a * uint b) div 2 ^ 64) - b * of_bool (a <s 0) - a * of_bool (b <s 0)"
    by (simp add: x_def)
  show ?thesis
    by (simp only: muls64_def muls64_int128_def mul64_words r P Let_def ucast_low_128 ucast_high_128
        lo hi prod.case) auto
qed

text \<open>
  The shift and subtract loop.  With \<open>i\<close> rounds left, \<open>dlo\<close> holds the unread part \<open>L\<close> of the low
  word above the quotient bits \<open>q\<close> found so far.
\<close>

lemma unat_shl1_or:
  fixes x b :: u64
  assumes "unat b \<le> 1"
  shows "unat (push_bit 1 x OR b) = (2 * unat x) mod 2 ^ 64 + unat b"
proof -
  have "b = 0 \<or> b = 1"
    using assms by (metis le_neq_implies_less less_one unat_eq_zero unat_1 word_unat_eq_iff)
  then have "push_bit 1 x OR b = push_bit 1 x + b"
    by (intro disjunctive_add_eq_or [symmetric] bit_word_eqI) (auto simp: bit_simps bit_0)
  moreover have p: "unat (push_bit 1 x) = (2 * unat x) mod 2 ^ 64"
    by (simp add: push_bit_eq_mult unat_word_ariths mult.commute)
  moreover have "(2 * unat x) mod 2 ^ 64 + unat b < 2 ^ 64"
  proof -
    have "(2 * unat x) mod 2 ^ 64 \<le> 2 ^ 64 - 2"
    proof -
      have "even ((2 * unat x) mod 2 ^ 64)" by (rule dvd_mod) simp_all
      moreover have "(2 * unat x) mod 2 ^ 64 < 2 ^ 64" by simp
      ultimately show ?thesis by (cases "(2 * unat x) mod 2 ^ 64 = 2 ^ 64 - 1") simp_all
    qed
    then show ?thesis using assms by simp
  qed
  ultimately show ?thesis
    by (simp add: unat_add_below)
qed

lemma unat_top: "unat (drop_bit 63 x) = unat x div 2 ^ 63" for x :: u64
  by (simp add: drop_bit_eq_div unat_div)

definition div_rest :: "nat \<Rightarrow> nat \<Rightarrow> nat \<Rightarrow> u64 \<Rightarrow> bool" where
  "div_rest i L q dlo \<longleftrightarrow> L < 2 ^ i \<and> q < 2 ^ (64 - i) \<and> unat dlo = L * 2 ^ (64 - i) + q"

lemma double_mod: "x < 2 ^ 63 \<Longrightarrow> (2 * (t * 2 ^ 63 + x)) mod 2 ^ 64 = 2 * x" for x t :: nat
proof -
  assume "x < 2 ^ 63"
  moreover have "2 * (t * 2 ^ 63 + x) = 2 * x + t * 2 ^ 64"
    by simp
  ultimately show ?thesis
    by (simp only: mod_mult_self1) simp
qed

lemma div_rest_step:
  assumes "div_rest (Suc i) L q dlo" "i < 64" "unat b \<le> 1"
  shows "div_rest i (L mod 2 ^ i) (2 * q + unat b) (push_bit 1 dlo OR b)"
    and "unat (drop_bit 63 dlo) = L div 2 ^ i" and "L div 2 ^ i \<le> 1"
proof -
  define n where "n = 63 - i"
  have n: "64 - i = Suc n" "64 - Suc i = n" "n + i = 63"
    using assms(2) by (auto simp: n_def)
  define t where "t = L div 2 ^ i"
  define L' where "L' = L mod 2 ^ i"
  have L: "L = t * 2 ^ i + L'" "L' < 2 ^ i"
    unfolding t_def L'_def by (rule div_mult_mod_eq [symmetric], simp)
  have r: "L < 2 ^ Suc i" "q < 2 ^ n" "unat dlo = L * 2 ^ n + q"
    using assms(1) unfolding div_rest_def n by auto
  show t1: "L div 2 ^ i \<le> 1"
    using r(1) by (simp add: less_mult_imp_div_less less_Suc_eq_le [symmetric])
  have e63: "(2 :: nat) ^ i * 2 ^ n = 2 ^ 63"
    using n(3) by (simp add: power_add [symmetric] add.commute)
  have low: "L' * 2 ^ n + q < 2 ^ 63"
  proof -
    have "L' * 2 ^ n + q < (L' + 1) * 2 ^ n" using r(2) by simp
    also have "\<dots> \<le> 2 ^ i * 2 ^ n" using L(2) by (intro mult_le_mono) auto
    finally show ?thesis by (simp add: e63)
  qed
  have dlo: "unat dlo = t * 2 ^ 63 + (L' * 2 ^ n + q)"
    unfolding r(3) L(1) by (simp add: add_mult_distrib mult.assoc e63)
  show "unat (drop_bit 63 dlo) = L div 2 ^ i"
    unfolding unat_top dlo t_def [symmetric] using low by (simp add: div_mult_self3)
  have "unat (push_bit 1 dlo OR b) = 2 * (L' * 2 ^ n + q) + unat b"
    unfolding unat_shl1_or [OF assms(3)] dlo double_mod [OF low] ..
  then show "div_rest i (L mod 2 ^ i) (2 * q + unat b) (push_bit 1 dlo OR b)"
    using assms(3) L(2) r(2) unfolding div_rest_def n L'_def [symmetric] by simp
qed

lemma divu128_loop_correct:
  assumes "div_rest i L q dlo" "i \<le> 64" "dhi < d" "divu128_loop i dlo dhi d = (ql, rh)"
  shows "\<exists>Q. unat ql = q * 2 ^ i + Q \<and> unat dhi * 2 ^ i + L = Q * unat d + unat rh \<and>
             rh < d \<and> Q < 2 ^ i"
  using assms
proof (induction i arbitrary: L q dlo dhi)
  case 0
  then show ?case by (auto simp: div_rest_def)
next
  case (Suc i)
  define t where "t = L div 2 ^ i"
  define h where "h = push_bit 1 dhi OR drop_bit 63 dlo"
  define b :: u64 where "b = of_bool (drop_bit 63 dhi \<noteq> 0 \<or> h \<ge> d)"
  define dhi' where "dhi' = (if drop_bit 63 dhi \<noteq> 0 \<or> h \<ge> d then h - d else h)"
  have b1: "unat b \<le> 1" and ub: "unat b = of_bool (drop_bit 63 dhi \<noteq> 0 \<or> h \<ge> d)"
    by (simp_all add: b_def)
  note st = div_rest_step [OF Suc.prems(1) _ b1]
  have i: "i < 64" using Suc.prems(2) by simp
  have top: "unat (drop_bit 63 dlo) = t" "t \<le> 1"
    using st(2,3) [OF i] by (simp_all add: t_def)
  have uh: "unat h = (2 * unat dhi) mod 2 ^ 64 + t"
    using unat_shl1_or [of "drop_bit 63 dlo" dhi] top by (simp only: h_def)
  have lt: "unat dhi < unat d" using Suc.prems(3) by (simp add: word_less_nat_alt)
  have carry: "drop_bit 63 dhi \<noteq> 0 \<longleftrightarrow> 2 ^ 63 \<le> unat dhi"
    by (simp add: word_unat_eq_iff unat_top div_greater_zero_iff) 
  have step: "unat dhi' + unat b * unat d = 2 * unat dhi + t \<and> unat dhi' < unat d"
  proof (cases "2 ^ 63 \<le> unat dhi")
    case True
    have "(2 * unat dhi) mod 2 ^ 64 = 2 * unat dhi - 2 ^ 64"
      using True unat_below [of dhi] by (simp add: le_mod_geq)
    then have e: "unat h + 2 ^ 64 = 2 * unat dhi + t"
      using True uh by simp
    then have "\<not> unat d \<le> unat h"
      using lt top(2) unat_below [of d] by simp
    then have "unat dhi' = unat h + 2 ^ 64 - unat d"
      using True by (simp add: dhi'_def carry unat_sub_if')
    then show ?thesis
      using True e lt top(2) unat_below [of d] by (simp add: ub carry)
  next
    case False
    then have "(2 * unat dhi) mod 2 ^ 64 = 2 * unat dhi" by simp
    then show ?thesis
      using False lt uh top(2) unat_below [of d]
      by (auto simp: dhi'_def ub carry unat_sub_if' word_le_nat_alt)
  qed
  obtain Q where Q: "unat ql = (2 * q + unat b) * 2 ^ i + Q"
    "unat dhi' * 2 ^ i + L mod 2 ^ i = Q * unat d + unat rh" "rh < d" "Q < 2 ^ i"
    using Suc.IH [OF st(1) [OF i], of dhi'] Suc.prems step i
    by (auto simp: Let_def word_less_nat_alt b_def dhi'_def h_def split: if_splits)
  have "unat dhi * 2 ^ Suc i + L = (unat b * 2 ^ i + Q) * unat d + unat rh"
  proof -
    have "unat dhi * 2 ^ Suc i + L = (2 * unat dhi + t) * 2 ^ i + L mod 2 ^ i"
      using div_mult_mod_eq [of L "2 ^ i"] by (simp add: t_def add_mult_distrib)
    also have "\<dots> = (unat dhi' + unat b * unat d) * 2 ^ i + L mod 2 ^ i"
      using step by simp
    also have "\<dots> = unat b * unat d * 2 ^ i + (unat dhi' * 2 ^ i + L mod 2 ^ i)"
      by (simp add: add_mult_distrib)
    finally show ?thesis
      unfolding Q(2) by (simp add: algebra_simps)
  qed
  moreover have "unat b * 2 ^ i + Q < 2 ^ Suc i"
    using b1 Q(4) by (cases "unat b = 0") (auto simp: le_Suc_eq)
  ultimately show ?case
    using Q by (intro exI [of _ "unat b * 2 ^ i + Q"]) (simp add: algebra_simps)
qed

abbreviation dividend128 :: "u64 \<Rightarrow> u64 \<Rightarrow> nat" where
  "dividend128 plow phigh \<equiv> unat phigh * 2 ^ 64 + unat plow"

lemma word_eq_of_unat: "unat w = n \<Longrightarrow> w = of_nat n" for w :: "'a::len word"
  by auto

lemma quotient_below:
  assumes "phigh < (d :: u64)"
  shows "dividend128 plow phigh div unat d < 2 ^ 64"
proof -
  have "unat phigh + 1 \<le> unat d" using assms by (simp add: word_less_nat_alt)
  then have "(unat phigh + 1) * 2 ^ 64 \<le> unat d * 2 ^ 64" by (rule mult_le_mono1)
  then have "dividend128 plow phigh < 2 ^ 64 * unat d"
    using unat_below [of plow] by simp
  then show ?thesis by (simp add: less_mult_imp_div_less mult.commute)
qed

lemma divu128_quotient:
  assumes "phigh < d"
  shows "\<exists>q r. divu128 plow phigh d = (False, q, r) \<and>
    unat q = dividend128 plow phigh div unat d \<and> unat r = dividend128 plow phigh mod unat d"
proof (cases "phigh = 0")
  case True
  then show ?thesis using assms by (simp add: divu128_def unat_div unat_mod)
next
  case False
  obtain ql rh where l: "divu128_loop 64 plow phigh d = (ql, rh)" by fastforce
  have "div_rest 64 (unat plow) 0 plow"
    using unat_below [of plow] by (simp add: div_rest_def)
  from divu128_loop_correct [OF this _ assms l]
  have e: "unat phigh * 2 ^ 64 + unat plow = unat ql * unat d + unat rh" and r: "unat rh < unat d"
    by (auto simp: word_less_nat_alt)
  have "unat ql = dividend128 plow phigh div unat d" "unat rh = dividend128 plow phigh mod unat d"
    unfolding e using r by simp_all
  then show ?thesis
    using False assms l by (auto simp: divu128_def)
qed

lemma divu128_int128_quotient:
  assumes "d \<noteq> 0"
  shows "divu128_int128 plow phigh d =
    (2 ^ 64 \<le> dividend128 plow phigh div unat d, of_nat (dividend128 plow phigh div unat d),
     of_nat (dividend128 plow phigh mod unat d))"
proof -
  define dd where "dd = push_bit 64 (ucast phigh :: 128 word) OR ucast plow"
  have or: "dd = push_bit 64 (ucast phigh) + ucast plow"
    unfolding dd_def
    by (intro disjunctive_add_eq_or [symmetric] bit_word_eqI) (auto simp: bit_simps dest: bit_imp_le_length)
  have b: "unat phigh * 2 ^ 64 + unat plow < 2 ^ 128"
    using unat_below [of phigh] unat_below [of plow] by simp
  have "unat (push_bit 64 (ucast phigh :: 128 word)) = unat phigh * 2 ^ 64"
    using b unat_ucast_128 [of phigh] by (simp add: push_bit_eq_mult unat_word_ariths)
  then have u: "unat dd = dividend128 plow phigh"
    using b unat_ucast_128 [of plow] by (simp add: or unat_add_below)
  have q: "unat (dd div ucast d) = dividend128 plow phigh div unat d"
    "unat (dd mod ucast d) = dividend128 plow phigh mod unat d"
    by (simp_all only: unat_div unat_mod u unat_ucast_128)
  have f: "dd div ucast d > 0xFFFFFFFFFFFFFFFF \<longleftrightarrow> 2 ^ 64 \<le> dividend128 plow phigh div unat d"
    unfolding word_less_nat_alt q by auto
  have c: "(ucast w :: u64) = of_nat (unat w)" for w :: "128 word"
    by simp
  show ?thesis
    using assms
    by (simp only: divu128_int128_def Let_def if_False dd_def [symmetric] f c q)
qed

text \<open>C4: For every divisor other than the high word of the dividend, the portable 128 by 64 bit division agrees with
  the one written with the compiler's 128 bit type in the overflow flag and, when there is no overflow, in quotient
  and remainder.  On overflow the portable one leaves the dividend as it was.\<close>

theorem divu128_eq_int128:
  assumes "phigh \<noteq> divisor \<or> divisor = 0"
  shows "fst (divu128 plow phigh divisor) = fst (divu128_int128 plow phigh divisor) \<and>
         (\<not> fst (divu128 plow phigh divisor) \<longrightarrow>
           divu128 plow phigh divisor = divu128_int128 plow phigh divisor) \<and>
         (fst (divu128 plow phigh divisor) \<longrightarrow> divu128 plow phigh divisor = (True, plow, phigh))"
proof -
  consider "divisor = 0" | "divisor \<noteq> 0" "phigh < divisor" | "divisor \<noteq> 0" "divisor < phigh"
    using assms by fastforce
  then show ?thesis
  proof cases
    case 1
    then show ?thesis by (simp add: divu128_def divu128_int128_def)
  next
    case 2
    obtain q r where d: "divu128 plow phigh divisor = (False, q, r)"
      and qr: "unat q = dividend128 plow phigh div unat divisor" "unat r = dividend128 plow phigh mod unat divisor"
      using divu128_quotient [OF 2(2)] by blast
    have "divu128 plow phigh divisor = (False, of_nat (dividend128 plow phigh div unat divisor),
        of_nat (dividend128 plow phigh mod unat divisor))"
      unfolding d qr(1,2) [symmetric] by simp
    then show ?thesis
      using quotient_below [OF 2(2), of plow] divu128_int128_quotient [OF 2(1), of plow phigh]
      by (simp only: not_le [symmetric]) simp
  next
    case 3
    have "unat divisor * 2 ^ 64 \<le> dividend128 plow phigh"
      using 3 by (simp add: word_less_nat_alt)
    then have "2 ^ 64 \<le> dividend128 plow phigh div unat divisor"
      using 3 by (simp add: less_eq_div_iff_mult_less_eq unat_gt_0 mult.commute)
    then show ?thesis
      using 3 divu128_int128_quotient [OF 3(1), of plow phigh] by (auto simp: divu128_def)
  qed
qed

theorem divu128_eq_int128_witness:
  "divu128 7 3 5 = divu128_int128 7 3 5 \<and> \<not> fst (divu128 7 3 5)"
proof -
  have "\<not> fst (divu128 7 3 5)" by (simp add: divu128_def)
  then show ?thesis using divu128_eq_int128 [of 3 5 7] by simp
qed

text \<open>C10: When the high word of the dividend equals the divisor the quotient needs 65 bits, which
  the version for 128 bit compilers reports, but the portable \<open>divu128\<close> returns no overflow: its
  test is \<open>dhi > divisor\<close> where the comment above it asks for an overflow whenever the quotient
  exceeds 64 bits.\<close>

theorem divu128_missed_overflow:
  assumes "divisor \<noteq> 0"
  shows "\<not> fst (divu128 plow divisor divisor) \<and> fst (divu128_int128 plow divisor divisor) \<and>
         2 ^ 64 \<le> (unat divisor * 2 ^ 64 + unat plow) div unat divisor"
proof -
  have "2 ^ 64 \<le> (unat divisor * 2 ^ 64 + unat plow) div unat divisor"
    using assms by (simp add: unat_gt_0)
  then show ?thesis
    using assms divu128_int128_quotient [OF assms, of plow divisor] by (simp add: divu128_def)
qed

theorem divu128_missed_overflow_witness:
  "\<not> fst (divu128 0 1 1) \<and> fst (divu128_int128 0 1 1)"
  using divu128_missed_overflow [of 1 0] by simp

text \<open>C11: The portable signed division reports an overflow for every negative dividend whose
  magnitude is below the divisor, although the quotient is zero: it takes a quotient that is not
  negative for a wrong sign.\<close>

theorem divs128_spurious_overflow:
  assumes "0 < m" "m < d" "d < 2 ^ 63"
  shows "divs128 (- m) (- 1) d = (True, 0, m)"
proof -
  have s: "\<not> d <s 0"
    using word_less_exp_bit [OF assms(3)] by (auto simp: sless_0_iff_bit)
  have n: "NOT (- m) + 1 = m" "NOT (- m) \<noteq> - 1" "d \<noteq> 0"
    using assms by (auto simp: not_eq_complement)
  have q: "m div d = 0" "m mod d = m"
    using assms by (simp_all add: div_word_less mod_word_less)
  show ?thesis
    using s n q by (simp add: divs128_def divu128_def Let_def)
qed

theorem divs128_spurious_overflow_witness: "divs128 (- 1) (- 1) 2 = (True, 0, 1)"
  using divs128_spurious_overflow [of 1 2] by simp

section \<open>Population counts\<close>

text \<open>
  One step of the parallel count adds neighbouring digits to the base \<open>2 ^ s\<close>: the sum of the
  digits stays the same when the result is read to the base \<open>2 ^ (2 * s)\<close>.
\<close>

primrec digit_sum :: "nat \<Rightarrow> nat \<Rightarrow> nat \<Rightarrow> nat" where
  "digit_sum s 0 x = 0"
| "digit_sum s (Suc n) x = x mod 2 ^ s + digit_sum s n (x div 2 ^ s)"

primrec even_mask :: "nat \<Rightarrow> nat \<Rightarrow> nat" where
  "even_mask s 0 = 0"
| "even_mask s (Suc n) = mask s + push_bit (2 * s) (even_mask s n)"

definition swar_step :: "nat \<Rightarrow> nat \<Rightarrow> nat \<Rightarrow> nat" where
  "swar_step s n x = (x AND even_mask s n) + ((x div 2 ^ s) AND even_mask s n)"

lemma add_push_bit_eq_or:
  fixes a b :: nat
  assumes "take_bit k a = a"
  shows "a + push_bit k b = a OR push_bit k b"
proof (rule disjunctive_add_eq_or, rule bit_eqI)
  fix i
  show "bit (a AND push_bit k b) i = bit (0 :: nat) i"
    using arg_cong [OF assms, of "\<lambda>x. bit x i"] by (auto simp: bit_simps)
qed

lemma and_split_nat:
  fixes x a b :: nat
  assumes "take_bit k a = a"
  shows "x AND (a + push_bit k b) = (x AND a) + push_bit k (drop_bit k x AND b)"
proof -
  have "take_bit k (x AND a) = x AND a"
  proof (rule bit_eqI)
    fix i
    show "bit (take_bit k (x AND a)) i = bit (x AND a) i"
      using arg_cong [OF assms, of "\<lambda>x. bit x i"] by (auto simp: bit_simps)
  qed
  then have "(x AND a) + push_bit k (drop_bit k x AND b) = (x AND a) OR push_bit k (drop_bit k x AND b)"
    by (rule add_push_bit_eq_or)
  also have "\<dots> = x AND (a OR push_bit k b)"
    by (rule bit_eqI) (auto simp: bit_simps)
  finally show ?thesis
    by (simp only: add_push_bit_eq_or [OF assms])
qed

lemma and_even_mask_Suc:
  "x AND even_mask s (Suc n) = x mod 2 ^ s + 2 ^ (2 * s) * ((x div 2 ^ (2 * s)) AND even_mask s n)"
proof -
  have "take_bit (2 * s) (mask s :: nat) = mask s"
    by (rule bit_eqI) (auto simp: bit_simps)
  then have "x AND even_mask s (Suc n) = (x AND mask s) + push_bit (2 * s) (drop_bit (2 * s) x AND even_mask s n)"
    by (simp only: even_mask.simps and_split_nat)
  also have "x AND mask s = x mod 2 ^ s"
    by (simp flip: take_bit_eq_mask add: take_bit_eq_mod)
  finally show ?thesis
    by (simp only: push_bit_eq_mult drop_bit_eq_div mult.commute)
qed

lemma swar_step_Suc:
  "swar_step s (Suc n) x =
     (x mod 2 ^ s + (x div 2 ^ s) mod 2 ^ s) + 2 ^ (2 * s) * swar_step s n (x div 2 ^ (2 * s))"
proof -
  have "(x div 2 ^ s) div 2 ^ (2 * s) = (x div 2 ^ (2 * s)) div 2 ^ s"
    by (simp add: div_mult2_eq [symmetric] mult.commute)
  then show ?thesis
    unfolding swar_step_def and_even_mask_Suc by (simp add: algebra_simps)
qed

lemma digit_pair_below:
  fixes x :: nat
  assumes "0 < s"
  shows "x mod 2 ^ s + (x div 2 ^ s) mod 2 ^ s < 2 ^ (2 * s)"
proof -
  have "2 * 2 ^ s \<le> (2 :: nat) ^ s * 2 ^ s"
    using assms by (intro mult_le_mono1) (simp add: self_le_power)
  moreover have "x mod 2 ^ s < 2 ^ s" "(x div 2 ^ s) mod 2 ^ s < 2 ^ s"
    by simp_all
  ultimately have "x mod 2 ^ s + (x div 2 ^ s) mod 2 ^ s < 2 ^ s * 2 ^ s"
    by linarith
  then show ?thesis by (simp add: mult_2 power_add)
qed

lemma digit_sum_swar:
  assumes "0 < s"
  shows "digit_sum (2 * s) n (swar_step s n x) = digit_sum s (2 * n) x"
proof (induction n arbitrary: x)
  case (Suc n)
  have "(x div 2 ^ s) div 2 ^ s = x div 2 ^ (2 * s)"
    by (simp add: div_mult2_eq [symmetric] mult_2 power_add)
  then show ?case
    using digit_pair_below [OF assms, of x] Suc.IH [of "x div 2 ^ (2 * s)"]
    by (simp add: swar_step_Suc)
qed simp

lemma swar_step_below: "0 < s \<Longrightarrow> swar_step s n x < 2 ^ (2 * s * n)"
proof (induction n arbitrary: x)
  case (Suc n)
  have "swar_step s n (x div 2 ^ (2 * s)) + 1 \<le> 2 ^ (2 * s * n)"
    using Suc.IH [OF Suc.prems, of "x div 2 ^ (2 * s)"] by simp
  then have "2 ^ (2 * s) * (swar_step s n (x div 2 ^ (2 * s)) + 1) \<le> 2 ^ (2 * s) * 2 ^ (2 * s * n)"
    by (rule mult_le_mono2)
  then show ?case
    using digit_pair_below [OF Suc.prems, of x]
    by (simp add: swar_step_Suc power_add)
qed (simp add: swar_step_def)

lemma unat_swar:
  fixes x m :: "'a::len word"
  assumes "unat m = even_mask s n" "0 < s" "2 * s * n = LENGTH('a)"
  shows "unat ((x AND m) + (drop_bit s x AND m)) = swar_step s n (unat x)"
proof -
  have e: "unat (x AND m) = unat x AND even_mask s n"
    "unat (drop_bit s x AND m) = (unat x div 2 ^ s) AND even_mask s n"
    using assms(1) by (simp_all only: unsigned_and_eq unat_drop_bit_eq, simp_all only: drop_bit_eq_div)
  show ?thesis
    using swar_step_below [OF assms(2), of n "unat x"] assms(3)
    by (subst unat_add_below) (simp_all add: e swar_step_def)
qed

lemma digit_sum_step:
  fixes x m :: "'a::len word"
  assumes "unat m = even_mask s n" "0 < s" "2 * s * n = LENGTH('a)"
  shows "digit_sum s (2 * n) (unat x) = digit_sum (2 * s) n (unat ((x AND m) + (drop_bit s x AND m)))"
  by (simp add: unat_swar [OF assms] digit_sum_swar [OF assms(2)])

definition popcount :: "'a::len word \<Rightarrow> nat" where
  "popcount x = card {i. i < LENGTH('a) \<and> bit x i}"

lemma digit_sum_1: "digit_sum 1 n x = card {i. i < n \<and> bit x i}"
proof (induction n arbitrary: x)
  case (Suc n)
  have "{i. i < Suc n \<and> bit x i} = (if odd x then {0} else {}) \<union> Suc ` {i. i < n \<and> bit (x div 2) i}"
    by (auto simp: bit_0 bit_Suc image_iff less_Suc_eq_0_disj)
  moreover have "card ((if odd x then {0} else {}) \<union> Suc ` {i. i < n \<and> bit (x div 2) i}) =
      x mod 2 + card {i. i < n \<and> bit (x div 2) i}"
    by (subst card_Un_disjoint) (auto simp: card_image odd_iff_mod_2_eq_one even_iff_mod_2_eq_zero)
  ultimately show ?case using Suc.IH [of "x div 2"] by simp
qed simp

lemma popcount_digit_sum: "popcount x = digit_sum 1 LENGTH('a) (unat x)" for x :: "'a::len word"
  unfolding popcount_def digit_sum_1 by (rule arg_cong [of _ _ card]) (auto simp: bit_simps)

lemma digit_sum_whole: "x < 2 ^ s \<Longrightarrow> digit_sum s (Suc 0) x = x"
  by simp

lemma digit_sum_one: "digit_sum s 1 x = x mod 2 ^ s"
  by simp

lemma even_mask_numeral:
  "even_mask s (numeral k) = mask s + push_bit (2 * s) (even_mask s (pred_numeral k))"
  by (simp add: numeral_eq_Suc)

lemma even_mask_values:
  "even_mask 1 4 = 0x55" "even_mask 2 2 = 0x33" "even_mask 4 1 = 0x0f"
  "even_mask 1 8 = 0x5555" "even_mask 2 4 = 0x3333" "even_mask 4 2 = 0x0f0f" "even_mask 8 1 = 0x00ff"
  "even_mask 1 16 = 0x55555555" "even_mask 2 8 = 0x33333333" "even_mask 4 4 = 0x0f0f0f0f" "even_mask 8 2 = 0x00ff00ff" "even_mask 16 1 = 0x0000ffff"
  "even_mask 1 32 = 0x5555555555555555" "even_mask 2 16 = 0x3333333333333333" "even_mask 4 8 = 0x0f0f0f0f0f0f0f0f" "even_mask 8 4 = 0x00ff00ff00ff00ff" "even_mask 16 2 = 0x0000ffff0000ffff" "even_mask 32 1 = 0x00000000ffffffff"
  by (simp_all add: even_mask_numeral mask_eq_exp_minus_1 push_bit_eq_mult)

lemma swar8:
  fixes x :: u8
  shows
  "digit_sum 1 8 (unat x) = digit_sum 2 4 (unat ((x AND 0x55) + (drop_bit 1 x AND 0x55)))"
  "digit_sum 2 4 (unat x) = digit_sum 4 2 (unat ((x AND 0x33) + (drop_bit 2 x AND 0x33)))"
  "digit_sum 4 2 (unat x) = digit_sum 8 1 (unat ((x AND 0x0f) + (drop_bit 4 x AND 0x0f)))"
  using digit_sum_step [of "0x55 :: u8" 1 4 x]
    digit_sum_step [of "0x33 :: u8" 2 2 x]
    digit_sum_step [of "0x0f :: u8" 4 1 x]
  by (simp_all add: even_mask_values del: One_nat_def)

lemma swar16:
  fixes x :: u16
  shows
  "digit_sum 1 16 (unat x) = digit_sum 2 8 (unat ((x AND 0x5555) + (drop_bit 1 x AND 0x5555)))"
  "digit_sum 2 8 (unat x) = digit_sum 4 4 (unat ((x AND 0x3333) + (drop_bit 2 x AND 0x3333)))"
  "digit_sum 4 4 (unat x) = digit_sum 8 2 (unat ((x AND 0x0f0f) + (drop_bit 4 x AND 0x0f0f)))"
  "digit_sum 8 2 (unat x) = digit_sum 16 1 (unat ((x AND 0x00ff) + (drop_bit 8 x AND 0x00ff)))"
  using digit_sum_step [of "0x5555 :: u16" 1 8 x]
    digit_sum_step [of "0x3333 :: u16" 2 4 x]
    digit_sum_step [of "0x0f0f :: u16" 4 2 x]
    digit_sum_step [of "0x00ff :: u16" 8 1 x]
  by (simp_all add: even_mask_values del: One_nat_def)

lemma swar32:
  fixes x :: u32
  shows
  "digit_sum 1 32 (unat x) = digit_sum 2 16 (unat ((x AND 0x55555555) + (drop_bit 1 x AND 0x55555555)))"
  "digit_sum 2 16 (unat x) = digit_sum 4 8 (unat ((x AND 0x33333333) + (drop_bit 2 x AND 0x33333333)))"
  "digit_sum 4 8 (unat x) = digit_sum 8 4 (unat ((x AND 0x0f0f0f0f) + (drop_bit 4 x AND 0x0f0f0f0f)))"
  "digit_sum 8 4 (unat x) = digit_sum 16 2 (unat ((x AND 0x00ff00ff) + (drop_bit 8 x AND 0x00ff00ff)))"
  "digit_sum 16 2 (unat x) = digit_sum 32 1 (unat ((x AND 0x0000ffff) + (drop_bit 16 x AND 0x0000ffff)))"
  using digit_sum_step [of "0x55555555 :: u32" 1 16 x]
    digit_sum_step [of "0x33333333 :: u32" 2 8 x]
    digit_sum_step [of "0x0f0f0f0f :: u32" 4 4 x]
    digit_sum_step [of "0x00ff00ff :: u32" 8 2 x]
    digit_sum_step [of "0x0000ffff :: u32" 16 1 x]
  by (simp_all add: even_mask_values del: One_nat_def)

lemma swar64:
  fixes x :: u64
  shows
  "digit_sum 1 64 (unat x) = digit_sum 2 32 (unat ((x AND 0x5555555555555555) + (drop_bit 1 x AND 0x5555555555555555)))"
  "digit_sum 2 32 (unat x) = digit_sum 4 16 (unat ((x AND 0x3333333333333333) + (drop_bit 2 x AND 0x3333333333333333)))"
  "digit_sum 4 16 (unat x) = digit_sum 8 8 (unat ((x AND 0x0f0f0f0f0f0f0f0f) + (drop_bit 4 x AND 0x0f0f0f0f0f0f0f0f)))"
  "digit_sum 8 8 (unat x) = digit_sum 16 4 (unat ((x AND 0x00ff00ff00ff00ff) + (drop_bit 8 x AND 0x00ff00ff00ff00ff)))"
  "digit_sum 16 4 (unat x) = digit_sum 32 2 (unat ((x AND 0x0000ffff0000ffff) + (drop_bit 16 x AND 0x0000ffff0000ffff)))"
  "digit_sum 32 2 (unat x) = digit_sum 64 1 (unat ((x AND 0x00000000ffffffff) + (drop_bit 32 x AND 0x00000000ffffffff)))"
  using digit_sum_step [of "0x5555555555555555 :: u64" 1 32 x]
    digit_sum_step [of "0x3333333333333333 :: u64" 2 16 x]
    digit_sum_step [of "0x0f0f0f0f0f0f0f0f :: u64" 4 8 x]
    digit_sum_step [of "0x00ff00ff00ff00ff :: u64" 8 4 x]
    digit_sum_step [of "0x0000ffff0000ffff :: u64" 16 2 x]
    digit_sum_step [of "0x00000000ffffffff :: u64" 32 1 x]
  by (simp_all add: even_mask_values del: One_nat_def)

lemma ctpop8_popcount: "ctpop8 v = popcount v"
  by (simp add: popcount_digit_sum ctpop8_def Let_def swar8 digit_sum_one unat_below [where 'a = 8, simplified]
      del: One_nat_def)

lemma ctpop16_popcount: "ctpop16 v = popcount v"
  by (simp add: popcount_digit_sum ctpop16_def Let_def swar16 digit_sum_one unat_below [where 'a = 16, simplified]
      del: One_nat_def)

lemma ctpop32_popcount: "ctpop32 v = popcount v"
  by (simp add: popcount_digit_sum ctpop32_def Let_def swar32 digit_sum_one unat_below [where 'a = 32, simplified]
      del: One_nat_def)

lemma ctpop64_popcount: "ctpop64 v = popcount v"
  by (simp add: popcount_digit_sum ctpop64_def Let_def swar64 digit_sum_one unat_below [where 'a = 64, simplified]
      del: One_nat_def)

lemma digit_sum_zero [simp]: "digit_sum s n 0 = 0"
  by (induction n) simp_all

lemma hweight_loop_digit_sum:
  "unat w < 2 ^ n \<Longrightarrow> hweight_loop c w = c + digit_sum 1 n (unat w)"
proof (induction n arbitrary: c w)
  case 0
  then have "w = 0" by (simp add: unat_eq_zero)
  then show ?case by (simp add: hweight_loop.simps)
next
  case (Suc n)
  have h: "unat (drop_bit 1 w) = unat w div 2"
    by (simp add: drop_bit_eq_div unat_div)
  have l: "unat (w AND 1) = unat w mod 2"
    by (simp add: and_one_eq unat_mod)
  show ?case
  proof (cases "w = 0")
    case True
    then show ?thesis by (simp add: hweight_loop.simps)
  next
    case False
    have "unat (drop_bit 1 w) < 2 ^ n" using Suc.prems by (simp only: h) simp
    from Suc.IH [OF this, of "c + unat (w AND 1)"] show ?thesis
      using False by (subst hweight_loop.simps) (simp only: h l if_False digit_sum.simps power_one_right)
  qed
qed

text \<open>C7: The parallel bit counts and the shifting loop all return the number of one bits.\<close>

theorem bit_counts:
  "ctpop8 a = card {i. i < 8 \<and> bit a i} \<and>
   ctpop16 b = card {i. i < 16 \<and> bit b i} \<and>
   ctpop32 c = card {i. i < 32 \<and> bit c i} \<and>
   ctpop64 d = card {i. i < 64 \<and> bit d i} \<and>
   hweight_long d = card {i. i < 64 \<and> bit d i}"
  using hweight_loop_digit_sum [of d 64 0] unat_below [of d] popcount_digit_sum [of d]
  by (simp add: ctpop8_popcount ctpop16_popcount ctpop32_popcount ctpop64_popcount popcount_def
      hweight_long_def)

text \<open>C8: The binary searches find the leading and the trailing one bit: \<open>clz\<close> is the number of
  zero bits above the highest one bit and \<open>ctz\<close> the number of zero bits below the lowest, and both
  return the width of the type for zero.\<close>

theorem zero_counts:
  "clz_spec a (clz32 a) \<and> clz_spec b (clz64 b) \<and> ctz_spec a (ctz32 a) \<and> ctz_spec b (ctz64 b)"
  by (simp add: clz32_spec clz64_spec ctz32_spec ctz64_spec)

section \<open>Bit fields\<close>

lemma field_mask:
  "0 < len \<Longrightarrow> len \<le> int LENGTH('a) \<Longrightarrow>
   drop_bit (nat (int LENGTH('a) - len)) (NOT 0 :: 'a::len word) = mask (nat len)"
  by (rule bit_word_eqI) (auto simp: bit_simps)

lemma field_in_range:
  assumes "start \<ge> 0" "len > 0" "len \<le> 64 - start"
  shows "extract64 v start len = Inr (take_bit (nat len) (drop_bit (nat start) v))"
    and "deposit64 v start len f =
      Inr ((v AND NOT (push_bit (nat start) (mask (nat len)))) OR
           push_bit (nat start) (take_bit (nat len) f))"
  using assms field_mask [of len, where 'a = 64]
  by (simp_all add: extract64_def deposit64_def c_assert_def Let_def take_bit_eq_mask push_bit_and)

lemma field_in_range_32:
  assumes "start \<ge> 0" "len > 0" "len \<le> 32 - start"
  shows "extract32 v start len = Inr (take_bit (nat len) (drop_bit (nat start) v))"
    and "deposit32 v start len f =
      Inr ((v AND NOT (push_bit (nat start) (mask (nat len)))) OR
           push_bit (nat start) (take_bit (nat len) f))"
  using assms field_mask [of len, where 'a = 32]
  by (simp_all add: extract32_def deposit32_def c_assert_def Let_def take_bit_eq_mask push_bit_and)

text \<open>C9: Depositing a field and extracting it again returns the low bits of the deposited value,
  and no bit outside the field changes.\<close>

theorem deposit_extract:
  assumes "start \<ge> 0" "len > 0" "len \<le> 64 - start"
  shows "\<exists>w. deposit64 v start len f = Inr w \<and>
             extract64 w start len = Inr (take_bit (nat len) f) \<and>
             (\<forall>i. i < nat start \<or> nat (start + len) \<le> i \<longrightarrow> bit w i = bit v i)"
proof -
  define w where "w = (v AND NOT (push_bit (nat start) (mask (nat len)))) OR
    push_bit (nat start) (take_bit (nat len) f)"
  have n: "nat start + nat len \<le> 64" "nat (start + len) = nat start + nat len"
    using assms by auto
  have "take_bit (nat len) (drop_bit (nat start) w) = take_bit (nat len) f"
    using n by (intro bit_word_eqI) (auto simp: w_def bit_simps)
  moreover have "bit w i = bit v i" if "i < nat start \<or> nat (start + len) \<le> i" for i
    using that n bit_imp_le_length [of v i] by (auto simp: w_def bit_simps)
  ultimately show ?thesis
    using field_in_range [OF assms] by (auto simp: w_def [symmetric])
qed

theorem deposit_extract_witness:
  "\<exists>w. deposit64 0xffff 8 4 0x5a = Inr w \<and> extract64 w 8 4 = Inr 0xa"
  using deposit_extract [of 8 4 "0xffff" "0x5a"] by (auto simp: take_bit_eq_mod)

lemma bitrev8_bits:
  assumes "i < 8"
  shows "bit (bitrev8 v) i = bit v (7 - i)"
proof -
  have "i = 0 \<or> i = 1 \<or> i = 2 \<or> i = 3 \<or> i = 4 \<or> i = 5 \<or> i = 6 \<or> i = 7"
    using assms by linarith
  then show ?thesis
    by (elim disjE) (simp_all add: bitrev8_def Let_def bit_simps del: push_bit_Suc)
qed

lemma bitrev16_bits:
  assumes "i < 16"
  shows "bit (bitrev16 v) i = bit v (15 - i)"
proof -
  have "(ucast (v AND 0xff) :: u8) = ucast (v AND mask 8)"
    by (simp add: mask_eq_exp_minus_1)
  then have m: "(ucast (v AND 0xff) :: u8) = ucast v"
    by (intro bit_word_eqI) (simp add: bit_simps)
  show ?thesis
    using assms bit_imp_le_length [of "bitrev8 (ucast (drop_bit 8 v))" i]
    by (cases "i < 8") (auto simp: bitrev16_def m bit_simps bitrev8_bits)
qed

lemma bitrev32_bits:
  assumes "i < 32"
  shows "bit (bitrev32 v) i = bit v (31 - i)"
proof -
  have "(ucast (v AND 0xffff) :: u16) = ucast (v AND mask 16)"
    by (simp add: mask_eq_exp_minus_1)
  then have m: "(ucast (v AND 0xffff) :: u16) = ucast v"
    by (intro bit_word_eqI) (simp add: bit_simps)
  show ?thesis
    using assms bit_imp_le_length [of "bitrev16 (ucast (drop_bit 16 v))" i]
    by (cases "i < 16") (auto simp: bitrev32_def m bit_simps bitrev16_bits)
qed

lemma bitrev64_bits:
  assumes "i < 64"
  shows "bit (bitrev64 v) i = bit v (63 - i)"
proof -
  have "(ucast (v AND 0xffffffff) :: u32) = ucast (v AND mask 32)"
    by (simp add: mask_eq_exp_minus_1)
  then have m: "(ucast (v AND 0xffffffff) :: u32) = ucast v"
    by (intro bit_word_eqI) (simp add: bit_simps)
  show ?thesis
    using assms bit_imp_le_length [of "bitrev32 (ucast (drop_bit 32 v))" i]
    by (cases "i < 32") (auto simp: bitrev64_def m bit_simps bitrev32_bits)
qed

lemma bitrev64_involution: "bitrev64 (bitrev64 v) = v"
  by (rule bit_word_eqI) (simp add: bitrev64_bits)

text \<open>C5: The portable 64 by 64 bit products equal those computed with the compiler's 128 bit
  type, signed and unsigned, and the unsigned one is the exact 128 bit product.\<close>

theorem long_products:
  "mulu64 a b = mulu64_int128 a b \<and> muls64 a b = muls64_int128 a b \<and>
   unat (fst (mulu64 a b)) + 2 ^ 64 * unat (snd (mulu64 a b)) = unat a * unat b"
  by (simp only: mulu64_eq_int128 [symmetric] muls64_eq_int128 mulu64_def mul64_correct simp_thms)

section \<open>Scaled products\<close>

lemma two_digit_quotient:
  fixes h l c :: nat
  assumes "0 < c" "l < B"
  shows "(h * B + l) div c = (h div c) * B + ((h mod c) * B + l) div c"
    and "((h mod c) * B + l) div c < B"
proof -
  have "h * B + l = c * ((h div c) * B) + ((h mod c) * B + l)"
    by (metis add.assoc add_mult_distrib mult.assoc mult_div_mod_eq)
  then show "(h * B + l) div c = (h div c) * B + ((h mod c) * B + l) div c"
    using assms(1) div_mult_self2 [of c "(h mod c) * B + l" "(h div c) * B"]
    by (simp only: add.commute)
  have "h mod c + 1 \<le> c" using assms(1) by (simp add: Suc_leI)
  then have "(h mod c + 1) * B \<le> c * B" by (rule mult_le_mono1)
  then have "(h mod c) * B + l < c * B" using assms(2) by simp
  then show "((h mod c) * B + l) div c < B"
    by (simp add: less_mult_imp_div_less mult.commute)
qed

lemma unat_ucast_64: "unat (ucast (b :: u32) :: u64) = unat b"
  using unat_below [of b] by (simp add: unsigned_ucast_eq take_bit_eq_mod)

lemma muldiv64_product:
  fixes a :: u64 and b :: u32
  defines "rl \<equiv> lo32 a * ucast b"
  defines "rh \<equiv> hi32 a * ucast b + drop_bit 32 rl"
  shows "unat a * unat b = unat rh * 2 ^ 32 + unat rl mod 2 ^ 32"
proof -
  define al ah where "al = unat a mod 2 ^ 32" and "ah = unat a div 2 ^ 32"
  have lt: "al < 2 ^ 32" "ah < 2 ^ 32" "unat b < 2 ^ 32"
    using unat_below [of a] unat_below [of b] by (auto simp: al_def ah_def less_mult_imp_div_less)
  have prod: "x * unat b \<le> (2 ^ 32 - 1) * (2 ^ 32 - 1)" if "x < 2 ^ 32" for x :: nat
    using that lt(3) by (intro mult_le_mono) auto
  have rl: "unat rl = al * unat b"
    using prod [OF lt(1)] unfolding rl_def
    by (subst unat_mult_below) (simp_all only: unat_lo32 unat_ucast_64 al_def, simp_all)
  have "unat (hi32 a * ucast b) = ah * unat b"
    using prod [OF lt(2)]
    by (subst unat_mult_below) (simp_all only: unat_hi32 unat_ucast_64 ah_def, simp_all)
  moreover have "unat (drop_bit 32 rl) = unat rl div 2 ^ 32"
    by (simp only: hi32_def [symmetric] unat_hi32)
  moreover have "unat rl div 2 ^ 32 < 2 ^ 32"
    using unat_below [of rl] by (auto intro!: less_mult_imp_div_less)
  ultimately have rh: "unat rh = ah * unat b + unat rl div 2 ^ 32"
    using prod [OF lt(2)] unfolding rh_def by (subst unat_add_below) simp_all
  have "unat rh * 2 ^ 32 + unat rl mod 2 ^ 32 = ah * unat b * 2 ^ 32 + unat rl"
    unfolding rh by (simp add: add_mult_distrib)
  also have "\<dots> = (ah * 2 ^ 32 + al) * unat b"
    unfolding rl by (simp add: algebra_simps)
  finally show ?thesis by (simp add: ah_def al_def)
qed

text \<open>C6: \<open>muldiv64\<close> computes \<open>a * b / c\<close> exactly through its 96 bit intermediate product whenever
  the quotient fits 64 bits.\<close>

theorem muldiv64_exact:
  assumes "c \<noteq> 0" "(unat a * unat b) div unat c < 2 ^ 64"
  shows "\<exists>q. muldiv64 a b c = Inr q \<and> unat q = (unat a * unat b) div unat c"
proof -
  define rl where "rl = lo32 a * ucast b"
  define rh where "rh = hi32 a * ucast b + drop_bit 32 rl"
  define cw where "cw = (ucast c :: u64)"
  have c: "unat cw = unat c" "0 < unat c" "unat c < 2 ^ 32"
    using assms(1) unat_below [of c] by (auto simp: cw_def unat_ucast_64 unat_gt_0)
  have "unat rl mod 2 ^ 32 < 2 ^ 32" by simp
  note Q = two_digit_quotient [OF c(2) this, of "unat rh"]
  have N: "unat a * unat b = unat rh * 2 ^ 32 + unat rl mod 2 ^ 32"
    unfolding rh_def rl_def by (rule muldiv64_product)
  have h: "unat rh div unat c < 2 ^ 32"
    using assms(2) unfolding N Q(1) by simp
  have "unat rh mod unat c < 2 ^ 32"
    using c(2,3) mod_less_divisor [of "unat c" "unat rh"] by linarith
  then have sh: "unat (push_bit 32 (rh mod cw)) = (unat rh mod unat c) * 2 ^ 32"
    by (simp add: push_bit_eq_mult unat_word_ariths unat_mod c(1))
  have "rl AND 0xffffffff = rl AND mask 32"
    by (simp add: mask_eq_exp_minus_1)
  then have l: "rl AND 0xffffffff = lo32 rl"
    by (intro bit_word_eqI) (auto simp: lo32_def bit_simps)
  define x where "x = push_bit 32 (rh mod cw) + (rl AND 0xffffffff)"
  have "unat x = unat rh mod unat c * 2 ^ 32 + unat rl mod 2 ^ 32"
    unfolding x_def l
    by (subst unat_add_below) (use \<open>unat rh mod unat c < 2 ^ 32\<close> in \<open>simp_all add: sh unat_lo32\<close>)
  then have x: "unat (x div cw) = (unat rh mod unat c * 2 ^ 32 + unat rl mod 2 ^ 32) div unat c"
    by (simp only: unat_div c(1))
  have "muldiv64 a b c = Inr (push_bit 32 (lo32 (rh div cw)) OR lo32 (x div cw))"
    using assms(1)
    by (simp add: muldiv64_def Let_def lo32_def x_def rh_def rl_def cw_def)
  moreover have "unat (push_bit 32 (lo32 (rh div cw)) OR lo32 (x div cw)) = unat a * unat b div unat c"
    unfolding unat_join32 x N Q(1) using h Q(2) by (simp add: unat_div c(1))
  ultimately show ?thesis by blast
qed

theorem muldiv64_exact_witness:
  "\<exists>q. muldiv64 0x100000000 1000 3 = Inr q \<and> unat q = 1431655765333"
  using muldiv64_exact [of 3 "0x100000000" 1000] by simp

end
