(* ===== verification/Tcg_Ops.thy ===== *)
theory Tcg_Ops
  imports Host_Utils
begin

text \<open>
  The intermediate representation of the code generator (\<open>tcg/tcg.h\<close>, \<open>tcg/tcg-opc.h\<close>) and what
  its operations compute.  The semantics of the operations is that of the interpreter \<open>tci.c\<close> on
  a host with 64 bit registers; operations the interpreter does not implement follow the
  instruction reference of \<open>tcg/README\<close>.  A temporary holds a value or nothing (never written,
  or discarded); the value of a 32 bit temporary is below \<open>2 ^ 32\<close>.
\<close>

section \<open>Conditions\<close>

datatype tcg_cond =
    COND_NEVER | COND_ALWAYS | COND_EQ | COND_NE
  | COND_LT | COND_GE | COND_LE | COND_GT
  | COND_LTU | COND_GEU | COND_LEU | COND_GTU

primrec cond_code :: "tcg_cond \<Rightarrow> u8" where
  "cond_code COND_NEVER = 0"
| "cond_code COND_ALWAYS = 1"
| "cond_code COND_EQ = 8"
| "cond_code COND_NE = 8 OR 1"
| "cond_code COND_LT = 2"
| "cond_code COND_GE = 2 OR 1"
| "cond_code COND_LE = 8 OR 2"
| "cond_code COND_GT = 8 OR 2 OR 1"
| "cond_code COND_LTU = 4"
| "cond_code COND_GEU = 4 OR 1"
| "cond_code COND_LEU = 8 OR 4"
| "cond_code COND_GTU = 8 OR 4 OR 1"

primrec tcg_invert_cond :: "tcg_cond \<Rightarrow> tcg_cond" where
  "tcg_invert_cond COND_NEVER = COND_ALWAYS"
| "tcg_invert_cond COND_ALWAYS = COND_NEVER"
| "tcg_invert_cond COND_EQ = COND_NE"
| "tcg_invert_cond COND_NE = COND_EQ"
| "tcg_invert_cond COND_LT = COND_GE"
| "tcg_invert_cond COND_GE = COND_LT"
| "tcg_invert_cond COND_LE = COND_GT"
| "tcg_invert_cond COND_GT = COND_LE"
| "tcg_invert_cond COND_LTU = COND_GEU"
| "tcg_invert_cond COND_GEU = COND_LTU"
| "tcg_invert_cond COND_LEU = COND_GTU"
| "tcg_invert_cond COND_GTU = COND_LEU"

primrec tcg_swap_cond :: "tcg_cond \<Rightarrow> tcg_cond" where
  "tcg_swap_cond COND_NEVER = COND_NEVER"
| "tcg_swap_cond COND_ALWAYS = COND_ALWAYS"
| "tcg_swap_cond COND_EQ = COND_EQ"
| "tcg_swap_cond COND_NE = COND_NE"
| "tcg_swap_cond COND_LT = COND_GT"
| "tcg_swap_cond COND_GE = COND_LE"
| "tcg_swap_cond COND_LE = COND_GE"
| "tcg_swap_cond COND_GT = COND_LT"
| "tcg_swap_cond COND_LTU = COND_GTU"
| "tcg_swap_cond COND_GEU = COND_LEU"
| "tcg_swap_cond COND_LEU = COND_GEU"
| "tcg_swap_cond COND_GTU = COND_LTU"

section \<open>Operations\<close>

datatype width = W32 | W64

datatype tcg_binop =
    O_add | O_sub | O_mul | O_and | O_or | O_xor
  | O_shl | O_shr | O_sar | O_rotl | O_rotr
  | O_andc | O_orc | O_eqv | O_nand | O_nor
  | O_muluh | O_mulsh | O_div | O_divu | O_rem | O_remu

datatype tcg_unop =
    O_not | O_neg | O_ext8s | O_ext8u | O_ext16s | O_ext16u | O_ext32s | O_ext32u
  | O_bswap16 | O_bswap32 | O_bswap64

datatype ld_kind = Ld8u | Ld8s | Ld16u | Ld16s | Ld32u | Ld32s | Ld_full

datatype st_kind = St8 | St16 | St32 | St_full

datatype qld_kind = Q8u | Q8s | Q16u | Q16s | Q32u | Q32s | Q32 | Q64

type_synonym tmp = nat
type_synonym label = nat

text \<open>
  One constructor per family of opcodes; the arguments are in the order of the operation's
  argument list, outputs first.  The last input of a call is the temporary that holds the address of
  the function, as \<open>tcg_gen_callN\<close> appends it (\<open>tcg/tcg.c:743\<close>).  The fillers \<open>nop1\<close> to \<open>nopn\<close>
  and \<open>debug_insn_start\<close> compute nothing and have no constructor; neither have \<open>div2\<close> and
  \<open>divu2\<close>, which a target has in place of \<open>div\<close> and \<open>divu\<close>, nor the guest memory operations with a
  \<open>TCGMemOp\<close> argument (\<open>qemu_ld_i32\<close> and its family), which the interpreter target does not have
  (\<open>TCG_TARGET_HAS_new_ldst\<close> is 0 in \<open>tcg/tci/tcg-target.h\<close>).
\<close>

datatype tcg_op =
    Op_nop
  | Op_discard tmp
  | Op_set_label label
  | Op_br label
  | Op_call "tmp list" "tmp list" u64
  | Op_mov width tmp tmp
  | Op_movi width tmp u64
  | Op_un tcg_unop width tmp tmp
  | Op_bin tcg_binop width tmp tmp tmp
  | Op_deposit width tmp tmp tmp nat nat
  | Op_setcond width tmp tmp tmp tcg_cond
  | Op_movcond width tmp tmp tmp tmp tmp tcg_cond
  | Op_brcond width tmp tmp tcg_cond label
  | Op_add2 width tmp tmp tmp tmp tmp tmp
  | Op_sub2 width tmp tmp tmp tmp tmp tmp
  | Op_mulu2 width tmp tmp tmp tmp
  | Op_muls2 width tmp tmp tmp tmp
  | Op_brcond2 tmp tmp tmp tmp tcg_cond label
  | Op_setcond2 tmp tmp tmp tmp tmp tcg_cond
  | Op_ld ld_kind width tmp tmp u64
  | Op_st st_kind width tmp tmp u64
  | Op_qemu_ld qld_kind tmp tmp nat
  | Op_qemu_st st_kind tmp tmp nat
  | Op_goto_tb nat
  | Op_exit_tb u64

section \<open>The interpreter's arithmetic\<close>

definition trunc_w :: "width \<Rightarrow> u64 \<Rightarrow> u64" where
  "trunc_w w x = (case w of W32 \<Rightarrow> lo32 x | W64 \<Rightarrow> x)"

definition int32 :: "u64 \<Rightarrow> int" where
  "int32 x = sint (ucast x :: u32)"

definition of_int32 :: "int \<Rightarrow> u64" where
  "of_int32 k = ucast (word_of_int k :: u32)"

definition ok :: "c_error + 'a \<Rightarrow> 'a option" where
  "ok m = (case m of Inl e \<Rightarrow> None | Inr x \<Rightarrow> Some x)"

definition bswap16 :: "u16 \<Rightarrow> u16" where
  "bswap16 x = push_bit 8 (x AND 0x00ff) OR drop_bit 8 (x AND 0xff00)"

definition bswap32 :: "u32 \<Rightarrow> u32" where
  "bswap32 x = push_bit 24 (x AND 0x000000ff) OR push_bit 8 (x AND 0x0000ff00) OR
     drop_bit 8 (x AND 0x00ff0000) OR drop_bit 24 (x AND 0xff000000)"

definition bswap64 :: "u64 \<Rightarrow> u64" where
  "bswap64 x =
     push_bit 56 (x AND 0x00000000000000ff) OR push_bit 40 (x AND 0x000000000000ff00) OR
     push_bit 24 (x AND 0x0000000000ff0000) OR push_bit 8 (x AND 0x00000000ff000000) OR
     drop_bit 8 (x AND 0x000000ff00000000) OR drop_bit 24 (x AND 0x0000ff0000000000) OR
     drop_bit 40 (x AND 0x00ff000000000000) OR drop_bit 56 (x AND 0xff00000000000000)"

definition tci_compare32 :: "u32 \<Rightarrow> u32 \<Rightarrow> tcg_cond \<Rightarrow> bool option" where
  "tci_compare32 u0 u1 c = (case c of
     COND_EQ \<Rightarrow> Some (u0 = u1) | COND_NE \<Rightarrow> Some (u0 \<noteq> u1)
   | COND_LT \<Rightarrow> Some (sint u0 < sint u1) | COND_GE \<Rightarrow> Some (sint u0 \<ge> sint u1)
   | COND_LE \<Rightarrow> Some (sint u0 \<le> sint u1) | COND_GT \<Rightarrow> Some (sint u0 > sint u1)
   | COND_LTU \<Rightarrow> Some (u0 < u1) | COND_GEU \<Rightarrow> Some (u0 \<ge> u1)
   | COND_LEU \<Rightarrow> Some (u0 \<le> u1) | COND_GTU \<Rightarrow> Some (u0 > u1)
   | _ \<Rightarrow> None)"

definition tci_compare64 :: "u64 \<Rightarrow> u64 \<Rightarrow> tcg_cond \<Rightarrow> bool option" where
  "tci_compare64 u0 u1 c = (case c of
     COND_EQ \<Rightarrow> Some (u0 = u1) | COND_NE \<Rightarrow> Some (u0 \<noteq> u1)
   | COND_LT \<Rightarrow> Some (sint u0 < sint u1) | COND_GE \<Rightarrow> Some (sint u0 \<ge> sint u1)
   | COND_LE \<Rightarrow> Some (sint u0 \<le> sint u1) | COND_GT \<Rightarrow> Some (sint u0 > sint u1)
   | COND_LTU \<Rightarrow> Some (u0 < u1) | COND_GEU \<Rightarrow> Some (u0 \<ge> u1)
   | COND_LEU \<Rightarrow> Some (u0 \<le> u1) | COND_GTU \<Rightarrow> Some (u0 > u1)
   | _ \<Rightarrow> None)"

definition compare_w :: "width \<Rightarrow> u64 \<Rightarrow> u64 \<Rightarrow> tcg_cond \<Rightarrow> bool option" where
  "compare_w w x y c = (case w of
     W32 \<Rightarrow> tci_compare32 (ucast x) (ucast y) c | W64 \<Rightarrow> tci_compare64 x y c)"

text \<open>Arithmetic of 32 bit operations: operands are read as \<open>uint32_t\<close>, results written back so.\<close>

definition tci_arith_i32 :: "tcg_binop \<Rightarrow> u64 \<Rightarrow> u64 \<Rightarrow> u64 option" where
  "tci_arith_i32 opc x y =
     (let t1 = lo32 x; t2 = lo32 y in case opc of
        O_add \<Rightarrow> Some (lo32 (t1 + t2))
      | O_sub \<Rightarrow> Some (lo32 (t1 - t2))
      | O_mul \<Rightarrow> Some (lo32 (t1 * t2))
      | O_div \<Rightarrow> if int32 t2 = 0 \<or> (int32 t1 = - (2 ^ 31) \<and> int32 t2 = - 1) then None
                 else Some (of_int32 (int32 t1 sdiv int32 t2))
      | O_divu \<Rightarrow> if t2 = 0 then None else Some (lo32 (t1 div t2))
      | O_rem \<Rightarrow> if int32 t2 = 0 \<or> (int32 t1 = - (2 ^ 31) \<and> int32 t2 = - 1) then None
                 else Some (of_int32 (int32 t1 smod int32 t2))
      | O_remu \<Rightarrow> if t2 = 0 then None else Some (lo32 (t1 mod t2))
      | O_and \<Rightarrow> Some (lo32 (t1 AND t2))
      | O_or \<Rightarrow> Some (lo32 (t1 OR t2))
      | O_xor \<Rightarrow> Some (lo32 (t1 XOR t2))
      | _ \<Rightarrow> None)"

definition tci_shift_i32 :: "tcg_binop \<Rightarrow> u64 \<Rightarrow> u64 \<Rightarrow> u64 option" where
  "tci_shift_i32 opc x y =
     (let t1 = lo32 x; t2 = lo32 y in case opc of
        O_shl \<Rightarrow> map_option lo32 (ok (c_shl t1 (unat t2)))
      | O_shr \<Rightarrow> map_option lo32 (ok (c_shr t1 (unat t2)))
      | O_sar \<Rightarrow> map_option ucast (ok (c_sar (ucast t1 :: u32) (unat t2)))
      | O_rotl \<Rightarrow> map_option ucast (ok (rol32 (ucast t1) (unat t2)))
      | O_rotr \<Rightarrow> map_option ucast (ok (ror32 (ucast t1) (unat t2)))
      | _ \<Rightarrow> None)"

definition tci_deposit_i32 :: "u64 \<Rightarrow> u64 \<Rightarrow> nat \<Rightarrow> nat \<Rightarrow> u64 option" where
  "tci_deposit_i32 x y pos len =
     (let t1 = lo32 x; t2 = lo32 y in
      if len < 32 \<and> pos < 32
      then let tmp32 = (ucast (push_bit pos (push_bit len (1 :: u32) - 1)) :: u64)
           in Some (lo32 ((t1 AND NOT tmp32) OR (push_bit pos t2 AND tmp32)))
      else None)"

definition tci_arith_i64 :: "tcg_binop \<Rightarrow> u64 \<Rightarrow> u64 \<Rightarrow> u64 option" where
  "tci_arith_i64 opc t1 t2 = (case opc of
     O_add \<Rightarrow> Some (t1 + t2)
   | O_sub \<Rightarrow> Some (t1 - t2)
   | O_mul \<Rightarrow> Some (t1 * t2)
   | O_and \<Rightarrow> Some (t1 AND t2)
   | O_or \<Rightarrow> Some (t1 OR t2)
   | O_xor \<Rightarrow> Some (t1 XOR t2)
   | _ \<Rightarrow> None)"

definition tci_shift_i64 :: "tcg_binop \<Rightarrow> u64 \<Rightarrow> u64 \<Rightarrow> u64 option" where
  "tci_shift_i64 opc t1 t2 = (case opc of
     O_shl \<Rightarrow> ok (c_shl t1 (unat t2))
   | O_shr \<Rightarrow> ok (c_shr t1 (unat t2))
   | O_sar \<Rightarrow> ok (c_sar t1 (unat t2))
   | O_rotl \<Rightarrow> ok (rol64 t1 (unat (ucast t2 :: u32)))
   | O_rotr \<Rightarrow> ok (ror64 t1 (unat (ucast t2 :: u32)))
   | _ \<Rightarrow> None)"

definition tci_deposit_i64 :: "u64 \<Rightarrow> u64 \<Rightarrow> nat \<Rightarrow> nat \<Rightarrow> u64 option" where
  "tci_deposit_i64 t1 t2 pos len =
     (if len < 64 \<and> pos < 64
      then let tmp64 = push_bit pos (push_bit len 1 - 1)
           in Some ((t1 AND NOT tmp64) OR (push_bit pos t2 AND tmp64))
      else None)"

text \<open>Operations described by the instruction reference only.\<close>

definition ref_binop :: "tcg_binop \<Rightarrow> width \<Rightarrow> u64 \<Rightarrow> u64 \<Rightarrow> u64 option" where
  "ref_binop opc w x y =
     (let t1 = trunc_w w x; t2 = trunc_w w y in case opc of
        O_andc \<Rightarrow> Some (trunc_w w (t1 AND NOT t2))
      | O_orc \<Rightarrow> Some (trunc_w w (t1 OR NOT t2))
      | O_eqv \<Rightarrow> Some (trunc_w w (NOT (t1 XOR t2)))
      | O_nand \<Rightarrow> Some (trunc_w w (NOT (t1 AND t2)))
      | O_nor \<Rightarrow> Some (trunc_w w (NOT (t1 OR t2)))
      | O_muluh \<Rightarrow> Some (case w of
            W32 \<Rightarrow> of_nat ((unat t1 * unat t2) div 2 ^ 32)
          | W64 \<Rightarrow> of_nat ((unat t1 * unat t2) div 2 ^ 64))
      | O_mulsh \<Rightarrow> Some (case w of
            W32 \<Rightarrow> of_int32 ((int32 t1 * int32 t2) div 2 ^ 32)
          | W64 \<Rightarrow> word_of_int ((sint t1 * sint t2) div 2 ^ 64))
      | O_div \<Rightarrow> if t2 = 0 \<or> (sint t1 = - (2 ^ 63) \<and> sint t2 = - 1) then None
                 else Some (word_of_int (sint t1 sdiv sint t2))
      | O_divu \<Rightarrow> if t2 = 0 then None else Some (t1 div t2)
      | O_rem \<Rightarrow> if t2 = 0 \<or> (sint t1 = - (2 ^ 63) \<and> sint t2 = - 1) then None
                 else Some (word_of_int (sint t1 smod sint t2))
      | O_remu \<Rightarrow> if t2 = 0 then None else Some (t1 mod t2)
      | _ \<Rightarrow> None)"

definition eval_bin :: "tcg_binop \<Rightarrow> width \<Rightarrow> u64 \<Rightarrow> u64 \<Rightarrow> u64 option" where
  "eval_bin opc w x y =
     (if opc \<in> {O_shl, O_shr, O_sar, O_rotl, O_rotr}
      then (case w of W32 \<Rightarrow> tci_shift_i32 opc x y | W64 \<Rightarrow> tci_shift_i64 opc x y)
      else if opc \<in> {O_add, O_sub, O_mul, O_and, O_or, O_xor}
      then (case w of W32 \<Rightarrow> tci_arith_i32 opc x y | W64 \<Rightarrow> tci_arith_i64 opc x y)
      else if opc \<in> {O_div, O_divu, O_rem, O_remu} \<and> w = W32
      then tci_arith_i32 opc x y
      else ref_binop opc w x y)"

definition tci_unary_i32 :: "tcg_unop \<Rightarrow> u64 \<Rightarrow> u64 option" where
  "tci_unary_i32 opc x = (case opc of
     O_ext8s \<Rightarrow> Some (ucast (scast (ucast x :: u8) :: u32))
   | O_ext16s \<Rightarrow> Some (ucast (scast (ucast x :: u16) :: u32))
   | O_ext8u \<Rightarrow> Some (ucast (ucast x :: u8))
   | O_ext16u \<Rightarrow> Some (ucast (ucast x :: u16))
   | O_bswap16 \<Rightarrow> Some (ucast (bswap16 (ucast x)))
   | O_bswap32 \<Rightarrow> Some (ucast (bswap32 (ucast x)))
   | O_not \<Rightarrow> Some (lo32 (NOT (lo32 x)))
   | O_neg \<Rightarrow> Some (lo32 (- lo32 x))
   | _ \<Rightarrow> None)"

definition tci_unary_i64 :: "tcg_unop \<Rightarrow> u64 \<Rightarrow> u64 option" where
  "tci_unary_i64 opc x = (case opc of
     O_ext8u \<Rightarrow> Some (ucast (ucast x :: u8))
   | O_ext8s \<Rightarrow> Some (scast (ucast x :: u8))
   | O_ext16s \<Rightarrow> Some (scast (ucast x :: u16))
   | O_ext16u \<Rightarrow> Some (ucast (ucast x :: u16))
   | O_ext32s \<Rightarrow> Some (scast (ucast x :: u32))
   | O_ext32u \<Rightarrow> Some (ucast (ucast x :: u32))
   | O_bswap32 \<Rightarrow> Some (ucast (bswap32 (ucast x)))
   | O_bswap64 \<Rightarrow> Some (bswap64 x)
   | O_not \<Rightarrow> Some (NOT x)
   | O_neg \<Rightarrow> Some (- x)
   | O_bswap16 \<Rightarrow> None)"

definition eval_un :: "tcg_unop \<Rightarrow> width \<Rightarrow> u64 \<Rightarrow> u64 option" where
  "eval_un opc w x = (case w of W32 \<Rightarrow> tci_unary_i32 opc x | W64 \<Rightarrow> tci_unary_i64 opc x)"

definition eval_deposit :: "width \<Rightarrow> u64 \<Rightarrow> u64 \<Rightarrow> nat \<Rightarrow> nat \<Rightarrow> u64 option" where
  "eval_deposit w x y pos len = (case w of
     W32 \<Rightarrow> tci_deposit_i32 x y pos len | W64 \<Rightarrow> tci_deposit_i64 x y pos len)"

section \<open>Execution\<close>

text \<open>
  The machine around the generated code: host memory, guest memory behind the software MMU and
  helper functions.  None of it is under the control of the code generator; \<open>'w\<close> is the state it
  works on.  A helper gets the function, its arguments and the globals, and returns its results
  and new globals.
\<close>

record 'w machine =
  host_ld :: "nat \<Rightarrow> u64 \<Rightarrow> 'w \<Rightarrow> u64"
  host_st :: "nat \<Rightarrow> u64 \<Rightarrow> u64 \<Rightarrow> 'w \<Rightarrow> 'w"
  mmu_ld :: "nat \<Rightarrow> u64 \<Rightarrow> nat \<Rightarrow> 'w \<Rightarrow> u64 \<times> 'w"
  mmu_st :: "nat \<Rightarrow> u64 \<Rightarrow> u64 \<Rightarrow> nat \<Rightarrow> 'w \<Rightarrow> 'w"
  helper :: "u64 \<Rightarrow> u64 list \<Rightarrow> (nat \<Rightarrow> u64 option) \<Rightarrow> 'w \<Rightarrow> u64 list \<times> (nat \<Rightarrow> u64) \<times> 'w"
  tb_linked :: "nat \<Rightarrow> bool"

text \<open>The part of \<open>TCGContext\<close> the optimiser and the execution look at.\<close>

record tcg_context =
  nb_temps :: nat
  nb_globals :: nat
  temp_type :: "nat \<Rightarrow> width"
  temp_local :: "nat \<Rightarrow> bool"
  has_neg :: "width \<Rightarrow> bool"
  has_not :: "width \<Rightarrow> bool"

type_synonym regs = "nat \<Rightarrow> u64 option"

definition put :: "tcg_context \<Rightarrow> tmp \<Rightarrow> u64 \<Rightarrow> regs \<Rightarrow> regs" where
  "put C d v \<sigma> = \<sigma>(d := Some (trunc_w (temp_type C d) v))"

fun put_list :: "tcg_context \<Rightarrow> tmp list \<Rightarrow> u64 list \<Rightarrow> regs \<Rightarrow> regs" where
  "put_list C (d # ds) (v # vs) \<sigma> = put_list C ds vs (put C d v \<sigma>)"
| "put_list C (d # ds) [] \<sigma> = put_list C ds [] (\<sigma>(d := None))"
| "put_list C [] vs \<sigma> = \<sigma>"

fun get_list :: "regs \<Rightarrow> tmp list \<Rightarrow> u64 list option" where
  "get_list \<sigma> [] = Some []"
| "get_list \<sigma> (a # as) = (case (\<sigma> a, get_list \<sigma> as) of (Some x, Some xs) \<Rightarrow> Some (x # xs) | _ \<Rightarrow> None)"

definition call_globals_kept :: "u64 \<Rightarrow> bool" where
  "call_globals_kept flags \<longleftrightarrow> flags AND (0x0010 OR 0x0020) \<noteq> 0"

text \<open>
  Loads and stores of host memory.  The interpreter stops at \<open>ld8s\<close>, \<open>ld16u\<close> and \<open>ld16s\<close> with \<open>TODO()\<close>;
  they load a byte or a half word with sign or zero extension, as \<open>tcg/README\<close> defines them.
\<close>

definition exec_ld :: "'w machine \<Rightarrow> ld_kind \<Rightarrow> width \<Rightarrow> u64 \<Rightarrow> 'w \<Rightarrow> u64 option" where
  "exec_ld M k w a m = (case k of
     Ld8u \<Rightarrow> Some (ucast (ucast (host_ld M 1 a m) :: u8))
   | Ld8s \<Rightarrow> Some (trunc_w w (scast (ucast (host_ld M 1 a m) :: u8)))
   | Ld16u \<Rightarrow> Some (ucast (ucast (host_ld M 2 a m) :: u16))
   | Ld16s \<Rightarrow> Some (trunc_w w (scast (ucast (host_ld M 2 a m) :: u16)))
   | Ld32u \<Rightarrow> if w = W64 then Some (lo32 (host_ld M 4 a m)) else None
   | Ld32s \<Rightarrow> if w = W64 then Some (scast (ucast (host_ld M 4 a m) :: u32)) else None
   | Ld_full \<Rightarrow> (case w of W32 \<Rightarrow> Some (lo32 (host_ld M 4 a m)) | W64 \<Rightarrow> Some (host_ld M 8 a m)))"

definition exec_st :: "'w machine \<Rightarrow> st_kind \<Rightarrow> width \<Rightarrow> u64 \<Rightarrow> u64 \<Rightarrow> 'w \<Rightarrow> 'w option" where
  "exec_st M k w v a m = (case k of
     St8 \<Rightarrow> Some (host_st M 1 a (ucast (ucast v :: u8)) m)
   | St16 \<Rightarrow> Some (host_st M 2 a (ucast (ucast v :: u16)) m)
   | St32 \<Rightarrow> if w = W64 then Some (host_st M 4 a (lo32 v) m) else None
   | St_full \<Rightarrow> (case w of W32 \<Rightarrow> Some (host_st M 4 a (lo32 v) m) | W64 \<Rightarrow> Some (host_st M 8 a v m)))"

definition exec_qemu_ld :: "'w machine \<Rightarrow> qld_kind \<Rightarrow> u64 \<Rightarrow> nat \<Rightarrow> 'w \<Rightarrow> u64 \<times> 'w" where
  "exec_qemu_ld M k a idx m = (case k of
     Q8u \<Rightarrow> (case mmu_ld M 1 a idx m of (v, m) \<Rightarrow> (ucast (ucast v :: u8), m))
   | Q8s \<Rightarrow> (case mmu_ld M 1 a idx m of (v, m) \<Rightarrow> (scast (ucast v :: u8), m))
   | Q16u \<Rightarrow> (case mmu_ld M 2 a idx m of (v, m) \<Rightarrow> (ucast (ucast v :: u16), m))
   | Q16s \<Rightarrow> (case mmu_ld M 2 a idx m of (v, m) \<Rightarrow> (scast (ucast v :: u16), m))
   | Q32u \<Rightarrow> (case mmu_ld M 4 a idx m of (v, m) \<Rightarrow> (lo32 v, m))
   | Q32s \<Rightarrow> (case mmu_ld M 4 a idx m of (v, m) \<Rightarrow> (scast (ucast v :: u32), m))
   | Q32 \<Rightarrow> (case mmu_ld M 4 a idx m of (v, m) \<Rightarrow> (lo32 v, m))
   | Q64 \<Rightarrow> mmu_ld M 8 a idx m)"

definition exec_qemu_st :: "'w machine \<Rightarrow> st_kind \<Rightarrow> u64 \<Rightarrow> u64 \<Rightarrow> nat \<Rightarrow> 'w \<Rightarrow> 'w" where
  "exec_qemu_st M k v a idx m = (case k of
     St8 \<Rightarrow> mmu_st M 1 a (ucast (ucast v :: u8)) idx m
   | St16 \<Rightarrow> mmu_st M 2 a (ucast (ucast v :: u16)) idx m
   | St32 \<Rightarrow> mmu_st M 4 a (lo32 v) idx m
   | St_full \<Rightarrow> mmu_st M 8 a v idx m)"

text \<open>Double words of 32 bit halves, and of 64 bit halves.\<close>

definition join32 :: "u64 \<Rightarrow> u64 \<Rightarrow> u64" where
  "join32 high low = push_bit 32 (lo32 high) + lo32 low"

definition add2_w :: "width \<Rightarrow> bool \<Rightarrow> u64 \<Rightarrow> u64 \<Rightarrow> u64 \<Rightarrow> u64 \<Rightarrow> u64 \<times> u64" where
  "add2_w w is_sub al ah bl bh = (case w of
     W32 \<Rightarrow> let r = (if is_sub then join32 ah al - join32 bh bl else join32 ah al + join32 bh bl)
            in (lo32 r, hi32 r)
   | W64 \<Rightarrow> if is_sub then (al - bl, ah - bh - of_bool (al < bl))
            else (al + bl, ah + bh + of_bool (al + bl < al)))"

definition mul2_w :: "width \<Rightarrow> bool \<Rightarrow> u64 \<Rightarrow> u64 \<Rightarrow> u64 \<times> u64" where
  "mul2_w w is_signed a b = (case w of
     W32 \<Rightarrow> let r = (if is_signed then (word_of_int (int32 a * int32 b) :: u64) else lo32 a * lo32 b)
            in (lo32 r, hi32 r)
   | W64 \<Rightarrow> if is_signed then muls64 a b else mulu64 a b)"

text \<open>Operations without control flow.\<close>

fun exec_op :: "'w machine \<Rightarrow> tcg_context \<Rightarrow> tcg_op \<Rightarrow> regs \<times> 'w \<Rightarrow> (regs \<times> 'w) option" where
  "exec_op M C Op_nop (\<sigma>, m) = Some (\<sigma>, m)"
| "exec_op M C (Op_discard d) (\<sigma>, m) = Some (\<sigma>(d := None), m)"
| "exec_op M C (Op_call outs ins flags) (\<sigma>, m) =
     (case get_list \<sigma> ins of None \<Rightarrow> None | Some [] \<Rightarrow> None | Some (x # xs) \<Rightarrow>
        (case helper M (last (x # xs)) (butlast (x # xs)) (\<lambda>g. if g < nb_globals C then \<sigma> g else None) m of (vs, gs, m') \<Rightarrow>
           let \<sigma>' = (if call_globals_kept flags then \<sigma>
                     else (\<lambda>t. if t < nb_globals C then Some (trunc_w (temp_type C t) (gs t)) else \<sigma> t))
           in Some (put_list C outs vs \<sigma>', m')))"
| "exec_op M C (Op_mov w d a) (\<sigma>, m) =
     (case \<sigma> a of Some x \<Rightarrow> Some (put C d (trunc_w w x) \<sigma>, m) | None \<Rightarrow> None)"
| "exec_op M C (Op_movi w d v) (\<sigma>, m) = Some (put C d (trunc_w w v) \<sigma>, m)"
| "exec_op M C (Op_un opc w d a) (\<sigma>, m) =
     (case \<sigma> a of Some x \<Rightarrow> map_option (\<lambda>v. (put C d v \<sigma>, m)) (eval_un opc w x) | None \<Rightarrow> None)"
| "exec_op M C (Op_bin opc w d a b) (\<sigma>, m) =
     (case (\<sigma> a, \<sigma> b) of
        (Some x, Some y) \<Rightarrow> map_option (\<lambda>v. (put C d v \<sigma>, m)) (eval_bin opc w x y) | _ \<Rightarrow> None)"
| "exec_op M C (Op_deposit w d a b pos len) (\<sigma>, m) =
     (case (\<sigma> a, \<sigma> b) of
        (Some x, Some y) \<Rightarrow> map_option (\<lambda>v. (put C d v \<sigma>, m)) (eval_deposit w x y pos len) | _ \<Rightarrow> None)"
| "exec_op M C (Op_setcond w d a b c) (\<sigma>, m) =
     (case (\<sigma> a, \<sigma> b) of
        (Some x, Some y) \<Rightarrow> map_option (\<lambda>r. (put C d (of_bool r) \<sigma>, m)) (compare_w w x y c) | _ \<Rightarrow> None)"
| "exec_op M C (Op_movcond w d c1 c2 v1 v2 c) (\<sigma>, m) =
     (case (\<sigma> c1, \<sigma> c2, \<sigma> v1, \<sigma> v2) of
        (Some x, Some y, Some u, Some v) \<Rightarrow>
          map_option (\<lambda>r. (put C d (trunc_w w (if r then u else v)) \<sigma>, m)) (compare_w w x y c)
      | _ \<Rightarrow> None)"
| "exec_op M C (Op_add2 w rl rh al ah bl bh) (\<sigma>, m) =
     (case (\<sigma> al, \<sigma> ah, \<sigma> bl, \<sigma> bh) of
        (Some a0, Some a1, Some b0, Some b1) \<Rightarrow>
          (case add2_w w False a0 a1 b0 b1 of (l, h) \<Rightarrow> Some (put C rh h (put C rl l \<sigma>), m))
      | _ \<Rightarrow> None)"
| "exec_op M C (Op_sub2 w rl rh al ah bl bh) (\<sigma>, m) =
     (case (\<sigma> al, \<sigma> ah, \<sigma> bl, \<sigma> bh) of
        (Some a0, Some a1, Some b0, Some b1) \<Rightarrow>
          (case add2_w w True a0 a1 b0 b1 of (l, h) \<Rightarrow> Some (put C rh h (put C rl l \<sigma>), m))
      | _ \<Rightarrow> None)"
| "exec_op M C (Op_mulu2 w rl rh a b) (\<sigma>, m) =
     (case (\<sigma> a, \<sigma> b) of
        (Some x, Some y) \<Rightarrow>
          (case mul2_w w False x y of (l, h) \<Rightarrow> Some (put C rh h (put C rl l \<sigma>), m))
      | _ \<Rightarrow> None)"
| "exec_op M C (Op_muls2 w rl rh a b) (\<sigma>, m) =
     (case (\<sigma> a, \<sigma> b) of
        (Some x, Some y) \<Rightarrow>
          (case mul2_w w True x y of (l, h) \<Rightarrow> Some (put C rh h (put C rl l \<sigma>), m))
      | _ \<Rightarrow> None)"
| "exec_op M C (Op_setcond2 d al ah bl bh c) (\<sigma>, m) =
     (case (\<sigma> al, \<sigma> ah, \<sigma> bl, \<sigma> bh) of
        (Some a0, Some a1, Some b0, Some b1) \<Rightarrow>
          map_option (\<lambda>r. (put C d (of_bool r) \<sigma>, m)) (tci_compare64 (join32 a1 a0) (join32 b1 b0) c)
      | _ \<Rightarrow> None)"
| "exec_op M C (Op_ld k w d a off) (\<sigma>, m) =
     (case \<sigma> a of Some x \<Rightarrow> map_option (\<lambda>v. (put C d v \<sigma>, m)) (exec_ld M k w (x + off) m) | None \<Rightarrow> None)"
| "exec_op M C (Op_st k w v a off) (\<sigma>, m) =
     (case (\<sigma> v, \<sigma> a) of
        (Some x, Some y) \<Rightarrow> map_option (\<lambda>m'. (\<sigma>, m')) (exec_st M k w x (y + off) m) | _ \<Rightarrow> None)"
| "exec_op M C (Op_qemu_ld k d a idx) (\<sigma>, m) =
     (case \<sigma> a of Some x \<Rightarrow> (case exec_qemu_ld M k x idx m of (v, m') \<Rightarrow> Some (put C d v \<sigma>, m'))
      | None \<Rightarrow> None)"
| "exec_op M C (Op_qemu_st k v a idx) (\<sigma>, m) =
     (case (\<sigma> v, \<sigma> a) of (Some x, Some y) \<Rightarrow> Some (\<sigma>, exec_qemu_st M k x y idx m) | _ \<Rightarrow> None)"
| "exec_op M C (Op_set_label l) s = Some s"
| "exec_op M C _ s = None"

text \<open>
  A translation block runs from its first operation.  A branch goes to the operations behind the
  label; \<open>exit_tb\<close> and a linked \<open>goto_tb\<close> leave the block.  The number bounds the operations
  executed; \<open>None\<close> is also the result of an undefined operation and of running off the end.
\<close>

datatype 'w tb_exit = Exit_tb u64 regs 'w | Goto_tb nat regs 'w

fun find_label :: "tcg_op list \<Rightarrow> label \<Rightarrow> tcg_op list option" where
  "find_label [] l = None"
| "find_label (i # rest) l = (if i = Op_set_label l then Some rest else find_label rest l)"

definition jump :: "tcg_op list \<Rightarrow> label \<Rightarrow> (tcg_op list \<Rightarrow> 'r option) \<Rightarrow> 'r option" where
  "jump P l k = (case find_label P l of Some rest \<Rightarrow> k rest | None \<Rightarrow> None)"

fun exec_tb :: "'w machine \<Rightarrow> tcg_context \<Rightarrow> tcg_op list \<Rightarrow> nat \<Rightarrow> tcg_op list \<Rightarrow> regs \<times> 'w \<Rightarrow> 'w tb_exit option" where
  "exec_tb M C P 0 rest s = None"
| "exec_tb M C P (Suc n) [] s = None"
| "exec_tb M C P (Suc n) (i # rest) (\<sigma>, m) = (case i of
     Op_br l \<Rightarrow> jump P l (\<lambda>js. exec_tb M C P n js (\<sigma>, m))
   | Op_brcond w a b c l \<Rightarrow>
       (case (\<sigma> a, \<sigma> b) of
          (Some x, Some y) \<Rightarrow> (case compare_w w x y c of
             Some True \<Rightarrow> jump P l (\<lambda>js. exec_tb M C P n js (\<sigma>, m))
           | Some False \<Rightarrow> exec_tb M C P n rest (\<sigma>, m)
           | None \<Rightarrow> None)
        | _ \<Rightarrow> None)
   | Op_brcond2 al ah bl bh c l \<Rightarrow>
       (case (\<sigma> al, \<sigma> ah, \<sigma> bl, \<sigma> bh) of
          (Some a0, Some a1, Some b0, Some b1) \<Rightarrow>
             (case tci_compare64 (join32 a1 a0) (join32 b1 b0) c of
                Some True \<Rightarrow> jump P l (\<lambda>js. exec_tb M C P n js (\<sigma>, m))
              | Some False \<Rightarrow> exec_tb M C P n rest (\<sigma>, m)
              | None \<Rightarrow> None)
        | _ \<Rightarrow> None)
   | Op_goto_tb j \<Rightarrow>
       if tb_linked M j then Some (Goto_tb j \<sigma> m) else exec_tb M C P n rest (\<sigma>, m)
   | Op_exit_tb v \<Rightarrow> Some (Exit_tb v \<sigma> m)
   | _ \<Rightarrow> (case exec_op M C i (\<sigma>, m) of Some s' \<Rightarrow> exec_tb M C P n rest s' | None \<Rightarrow> None))"

end
