(* ===== verification/Tcg_Optimize.thy ===== *)
theory Tcg_Optimize
  imports Tcg_Ops
begin

text \<open>
  The optimiser of the code generator, \<open>tcg/optimize.c\<close>: what it knows about every temporary, the
  constant folder, and the pass over the operations with all its simplifications.  The operation
  buffer is a list; the source writes the new operations over the old ones in place, which the
  model does not show.  A loop over the circular list of copies carries a bound, the number of
  temporaries, and fails when the bound does not suffice.
\<close>

section \<open>What is known about a temporary\<close>

datatype tcg_temp_state = TEMP_UNDEF | TEMP_CONST | TEMP_COPY

record tcg_temp_info =
  t_state :: tcg_temp_state
  prev_copy :: nat
  next_copy :: nat
  t_val :: u64
  t_mask :: u64

type_synonym temps = "nat \<Rightarrow> tcg_temp_info"

definition is_const :: "temps \<Rightarrow> tmp \<Rightarrow> bool" where
  "is_const T t \<longleftrightarrow> t_state (T t) = TEMP_CONST"

definition is_const_val :: "temps \<Rightarrow> tmp \<Rightarrow> u64 \<Rightarrow> bool" where
  "is_const_val T t v \<longleftrightarrow> t_state (T t) = TEMP_CONST \<and> t_val (T t) = v"

definition set_state :: "tcg_temp_state \<Rightarrow> tmp \<Rightarrow> temps \<Rightarrow> temps" where
  "set_state s t T = T(t := (T t)\<lparr>t_state := s\<rparr>)"

definition set_mask :: "u64 \<Rightarrow> tmp \<Rightarrow> temps \<Rightarrow> temps" where
  "set_mask m t T = T(t := (T t)\<lparr>t_mask := m\<rparr>)"

definition set_next :: "nat \<Rightarrow> tmp \<Rightarrow> temps \<Rightarrow> temps" where
  "set_next n t T = T(t := (T t)\<lparr>next_copy := n\<rparr>)"

definition set_prev :: "nat \<Rightarrow> tmp \<Rightarrow> temps \<Rightarrow> temps" where
  "set_prev n t T = T(t := (T t)\<lparr>prev_copy := n\<rparr>)"

definition set_val :: "u64 \<Rightarrow> tmp \<Rightarrow> temps \<Rightarrow> temps" where
  "set_val v t T = T(t := (T t)\<lparr>t_val := v\<rparr>)"

definition unlink_temp :: "tmp \<Rightarrow> temps \<Rightarrow> temps" where
  "unlink_temp t T =
     (if t_state (T t) = TEMP_COPY
      then if prev_copy (T t) = next_copy (T t)
           then set_state TEMP_UNDEF (next_copy (T t)) T
           else let T = set_prev (prev_copy (T t)) (next_copy (T t)) T
                in set_next (next_copy (T t)) (prev_copy (T t)) T
      else T)"

definition reset_temp :: "tmp \<Rightarrow> temps \<Rightarrow> temps" where
  "reset_temp t T = set_mask (- 1) t (set_state TEMP_UNDEF t (unlink_temp t T))"

definition reset_all_temps :: "nat \<Rightarrow> temps \<Rightarrow> temps" where
  "reset_all_temps n T =
     (\<lambda>i. if i < n then (T i)\<lparr>t_state := TEMP_UNDEF, t_mask := - 1\<rparr> else T i)"

fun find_copy :: "temps \<Rightarrow> (nat \<Rightarrow> bool) \<Rightarrow> tmp \<Rightarrow> nat \<Rightarrow> nat \<Rightarrow> c_error + nat option" where
  "find_copy T P temp 0 i = Inl No_return"
| "find_copy T P temp (Suc n) i =
     (if i = temp then Inr None
      else if P i then Inr (Some i)
      else find_copy T P temp n (next_copy (T i)))"

definition find_better_copy :: "tcg_context \<Rightarrow> temps \<Rightarrow> tmp \<Rightarrow> c_error + tmp" where
  "find_better_copy C T temp =
     (if temp < nb_globals C then Inr temp
      else sbind (find_copy T (\<lambda>i. i < nb_globals C) temp (nb_temps C) (next_copy (T temp))) (\<lambda>r.
        case r of Some i \<Rightarrow> Inr i | None \<Rightarrow>
          if \<not> temp_local C temp
          then sbind (find_copy T (temp_local C) temp (nb_temps C) (next_copy (T temp))) (\<lambda>r.
                 case r of Some i \<Rightarrow> Inr i | None \<Rightarrow> Inr temp)
          else Inr temp))"

definition temps_are_copies :: "tcg_context \<Rightarrow> temps \<Rightarrow> tmp \<Rightarrow> tmp \<Rightarrow> c_error + bool" where
  "temps_are_copies C T arg1 arg2 =
     (if arg1 = arg2 then Inr True
      else if t_state (T arg1) \<noteq> TEMP_COPY \<or> t_state (T arg2) \<noteq> TEMP_COPY then Inr False
      else sbind (find_copy T (\<lambda>i. i = arg2) arg1 (nb_temps C) (next_copy (T arg1))) (\<lambda>r.
             Inr (r \<noteq> None)))"

text \<open>The opcode flags of \<open>tcg/tcg-opc.h\<close> the optimiser reads, for a 64 bit host.\<close>

definition flag_64bit :: "tcg_op \<Rightarrow> bool" where
  "flag_64bit opn = (case opn of
     Op_mov w _ _ \<Rightarrow> w = W64
   | Op_movi w _ _ \<Rightarrow> w = W64
   | Op_un _ w _ _ \<Rightarrow> w = W64
   | Op_bin opc w _ _ _ \<Rightarrow> w = W64 \<and> opc \<noteq> O_muluh \<and> opc \<noteq> O_mulsh
   | Op_deposit w _ _ _ _ _ \<Rightarrow> w = W64
   | Op_setcond w _ _ _ _ \<Rightarrow> w = W64
   | Op_movcond w _ _ _ _ _ _ \<Rightarrow> w = W64
   | Op_brcond w _ _ _ _ \<Rightarrow> w = W64
   | Op_add2 w _ _ _ _ _ _ \<Rightarrow> w = W64
   | Op_sub2 w _ _ _ _ _ _ \<Rightarrow> w = W64
   | Op_mulu2 w _ _ _ _ \<Rightarrow> w = W64
   | Op_muls2 w _ _ _ _ \<Rightarrow> w = W64
   | Op_ld _ w _ _ _ \<Rightarrow> w = W64
   | Op_st _ w _ _ _ \<Rightarrow> w = W64
   | Op_qemu_ld _ _ _ _ \<Rightarrow> True
   | Op_qemu_st _ _ _ _ \<Rightarrow> True
   | _ \<Rightarrow> False)"

definition flag_call_clobber :: "tcg_op \<Rightarrow> bool" where
  "flag_call_clobber opn = (case opn of
     Op_call _ _ _ \<Rightarrow> True | Op_qemu_ld _ _ _ _ \<Rightarrow> True | Op_qemu_st _ _ _ _ \<Rightarrow> True | _ \<Rightarrow> False)"

definition flag_bb_end :: "tcg_op \<Rightarrow> bool" where
  "flag_bb_end opn = (case opn of
     Op_set_label _ \<Rightarrow> True | Op_br _ \<Rightarrow> True | Op_brcond _ _ _ _ _ \<Rightarrow> True
   | Op_brcond2 _ _ _ _ _ _ \<Rightarrow> True | Op_exit_tb _ \<Rightarrow> True | Op_goto_tb _ \<Rightarrow> True | _ \<Rightarrow> False)"

definition op_bits :: "tcg_op \<Rightarrow> width" where
  "op_bits opn = (if flag_64bit opn then W64 else W32)"

definition op_to_movi :: "tcg_op \<Rightarrow> tmp \<Rightarrow> u64 \<Rightarrow> tcg_op" where
  "op_to_movi opn = Op_movi (op_bits opn)"

definition op_to_mov :: "tcg_op \<Rightarrow> tmp \<Rightarrow> tmp \<Rightarrow> tcg_op" where
  "op_to_mov opn = Op_mov (op_bits opn)"

definition op_outs :: "tcg_op \<Rightarrow> tmp list" where
  "op_outs opn = (case opn of
     Op_discard d \<Rightarrow> [d] | Op_call outs _ _ \<Rightarrow> outs
   | Op_mov _ d _ \<Rightarrow> [d] | Op_movi _ d _ \<Rightarrow> [d] | Op_un _ _ d _ \<Rightarrow> [d] | Op_bin _ _ d _ _ \<Rightarrow> [d]
   | Op_deposit _ d _ _ _ _ \<Rightarrow> [d] | Op_setcond _ d _ _ _ \<Rightarrow> [d] | Op_movcond _ d _ _ _ _ _ \<Rightarrow> [d]
   | Op_add2 _ rl rh _ _ _ _ \<Rightarrow> [rl, rh] | Op_sub2 _ rl rh _ _ _ _ \<Rightarrow> [rl, rh]
   | Op_mulu2 _ rl rh _ _ \<Rightarrow> [rl, rh] | Op_muls2 _ rl rh _ _ \<Rightarrow> [rl, rh]
   | Op_setcond2 d _ _ _ _ _ \<Rightarrow> [d] | Op_ld _ _ d _ _ \<Rightarrow> [d] | Op_qemu_ld _ d _ _ \<Rightarrow> [d]
   | _ \<Rightarrow> [])"

definition tcg_opt_gen_mov :: "tcg_context \<Rightarrow> temps \<Rightarrow> tmp \<Rightarrow> tmp \<Rightarrow> c_error + temps" where
  "tcg_opt_gen_mov C T dst src =
     (let T = reset_temp dst T;
          T = set_mask (t_mask (T src)) dst T
      in sbind (c_assert (t_state (T src) \<noteq> TEMP_CONST)) (\<lambda>_. Inr
           (if temp_type C src = temp_type C dst
            then let T = (if t_state (T src) \<noteq> TEMP_COPY
                          then set_prev src src (set_next src src (set_state TEMP_COPY src T))
                          else T);
                     T = set_prev src dst (set_next (next_copy (T src)) dst (set_state TEMP_COPY dst T));
                     T = set_prev dst (next_copy (T dst)) T
                 in set_next dst src T
            else T)))"

definition tcg_opt_gen_movi :: "temps \<Rightarrow> tmp \<Rightarrow> u64 \<Rightarrow> temps" where
  "tcg_opt_gen_movi T dst v =
     set_mask v dst (set_val v dst (set_state TEMP_CONST dst (reset_temp dst T)))"

section \<open>The constant folder\<close>

definition c_sdiv :: "int \<Rightarrow> int \<Rightarrow> int \<Rightarrow> c_error + int" where
  "c_sdiv least x y =
     (if y = 0 then Inl Div_by_zero else if x = least \<and> y = - 1 then Inl Div_overflow else Inr (x sdiv y))"

definition c_smod :: "int \<Rightarrow> int \<Rightarrow> int \<Rightarrow> c_error + int" where
  "c_smod least x y =
     (if y = 0 then Inl Div_by_zero else if x = least \<and> y = - 1 then Inl Div_overflow else Inr (x smod y))"

definition map_sum_r :: "('a \<Rightarrow> 'b) \<Rightarrow> c_error + 'a \<Rightarrow> c_error + 'b" where
  "map_sum_r f m = sbind m (\<lambda>x. Inr (f x))"

text \<open>\<open>or1 y\<close> is \<open>y ? : 1\<close>.\<close>

definition or1 :: "'a::zero_neq_one \<Rightarrow> 'a" where
  "or1 y = (if y = 0 then 1 else y)"

definition fold_bin_2 :: "tcg_binop \<Rightarrow> width \<Rightarrow> u64 \<Rightarrow> u64 \<Rightarrow> c_error + u64" where
  "fold_bin_2 opc w x y = (case opc of
     O_add \<Rightarrow> Inr (x + y)
   | O_sub \<Rightarrow> Inr (x - y)
   | O_mul \<Rightarrow> Inr (x * y)
   | O_and \<Rightarrow> Inr (x AND y)
   | O_or \<Rightarrow> Inr (x OR y)
   | O_xor \<Rightarrow> Inr (x XOR y)
   | O_shl \<Rightarrow> (case w of
        W32 \<Rightarrow> map_sum_r ucast (c_shl (ucast x :: u32) (unat (ucast y :: u32)))
      | W64 \<Rightarrow> c_shl x (unat y))
   | O_shr \<Rightarrow> (case w of
        W32 \<Rightarrow> map_sum_r ucast (c_shr (ucast x :: u32) (unat (ucast y :: u32)))
      | W64 \<Rightarrow> c_shr x (unat y))
   | O_sar \<Rightarrow> (case w of
        W32 \<Rightarrow> map_sum_r scast (c_sar (ucast x :: u32) (unat (ucast y :: u32)))
      | W64 \<Rightarrow> c_sar x (unat y))
   | O_rotr \<Rightarrow> (case w of
        W32 \<Rightarrow> map_sum_r ucast (ror32 (ucast x) (unat (ucast y :: u32)))
      | W64 \<Rightarrow> ror64 x (unat (ucast y :: u32)))
   | O_rotl \<Rightarrow> (case w of
        W32 \<Rightarrow> map_sum_r ucast (rol32 (ucast x) (unat (ucast y :: u32)))
      | W64 \<Rightarrow> rol64 x (unat (ucast y :: u32)))
   | O_andc \<Rightarrow> Inr (x AND NOT y)
   | O_orc \<Rightarrow> Inr (x OR NOT y)
   | O_eqv \<Rightarrow> Inr (NOT (x XOR y))
   | O_nand \<Rightarrow> Inr (NOT (x AND y))
   | O_nor \<Rightarrow> Inr (NOT (x OR y))
   | O_muluh \<Rightarrow> (case w of
        W32 \<Rightarrow> Inr (drop_bit 32 (lo32 x * lo32 y))
      | W64 \<Rightarrow> Inr (snd (mulu64 x y)))
   | O_mulsh \<Rightarrow> (case w of
        W32 \<Rightarrow> Inr (signed_drop_bit 32 (scast (ucast x :: u32) * scast (ucast y :: u32)))
      | W64 \<Rightarrow> Inr (snd (muls64 x y)))
   | O_div \<Rightarrow> (case w of
        W32 \<Rightarrow> map_sum_r word_of_int (c_sdiv (- (2 ^ 31)) (int32 x) (or1 (int32 y)))
      | W64 \<Rightarrow> map_sum_r word_of_int (c_sdiv (- (2 ^ 63)) (sint x) (or1 (sint y))))
   | O_divu \<Rightarrow> (case w of
        W32 \<Rightarrow> Inr (ucast ((ucast x :: u32) div or1 (ucast y)))
      | W64 \<Rightarrow> Inr (x div or1 y))
   | O_rem \<Rightarrow> (case w of
        W32 \<Rightarrow> map_sum_r word_of_int (c_smod (- (2 ^ 31)) (int32 x) (or1 (int32 y)))
      | W64 \<Rightarrow> map_sum_r word_of_int (c_smod (- (2 ^ 63)) (sint x) (or1 (sint y))))
   | O_remu \<Rightarrow> (case w of
        W32 \<Rightarrow> Inr (ucast ((ucast x :: u32) mod or1 (ucast y)))
      | W64 \<Rightarrow> Inr (x mod or1 y)))"

definition fold_un_2 :: "tcg_unop \<Rightarrow> width \<Rightarrow> u64 \<Rightarrow> c_error + u64" where
  "fold_un_2 opc w x = (case opc of
     O_not \<Rightarrow> Inr (NOT x)
   | O_neg \<Rightarrow> Inr (- x)
   | O_ext8s \<Rightarrow> Inr (scast (ucast x :: u8))
   | O_ext16s \<Rightarrow> Inr (scast (ucast x :: u16))
   | O_ext8u \<Rightarrow> Inr (ucast (ucast x :: u8))
   | O_ext16u \<Rightarrow> Inr (ucast (ucast x :: u16))
   | O_ext32s \<Rightarrow> Inr (scast (ucast x :: u32))
   | O_ext32u \<Rightarrow> Inr (ucast (ucast x :: u32))
   | _ \<Rightarrow> Inl Aborted)"

definition mask_bits :: "tcg_op \<Rightarrow> u64 \<Rightarrow> u64" where
  "mask_bits opn res = (case op_bits opn of W32 \<Rightarrow> res AND 0xffffffff | W64 \<Rightarrow> res)"

definition do_constant_folding :: "tcg_op \<Rightarrow> u64 \<Rightarrow> u64 \<Rightarrow> c_error + u64" where
  "do_constant_folding opn x y = (case opn of
     Op_bin opc w _ _ _ \<Rightarrow> map_sum_r (mask_bits opn) (fold_bin_2 opc w x y)
   | Op_un opc w _ _ \<Rightarrow> map_sum_r (mask_bits opn) (fold_un_2 opc w x)
   | _ \<Rightarrow> Inl Aborted)"

definition do_constant_folding_cond_32 :: "u32 \<Rightarrow> u32 \<Rightarrow> tcg_cond \<Rightarrow> c_error + bool" where
  "do_constant_folding_cond_32 x y c = (case c of
     COND_EQ \<Rightarrow> Inr (x = y) | COND_NE \<Rightarrow> Inr (x \<noteq> y)
   | COND_LT \<Rightarrow> Inr (sint x < sint y) | COND_GE \<Rightarrow> Inr (sint x \<ge> sint y)
   | COND_LE \<Rightarrow> Inr (sint x \<le> sint y) | COND_GT \<Rightarrow> Inr (sint x > sint y)
   | COND_LTU \<Rightarrow> Inr (x < y) | COND_GEU \<Rightarrow> Inr (x \<ge> y)
   | COND_LEU \<Rightarrow> Inr (x \<le> y) | COND_GTU \<Rightarrow> Inr (x > y)
   | _ \<Rightarrow> Inl Aborted)"

definition do_constant_folding_cond_64 :: "u64 \<Rightarrow> u64 \<Rightarrow> tcg_cond \<Rightarrow> c_error + bool" where
  "do_constant_folding_cond_64 x y c = (case c of
     COND_EQ \<Rightarrow> Inr (x = y) | COND_NE \<Rightarrow> Inr (x \<noteq> y)
   | COND_LT \<Rightarrow> Inr (sint x < sint y) | COND_GE \<Rightarrow> Inr (sint x \<ge> sint y)
   | COND_LE \<Rightarrow> Inr (sint x \<le> sint y) | COND_GT \<Rightarrow> Inr (sint x > sint y)
   | COND_LTU \<Rightarrow> Inr (x < y) | COND_GEU \<Rightarrow> Inr (x \<ge> y)
   | COND_LEU \<Rightarrow> Inr (x \<le> y) | COND_GTU \<Rightarrow> Inr (x > y)
   | _ \<Rightarrow> Inl Aborted)"

definition do_constant_folding_cond_eq :: "tcg_cond \<Rightarrow> c_error + bool" where
  "do_constant_folding_cond_eq c =
     (if c \<in> {COND_GT, COND_LTU, COND_LT, COND_GTU, COND_NE} then Inr False
      else if c \<in> {COND_GE, COND_GEU, COND_LE, COND_LEU, COND_EQ} then Inr True
      else Inl Aborted)"

text \<open>\<open>None\<close> is the result 2 of the source: the condition cannot be simplified.\<close>

definition do_constant_folding_cond ::
  "tcg_context \<Rightarrow> temps \<Rightarrow> width \<Rightarrow> tmp \<Rightarrow> tmp \<Rightarrow> tcg_cond \<Rightarrow> c_error + bool option" where
  "do_constant_folding_cond C T w x y c =
     (if is_const T x \<and> is_const T y
      then (case w of
         W32 \<Rightarrow> map_sum_r Some (do_constant_folding_cond_32 (ucast (t_val (T x))) (ucast (t_val (T y))) c)
       | W64 \<Rightarrow> map_sum_r Some (do_constant_folding_cond_64 (t_val (T x)) (t_val (T y)) c))
      else sbind (temps_are_copies C T x y) (\<lambda>cp.
        if cp then map_sum_r Some (do_constant_folding_cond_eq c)
        else if is_const_val T y 0
        then (case c of COND_LTU \<Rightarrow> Inr (Some False) | COND_GEU \<Rightarrow> Inr (Some True) | _ \<Rightarrow> Inr None)
        else Inr None))"

definition do_constant_folding_cond2 ::
  "tcg_context \<Rightarrow> temps \<Rightarrow> tmp \<Rightarrow> tmp \<Rightarrow> tmp \<Rightarrow> tmp \<Rightarrow> tcg_cond \<Rightarrow> c_error + bool option" where
  "do_constant_folding_cond2 C T al ah bl bh c =
     (let b = push_bit 32 (t_val (T bh)) OR lo32 (t_val (T bl));
          a = push_bit 32 (t_val (T ah)) OR lo32 (t_val (T al));
          copies = sbind (temps_are_copies C T al bl) (\<lambda>c1.
            if c1 then sbind (temps_are_copies C T ah bh) (\<lambda>c2.
              if c2 then map_sum_r Some (do_constant_folding_cond_eq c) else Inr None)
            else Inr None)
      in if is_const T bl \<and> is_const T bh
         then if is_const T al \<and> is_const T ah then map_sum_r Some (do_constant_folding_cond_64 a b c)
              else if b = 0 \<and> c = COND_LTU then Inr (Some False)
              else if b = 0 \<and> c = COND_GEU then Inr (Some True)
              else copies
         else copies)"

definition swap_commutative :: "temps \<Rightarrow> tmp option \<Rightarrow> tmp \<Rightarrow> tmp \<Rightarrow> bool" where
  "swap_commutative T dest a1 a2 =
     (let sum = (of_bool (is_const T a1) - of_bool (is_const T a2) :: int)
      in sum > 0 \<or> (sum = 0 \<and> dest = Some a2))"

definition swap_commutative2 :: "temps \<Rightarrow> tmp \<Rightarrow> tmp \<Rightarrow> tmp \<Rightarrow> tmp \<Rightarrow> bool" where
  "swap_commutative2 T p10 p11 p20 p21 =
     (of_bool (is_const T p10) + of_bool (is_const T p11)
      - of_bool (is_const T p20) - of_bool (is_const T p21) > (0 :: int))"

section \<open>The pass over one operation\<close>

text \<open>Copy propagation: every input that is a copy is replaced by a better one.\<close>

definition prop_arg :: "tcg_context \<Rightarrow> temps \<Rightarrow> tmp \<Rightarrow> c_error + tmp" where
  "prop_arg C T a = (if t_state (T a) = TEMP_COPY then find_better_copy C T a else Inr a)"

fun prop_args :: "tcg_context \<Rightarrow> temps \<Rightarrow> tmp list \<Rightarrow> c_error + tmp list" where
  "prop_args C T [] = Inr []"
| "prop_args C T (a # as) =
     sbind (prop_arg C T a) (\<lambda>a'. sbind (prop_args C T as) (\<lambda>as'. Inr (a' # as')))"

definition op_ins :: "tcg_op \<Rightarrow> tmp list" where
  "op_ins opn = (case opn of
     Op_call _ ins _ \<Rightarrow> ins
   | Op_mov _ _ a \<Rightarrow> [a] | Op_un _ _ _ a \<Rightarrow> [a] | Op_bin _ _ _ a b \<Rightarrow> [a, b]
   | Op_deposit _ _ a b _ _ \<Rightarrow> [a, b] | Op_setcond _ _ a b _ \<Rightarrow> [a, b]
   | Op_movcond _ _ c1 c2 v1 v2 _ \<Rightarrow> [c1, c2, v1, v2] | Op_brcond _ a b _ _ \<Rightarrow> [a, b]
   | Op_add2 _ _ _ al ah bl bh \<Rightarrow> [al, ah, bl, bh] | Op_sub2 _ _ _ al ah bl bh \<Rightarrow> [al, ah, bl, bh]
   | Op_mulu2 _ _ _ a b \<Rightarrow> [a, b] | Op_muls2 _ _ _ a b \<Rightarrow> [a, b]
   | Op_brcond2 al ah bl bh _ _ \<Rightarrow> [al, ah, bl, bh] | Op_setcond2 _ al ah bl bh _ \<Rightarrow> [al, ah, bl, bh]
   | Op_ld _ _ _ a _ \<Rightarrow> [a] | Op_st _ _ v a _ \<Rightarrow> [v, a]
   | Op_qemu_ld _ _ a _ \<Rightarrow> [a] | Op_qemu_st _ v a _ \<Rightarrow> [v, a]
   | _ \<Rightarrow> [])"

definition set_ins :: "tcg_op \<Rightarrow> tmp list \<Rightarrow> tcg_op" where
  "set_ins opn as = (case opn of
     Op_call outs _ flags \<Rightarrow> Op_call outs as flags
   | Op_mov w d _ \<Rightarrow> Op_mov w d (as ! 0)
   | Op_un opc w d _ \<Rightarrow> Op_un opc w d (as ! 0)
   | Op_bin opc w d _ _ \<Rightarrow> Op_bin opc w d (as ! 0) (as ! 1)
   | Op_deposit w d _ _ pos len \<Rightarrow> Op_deposit w d (as ! 0) (as ! 1) pos len
   | Op_setcond w d _ _ c \<Rightarrow> Op_setcond w d (as ! 0) (as ! 1) c
   | Op_movcond w d _ _ _ _ c \<Rightarrow> Op_movcond w d (as ! 0) (as ! 1) (as ! 2) (as ! 3) c
   | Op_brcond w _ _ c l \<Rightarrow> Op_brcond w (as ! 0) (as ! 1) c l
   | Op_add2 w rl rh _ _ _ _ \<Rightarrow> Op_add2 w rl rh (as ! 0) (as ! 1) (as ! 2) (as ! 3)
   | Op_sub2 w rl rh _ _ _ _ \<Rightarrow> Op_sub2 w rl rh (as ! 0) (as ! 1) (as ! 2) (as ! 3)
   | Op_mulu2 w rl rh _ _ \<Rightarrow> Op_mulu2 w rl rh (as ! 0) (as ! 1)
   | Op_muls2 w rl rh _ _ \<Rightarrow> Op_muls2 w rl rh (as ! 0) (as ! 1)
   | Op_brcond2 _ _ _ _ c l \<Rightarrow> Op_brcond2 (as ! 0) (as ! 1) (as ! 2) (as ! 3) c l
   | Op_setcond2 d _ _ _ _ c \<Rightarrow> Op_setcond2 d (as ! 0) (as ! 1) (as ! 2) (as ! 3) c
   | Op_ld k w d _ off \<Rightarrow> Op_ld k w d (as ! 0) off
   | Op_st k w _ _ off \<Rightarrow> Op_st k w (as ! 0) (as ! 1) off
   | Op_qemu_ld k d _ idx \<Rightarrow> Op_qemu_ld k d (as ! 0) idx
   | Op_qemu_st k _ _ idx \<Rightarrow> Op_qemu_st k (as ! 0) (as ! 1) idx
   | _ \<Rightarrow> opn)"

definition copy_propagate :: "tcg_context \<Rightarrow> temps \<Rightarrow> tcg_op \<Rightarrow> c_error + tcg_op" where
  "copy_propagate C T opn = sbind (prop_args C T (op_ins opn)) (\<lambda>as. Inr (set_ins opn as))"

text \<open>Constants go to the second argument of commutative operations.\<close>

definition commute :: "temps \<Rightarrow> tcg_op \<Rightarrow> tcg_op" where
  "commute T opn = (case opn of
     Op_bin opc w d a b \<Rightarrow>
       if opc \<in> {O_add, O_mul, O_and, O_or, O_xor, O_eqv, O_nand, O_nor, O_muluh, O_mulsh} \<and>
          swap_commutative T (Some d) a b
       then Op_bin opc w d b a else opn
   | Op_brcond w a b c l \<Rightarrow>
       if swap_commutative T None a b then Op_brcond w b a (tcg_swap_cond c) l else opn
   | Op_setcond w d a b c \<Rightarrow>
       if swap_commutative T (Some d) a b then Op_setcond w d b a (tcg_swap_cond c) else opn
   | Op_movcond w d c1 c2 v1 v2 c \<Rightarrow>
       (let (c1, c2, c) = (if swap_commutative T None c1 c2 then (c2, c1, tcg_swap_cond c) else (c1, c2, c))
        in if swap_commutative T (Some d) v2 v1
           then Op_movcond w d c1 c2 v2 v1 (tcg_invert_cond c)
           else Op_movcond w d c1 c2 v1 v2 c)
   | Op_add2 w rl rh al ah bl bh \<Rightarrow>
       (let (al, bl) = (if swap_commutative T (Some rl) al bl then (bl, al) else (al, bl));
            (ah, bh) = (if swap_commutative T (Some rh) ah bh then (bh, ah) else (ah, bh))
        in Op_add2 w rl rh al ah bl bh)
   | Op_mulu2 w rl rh a b \<Rightarrow>
       if swap_commutative T (Some rl) a b then Op_mulu2 w rl rh b a else opn
   | Op_muls2 w rl rh a b \<Rightarrow>
       if swap_commutative T (Some rl) a b then Op_muls2 w rl rh b a else opn
   | Op_brcond2 al ah bl bh c l \<Rightarrow>
       if swap_commutative2 T al ah bl bh then Op_brcond2 bl bh al ah (tcg_swap_cond c) l else opn
   | Op_setcond2 d al ah bl bh c \<Rightarrow>
       if swap_commutative2 T al ah bl bh then Op_setcond2 d bl bh al ah (tcg_swap_cond c) else opn
   | _ \<Rightarrow> opn)"

text \<open>
  A simplification either replaces the operation, with the new knowledge, or leaves it to the next
  one.
\<close>

type_synonym simp_result = "(temps \<times> tcg_op) option"

definition gen_movi :: "temps \<Rightarrow> tcg_op \<Rightarrow> tmp \<Rightarrow> u64 \<Rightarrow> temps \<times> tcg_op" where
  "gen_movi T opn d v = (tcg_opt_gen_movi T d v, op_to_movi opn d v)"

definition gen_mov_or_nop ::
  "tcg_context \<Rightarrow> temps \<Rightarrow> tcg_op \<Rightarrow> tmp \<Rightarrow> tmp \<Rightarrow> c_error + temps \<times> tcg_op" where
  "gen_mov_or_nop C T opn d a =
     sbind (temps_are_copies C T d a) (\<lambda>cp.
       if cp then Inr (T, Op_nop)
       else sbind (tcg_opt_gen_mov C T d a) (\<lambda>T'. Inr (T', op_to_mov opn d a)))"

text \<open>"shift/rot r, 0, a => movi r, 0", "sub r, 0, a => neg r, a" and the forms of \<open>not\<close>.\<close>

definition simp_shift_neg_not :: "tcg_context \<Rightarrow> temps \<Rightarrow> tcg_op \<Rightarrow> simp_result" where
  "simp_shift_neg_not C T opn = (case opn of
     Op_bin opc w d a b \<Rightarrow>
       (let try_not = (\<lambda>x. if has_not C (op_bits opn)
                           then Some (reset_temp d T, Op_un O_not (op_bits opn) d x) else None)
        in if opc \<in> {O_shl, O_shr, O_sar, O_rotl, O_rotr}
           then (if is_const_val T a 0 then Some (gen_movi T opn d 0) else None)
           else if opc = O_sub
           then (if \<not> is_const T b \<and> has_neg C w \<and> is_const_val T a 0
                 then Some (reset_temp d T, Op_un O_neg w d b) else None)
           else if opc \<in> {O_xor, O_nand}
           then (if \<not> is_const T a \<and> is_const_val T b (- 1) then try_not a else None)
           else if opc = O_nor
           then (if \<not> is_const T a \<and> is_const_val T b 0 then try_not a else None)
           else if opc = O_andc
           then (if \<not> is_const T b \<and> is_const_val T a (- 1) then try_not b else None)
           else if opc \<in> {O_orc, O_eqv}
           then (if \<not> is_const T b \<and> is_const_val T a 0 then try_not b else None)
           else None)
   | _ \<Rightarrow> None)"

text \<open>"op r, a, const => mov r, a".\<close>

definition simp_mov3 :: "tcg_context \<Rightarrow> temps \<Rightarrow> tcg_op \<Rightarrow> c_error + simp_result" where
  "simp_mov3 C T opn = (case opn of
     Op_bin opc w d a b \<Rightarrow>
       if (opc \<in> {O_add, O_sub, O_shl, O_shr, O_sar, O_rotl, O_rotr, O_or, O_xor, O_andc} \<and>
           \<not> is_const T a \<and> is_const_val T b 0) \<or>
          (opc \<in> {O_and, O_orc, O_eqv} \<and> \<not> is_const T a \<and> is_const_val T b (- 1))
       then map_sum_r Some (gen_mov_or_nop C T opn d a)
       else Inr None
   | _ \<Rightarrow> Inr None)"

text \<open>
  The bits of the result that may be one, and, for operations that only clear bits, the bits that
  may be cleared.
\<close>

definition and_const :: "temps \<Rightarrow> tmp \<Rightarrow> u64 \<Rightarrow> u64 \<times> u64" where
  "and_const T a m = (t_mask (T a) AND m, t_mask (T a) AND NOT m)"

definition known_zero :: "temps \<Rightarrow> tcg_op \<Rightarrow> c_error + u64 \<times> u64" where
  "known_zero T opn = (case opn of
     Op_un opc w d a \<Rightarrow> (case opc of
        O_ext8s \<Rightarrow> if t_mask (T a) AND 0x80 \<noteq> 0 then Inr (- 1, - 1) else Inr (and_const T a 0xff)
      | O_ext8u \<Rightarrow> Inr (and_const T a 0xff)
      | O_ext16s \<Rightarrow> if t_mask (T a) AND 0x8000 \<noteq> 0 then Inr (- 1, - 1) else Inr (and_const T a 0xffff)
      | O_ext16u \<Rightarrow> Inr (and_const T a 0xffff)
      | O_ext32s \<Rightarrow> if t_mask (T a) AND 0x80000000 \<noteq> 0 then Inr (- 1, - 1)
                   else Inr (and_const T a 0xffffffff)
      | O_ext32u \<Rightarrow> Inr (and_const T a 0xffffffff)
      | O_neg \<Rightarrow> Inr (- (t_mask (T a) AND - t_mask (T a)), - 1)
      | _ \<Rightarrow> Inr (- 1, - 1))
   | Op_bin opc w d a b \<Rightarrow> (case opc of
        O_and \<Rightarrow> if is_const T b then Inr (and_const T a (t_mask (T b)))
                 else Inr (t_mask (T a) AND t_mask (T b), - 1)
      | O_andc \<Rightarrow> if is_const T b then Inr (and_const T a (NOT (t_mask (T b))))
                  else Inr (t_mask (T a), - 1)
      | O_sar \<Rightarrow> if is_const T b
                 then (case w of
                    W32 \<Rightarrow> map_sum_r (\<lambda>m. (scast m, - 1)) (c_sar (ucast (t_mask (T a)) :: u32) (unat (t_val (T b))))
                  | W64 \<Rightarrow> map_sum_r (\<lambda>m. (m, - 1)) (c_sar (t_mask (T a)) (unat (t_val (T b)))))
                 else Inr (- 1, - 1)
      | O_shr \<Rightarrow> if is_const T b
                 then (case w of
                    W32 \<Rightarrow> map_sum_r (\<lambda>m. (ucast m, - 1)) (c_shr (ucast (t_mask (T a)) :: u32) (unat (t_val (T b))))
                  | W64 \<Rightarrow> map_sum_r (\<lambda>m. (m, - 1)) (c_shr (t_mask (T a)) (unat (t_val (T b)))))
                 else Inr (- 1, - 1)
      | O_shl \<Rightarrow> if is_const T b then map_sum_r (\<lambda>m. (m, - 1)) (c_shl (t_mask (T a)) (unat (t_val (T b))))
                 else Inr (- 1, - 1)
      | O_or \<Rightarrow> Inr (t_mask (T a) OR t_mask (T b), - 1)
      | O_xor \<Rightarrow> Inr (t_mask (T a) OR t_mask (T b), - 1)
      | _ \<Rightarrow> Inr (- 1, - 1))
   | Op_deposit w d a b pos len \<Rightarrow>
       sbind (c_shl (1 :: u64) len) (\<lambda>s. let tmp = s - 1 in
       sbind (c_shl tmp pos) (\<lambda>high.
       sbind (c_shl (t_mask (T b) AND tmp) pos) (\<lambda>low.
         Inr ((t_mask (T a) AND NOT high) OR low, - 1))))
   | Op_setcond w d a b c \<Rightarrow> Inr (1, - 1)
   | Op_movcond w d c1 c2 v1 v2 c \<Rightarrow> Inr (t_mask (T v1) OR t_mask (T v2), - 1)
   | Op_ld k w d a off \<Rightarrow> (case k of
        Ld8u \<Rightarrow> Inr (0xff, - 1) | Ld16u \<Rightarrow> Inr (0xffff, - 1)
      | Ld32u \<Rightarrow> Inr (0xffffffff, - 1) | _ \<Rightarrow> Inr (- 1, - 1))
   | Op_qemu_ld k d a idx \<Rightarrow> (case k of
        Q8u \<Rightarrow> Inr (0xff, - 1) | Q16u \<Rightarrow> Inr (0xffff, - 1)
      | Q32u \<Rightarrow> Inr (0xffffffff, - 1) | _ \<Rightarrow> Inr (- 1, - 1))
   | _ \<Rightarrow> Inr (- 1, - 1))"

definition result_mask :: "tcg_op \<Rightarrow> u64 \<Rightarrow> u64" where
  "result_mask opn m =
     (if \<not> flag_call_clobber opn \<and> \<not> flag_64bit opn then m AND 0xffffffff else m)"

definition first_in :: "tcg_op \<Rightarrow> tmp" where
  "first_in opn = op_ins opn ! 0"

definition first_out :: "tcg_op \<Rightarrow> tmp" where
  "first_out opn = op_outs opn ! 0"

definition simp_mask ::
  "tcg_context \<Rightarrow> temps \<Rightarrow> tcg_op \<Rightarrow> u64 \<Rightarrow> u64 \<Rightarrow> c_error + simp_result" where
  "simp_mask C T opn m affected =
     (if m = 0
      then sbind (c_assert (length (op_outs opn) = 1)) (\<lambda>_.
             Inr (Some (gen_movi T opn (first_out opn) 0)))
      else if affected = 0
      then sbind (c_assert (length (op_outs opn) = 1)) (\<lambda>_.
           let d = first_out opn; a = first_in opn in
           sbind (temps_are_copies C T d a) (\<lambda>cp.
             if cp then Inr (Some (T, Op_nop))
             else if \<not> is_const T a
             then sbind (tcg_opt_gen_mov C T d a) (\<lambda>T'. Inr (Some (T', op_to_mov opn d a)))
             else Inr (Some (gen_movi T opn d (t_val (T a))))))
      else Inr None)"

text \<open>"op r, a, 0 => movi r, 0", "op r, a, a => mov r, a" and "op r, a, a => movi r, 0".\<close>

definition simp_zero :: "temps \<Rightarrow> tcg_op \<Rightarrow> simp_result" where
  "simp_zero T opn = (case opn of
     Op_bin opc w d a b \<Rightarrow>
       if opc \<in> {O_and, O_mul, O_muluh, O_mulsh} \<and> is_const_val T b 0
       then Some (gen_movi T opn d 0) else None
   | _ \<Rightarrow> None)"

definition simp_same :: "tcg_context \<Rightarrow> temps \<Rightarrow> tcg_op \<Rightarrow> c_error + simp_result" where
  "simp_same C T opn = (case opn of
     Op_bin opc w d a b \<Rightarrow>
       if opc \<in> {O_or, O_and}
       then sbind (temps_are_copies C T a b) (\<lambda>cp.
              if cp then map_sum_r Some (gen_mov_or_nop C T opn d a) else Inr None)
       else if opc \<in> {O_andc, O_sub, O_xor}
       then sbind (temps_are_copies C T a b) (\<lambda>cp.
              if cp then Inr (Some (gen_movi T opn d 0)) else Inr None)
       else Inr None
   | _ \<Rightarrow> Inr None)"

text \<open>
  Constant propagation and folding.  The result is the new knowledge, the operations that replace
  the current one and whether the \<open>nop\<close> behind a double word operation is used up.
\<close>

type_synonym fold_result = "temps \<times> tcg_op list \<times> bool"

fun reset_outs :: "tmp list \<Rightarrow> temps \<Rightarrow> temps" where
  "reset_outs [] T = T"
| "reset_outs (d # ds) T = reset_outs ds (reset_temp d T)"

definition do_default :: "tcg_context \<Rightarrow> temps \<Rightarrow> tcg_op \<Rightarrow> u64 \<Rightarrow> fold_result" where
  "do_default C T opn m =
     (if flag_bb_end opn then (reset_all_temps (nb_temps C) T, [opn], False)
      else case op_outs opn of
             [] \<Rightarrow> (T, [opn], False)
           | d # ds \<Rightarrow> (reset_outs ds (set_mask m d (reset_temp d T)), [opn], False))"

fun reset_globals :: "nat \<Rightarrow> temps \<Rightarrow> temps" where
  "reset_globals 0 T = T"
| "reset_globals (Suc n) T = reset_temp n (reset_globals n T)"

definition fold_mov :: "tcg_context \<Rightarrow> temps \<Rightarrow> tcg_op \<Rightarrow> tmp \<Rightarrow> tmp \<Rightarrow> c_error + fold_result" where
  "fold_mov C T opn d a =
     sbind (temps_are_copies C T d a) (\<lambda>cp.
       if cp then Inr (T, [Op_nop], False)
       else if \<not> is_const T a
       then sbind (tcg_opt_gen_mov C T d a) (\<lambda>T'. Inr (T', [opn], False))
       else Inr (tcg_opt_gen_movi T d (t_val (T a)), [op_to_movi opn d (t_val (T a))], False))"

definition fold_movcond ::
  "tcg_context \<Rightarrow> temps \<Rightarrow> tcg_op \<Rightarrow> tmp \<Rightarrow> tmp \<Rightarrow> c_error + fold_result" where
  "fold_movcond C T opn d a =
     sbind (temps_are_copies C T d a) (\<lambda>cp.
       if cp then Inr (T, [Op_nop], False)
       else if is_const T a
       then Inr (tcg_opt_gen_movi T d (t_val (T a)), [op_to_movi opn d (t_val (T a))], False)
       else sbind (tcg_opt_gen_mov C T d a) (\<lambda>T'. Inr (T', [op_to_mov opn d a], False)))"

definition fold_pair :: "temps \<Rightarrow> bool \<Rightarrow> tmp \<Rightarrow> tmp \<Rightarrow> u64 \<Rightarrow> c_error + fold_result" where
  "fold_pair T next_is_nop rl rh r =
     sbind (c_assert next_is_nop) (\<lambda>_.
       Inr (tcg_opt_gen_movi (tcg_opt_gen_movi T rl (lo32 r)) rh (lo32 (drop_bit 32 r)),
            [Op_movi W32 rl (lo32 r), Op_movi W32 rh (lo32 (drop_bit 32 r))], True))"

definition fold_add2 ::
  "tcg_context \<Rightarrow> temps \<Rightarrow> bool \<Rightarrow> tcg_op \<Rightarrow> u64 \<Rightarrow> bool \<Rightarrow> width \<Rightarrow> tmp \<Rightarrow> tmp \<Rightarrow> tmp \<Rightarrow> tmp \<Rightarrow> tmp \<Rightarrow> tmp
   \<Rightarrow> c_error + fold_result" where
  "fold_add2 C T next_is_nop opn m is_sub w rl rh al ah bl bh =
     (if w = W32 \<and> is_const T al \<and> is_const T ah \<and> is_const T bl \<and> is_const T bh
      then let a = push_bit 32 (lo32 (t_val (T ah))) OR lo32 (t_val (T al));
               b = push_bit 32 (lo32 (t_val (T bh))) OR lo32 (t_val (T bl))
           in fold_pair T next_is_nop rl rh (if is_sub then a - b else a + b)
      else Inr (do_default C T opn m))"

definition fold_mulu2 ::
  "tcg_context \<Rightarrow> temps \<Rightarrow> bool \<Rightarrow> tcg_op \<Rightarrow> u64 \<Rightarrow> width \<Rightarrow> tmp \<Rightarrow> tmp \<Rightarrow> tmp \<Rightarrow> tmp \<Rightarrow> c_error + fold_result" where
  "fold_mulu2 C T next_is_nop opn m w rl rh a b =
     (if w = W32 \<and> is_const T a \<and> is_const T b
     then fold_pair T next_is_nop rl rh (lo32 (t_val (T a)) * lo32 (t_val (T b)))
     else Inr (do_default C T opn m))"

definition fold_brcond2 ::
  "tcg_context \<Rightarrow> temps \<Rightarrow> tcg_op \<Rightarrow> u64 \<Rightarrow> tmp \<Rightarrow> tmp \<Rightarrow> tmp \<Rightarrow> tmp \<Rightarrow> tcg_cond \<Rightarrow> label \<Rightarrow> c_error + fold_result" where
  "fold_brcond2 C T opn m al ah bl bh c l =
     sbind (do_constant_folding_cond2 C T al ah bl bh c) (\<lambda>r. case r of
        Some True \<Rightarrow> Inr (reset_all_temps (nb_temps C) T, [Op_br l], False)
      | Some False \<Rightarrow> Inr (T, [Op_nop], False)
      | None \<Rightarrow>
          if (c = COND_LT \<or> c = COND_GE) \<and> is_const_val T bl 0 \<and> is_const_val T bh 0
          then Inr (reset_all_temps (nb_temps C) T, [Op_brcond W32 ah bh c l], False)
          else Inr (do_default C T opn m))"

definition fold_setcond2 ::
  "tcg_context \<Rightarrow> temps \<Rightarrow> tcg_op \<Rightarrow> u64 \<Rightarrow> tmp \<Rightarrow> tmp \<Rightarrow> tmp \<Rightarrow> tmp \<Rightarrow> tmp \<Rightarrow> tcg_cond \<Rightarrow> c_error + fold_result" where
  "fold_setcond2 C T opn m d al ah bl bh c =
     sbind (do_constant_folding_cond2 C T al ah bl bh c) (\<lambda>r. case r of
        Some tmp \<Rightarrow> Inr (tcg_opt_gen_movi T d (of_bool tmp), [Op_movi W32 d (of_bool tmp)], False)
      | None \<Rightarrow>
          if (c = COND_LT \<or> c = COND_GE) \<and> is_const_val T bl 0 \<and> is_const_val T bh 0
          then Inr (reset_temp d T, [Op_setcond W32 d ah bh c], False)
          else Inr (do_default C T opn m))"

definition fold_call :: "tcg_context \<Rightarrow> temps \<Rightarrow> tcg_op \<Rightarrow> tmp list \<Rightarrow> u64 \<Rightarrow> c_error + fold_result" where
  "fold_call C T opn outs flags =
     (let T = (if flags AND (0x0010 OR 0x0020) = 0 then reset_globals (nb_globals C) T else T)
      in Inr (reset_outs outs T, [opn], False))"

definition fold_op :: "tcg_context \<Rightarrow> temps \<Rightarrow> bool \<Rightarrow> tcg_op \<Rightarrow> u64 \<Rightarrow> c_error + fold_result" where
  "fold_op C T next_is_nop opn m = (case opn of
     Op_mov w d a \<Rightarrow> fold_mov C T opn d a
   | Op_movi w d v \<Rightarrow> Inr (tcg_opt_gen_movi T d v, [opn], False)
   | Op_un opc w d a \<Rightarrow>
       if opc \<in> {O_not, O_neg, O_ext8s, O_ext8u, O_ext16s, O_ext16u, O_ext32s, O_ext32u} \<and> is_const T a
       then sbind (do_constant_folding opn (t_val (T a)) 0) (\<lambda>tmp.
              Inr (tcg_opt_gen_movi T d tmp, [op_to_movi opn d tmp], False))
       else Inr (do_default C T opn m)
   | Op_bin opc w d a b \<Rightarrow>
       if is_const T a \<and> is_const T b
       then sbind (do_constant_folding opn (t_val (T a)) (t_val (T b))) (\<lambda>tmp.
              Inr (tcg_opt_gen_movi T d tmp, [op_to_movi opn d tmp], False))
       else Inr (do_default C T opn m)
   | Op_deposit w d a b pos len \<Rightarrow>
       if is_const T a \<and> is_const T b
       then sbind (c_shl (1 :: u64) len) (\<lambda>s. let tmp = s - 1 in
            sbind (c_shl tmp pos) (\<lambda>high.
            sbind (c_shl (t_val (T b) AND tmp) pos) (\<lambda>low.
              let v = (t_val (T a) AND NOT high) OR low
              in Inr (tcg_opt_gen_movi T d v, [op_to_movi opn d v], False))))
       else Inr (do_default C T opn m)
   | Op_setcond w d a b c \<Rightarrow>
       sbind (do_constant_folding_cond C T w a b c) (\<lambda>r. case r of
          Some tmp \<Rightarrow> Inr (tcg_opt_gen_movi T d (of_bool tmp), [op_to_movi opn d (of_bool tmp)], False)
        | None \<Rightarrow> Inr (do_default C T opn m))
   | Op_brcond w a b c l \<Rightarrow>
       sbind (do_constant_folding_cond C T w a b c) (\<lambda>r. case r of
          Some True \<Rightarrow> Inr (reset_all_temps (nb_temps C) T, [Op_br l], False)
        | Some False \<Rightarrow> Inr (T, [Op_nop], False)
        | None \<Rightarrow> Inr (do_default C T opn m))
   | Op_movcond w d c1 c2 v1 v2 c \<Rightarrow>
       sbind (do_constant_folding_cond C T w c1 c2 c) (\<lambda>r. case r of
          Some tmp \<Rightarrow> fold_movcond C T opn d (if tmp then v1 else v2)
        | None \<Rightarrow> Inr (do_default C T opn m))
   | Op_add2 w rl rh al ah bl bh \<Rightarrow> fold_add2 C T next_is_nop opn m False w rl rh al ah bl bh
   | Op_sub2 w rl rh al ah bl bh \<Rightarrow> fold_add2 C T next_is_nop opn m True w rl rh al ah bl bh
   | Op_mulu2 w rl rh a b \<Rightarrow>
       fold_mulu2 C T next_is_nop opn m w rl rh a b
   | Op_brcond2 al ah bl bh c l \<Rightarrow>
       fold_brcond2 C T opn m al ah bl bh c l
   | Op_setcond2 d al ah bl bh c \<Rightarrow>
       fold_setcond2 C T opn m d al ah bl bh c
   | Op_call outs ins flags \<Rightarrow>
       fold_call C T opn outs flags
   | _ \<Rightarrow> Inr (do_default C T opn m))"

lemmas fold_op_defs = fold_op_def fold_mulu2_def fold_brcond2_def fold_setcond2_def fold_call_def

definition optimize_op :: "tcg_context \<Rightarrow> temps \<Rightarrow> tcg_op \<Rightarrow> bool \<Rightarrow> c_error + fold_result" where
  "optimize_op C T opn0 next_is_nop =
     sbind (copy_propagate C T opn0) (\<lambda>opn1.
     let opn = commute T opn1 in
     case simp_shift_neg_not C T opn of Some (T', op') \<Rightarrow> Inr (T', [op'], False) | None \<Rightarrow>
     sbind (simp_mov3 C T opn) (\<lambda>r. case r of Some (T', op') \<Rightarrow> Inr (T', [op'], False) | None \<Rightarrow>
     sbind (known_zero T opn) (\<lambda>(m0, affected).
     let m = result_mask opn m0 in
     sbind (simp_mask C T opn m affected) (\<lambda>r.
       case r of Some (T', op') \<Rightarrow> Inr (T', [op'], False) | None \<Rightarrow>
     (case simp_zero T opn of Some (T', op') \<Rightarrow> Inr (T', [op'], False) | None \<Rightarrow>
     sbind (simp_same C T opn) (\<lambda>r. case r of Some (T', op') \<Rightarrow> Inr (T', [op'], False) | None \<Rightarrow>
       fold_op C T next_is_nop opn m))))))"

section \<open>The pass over the operation buffer\<close>

function optimize_loop :: "tcg_context \<Rightarrow> temps \<Rightarrow> tcg_op list \<Rightarrow> c_error + tcg_op list" where
  "optimize_loop C T [] = Inr []"
| "optimize_loop C T (opn # rest) =
     sbind (optimize_op C T opn (rest \<noteq> [] \<and> hd rest = Op_nop)) (\<lambda>(T', ops, skip).
     sbind (optimize_loop C T' (if skip then tl rest else rest)) (\<lambda>out. Inr (ops @ out)))"
  by pat_completeness auto

termination optimize_loop
  by (relation "measure (\<lambda>(C, T, ops). length ops)") auto

definition tcg_constant_folding :: "tcg_context \<Rightarrow> temps \<Rightarrow> tcg_op list \<Rightarrow> c_error + tcg_op list" where
  "tcg_constant_folding C T ops = optimize_loop C (reset_all_temps (nb_temps C) T) ops"

definition tcg_optimize :: "tcg_context \<Rightarrow> temps \<Rightarrow> tcg_op list \<Rightarrow> c_error + tcg_op list" where
  "tcg_optimize C T ops = tcg_constant_folding C T ops"

end
