(* ===== verification/Tcg_Knowledge.thy ===== *)
theory Tcg_Knowledge
  imports Tcg_Optimize
begin

text \<open>
  What the optimiser knows about temporaries: constants, known zero bits and rings of copies.  The
  knowledge is \<open>valid\<close> in a state when it is true there; the operations on it keep it valid, and
  the walks around a ring of copies end.
\<close>

section \<open>Rings of copies\<close>

text \<open>
  The copies of a value form a ring through \<open>next_copy\<close> and \<open>prev_copy\<close>.  \<open>ring S nx pv ty\<close>: the
  members \<open>S\<close> are closed under both links, the links are inverse to each other and stay within a
  type.
\<close>

definition ring :: "nat set \<Rightarrow> (nat \<Rightarrow> nat) \<Rightarrow> (nat \<Rightarrow> nat) \<Rightarrow> (nat \<Rightarrow> 'a) \<Rightarrow> bool" where
  "ring S nx pv ty \<longleftrightarrow>
     (\<forall>t\<in>S. nx t \<in> S \<and> pv t \<in> S \<and> pv (nx t) = t \<and> nx (pv t) = t \<and> ty (nx t) = ty t)"

lemma ringD:
  assumes "ring S nx pv ty" "t \<in> S"
  shows "nx t \<in> S" "pv t \<in> S" "pv (nx t) = t" "nx (pv t) = t" "ty (nx t) = ty t" "ty (pv t) = ty t"
  using assms by (auto simp: ring_def) (metis)

lemma ring_remove_long:
  assumes r: "ring S nx pv ty" and t: "t \<in> S" and ne: "pv t \<noteq> nx t"
  shows "ring (S - {t}) (nx(pv t := nx t)) (pv(nx t := pv t)) ty"
proof -
  have nt: "nx t \<noteq> t" "pv t \<noteq> t"
    using ringD [OF r t] ne by metis+
  show ?thesis
    unfolding ring_def
  proof (intro ballI)
    fix u assume u: "u \<in> S - {t}"
    then have U: "nx u \<in> S" "pv u \<in> S" "pv (nx u) = u" "nx (pv u) = u" "ty (nx u) = ty u" "u \<noteq> t"
      using ringD [OF r] by auto
    note D = ringD [OF r t]
    have a: "nx u \<noteq> nx t" "pv u \<noteq> pv t"
      using U D by metis+
    have b: "nx u \<noteq> t" if "u \<noteq> pv t" using that U by metis
    have c: "pv u \<noteq> t" if "u \<noteq> nx t" using that U by metis
    show "(nx(pv t := nx t)) u \<in> S - {t} \<and> (pv(nx t := pv t)) u \<in> S - {t} \<and>
        (pv(nx t := pv t)) ((nx(pv t := nx t)) u) = u \<and> (nx(pv t := nx t)) ((pv(nx t := pv t)) u) = u \<and>
        ty ((nx(pv t := nx t)) u) = ty u"
      using a b c U ne nt D by (cases "u = pv t"; cases "u = nx t") auto
  qed
qed

lemma ring_remove_short:
  assumes r: "ring S nx pv ty" and t: "t \<in> S" and eq: "pv t = nx t"
  shows "ring (S - {t, nx t}) nx pv ty"
  unfolding ring_def
proof (intro ballI)
  fix u assume u: "u \<in> S - {t, nx t}"
  note U = ringD [OF r, of u] and D = ringD [OF r t]
  have "nx u \<noteq> t" "nx u \<noteq> nx t" "pv u \<noteq> t" "pv u \<noteq> nx t"
    using u U D eq by (metis DiffE insert_iff)+
  then show "nx u \<in> S - {t, nx t} \<and> pv u \<in> S - {t, nx t} \<and> pv (nx u) = u \<and> nx (pv u) = u \<and> ty (nx u) = ty u"
    using u U by auto
qed

lemma ring_single:
  assumes "ring S nx pv ty" "s \<notin> S"
  shows "ring (insert s S) (nx(s := s)) (pv(s := s)) ty"
  using assms by (auto simp: ring_def)

lemma ring_insert:
  assumes r: "ring S nx pv ty" and s: "s \<in> S" and d: "d \<notin> S" and ty: "ty d = ty s"
  shows "ring (insert d S) (nx(d := nx s, s := d)) (pv(d := s, nx s := d)) ty"
  unfolding ring_def
proof (intro ballI)
  fix u assume u: "u \<in> insert d S"
  note D = ringD [OF r s]
  have "u = d \<or> (u \<in> S \<and> u \<noteq> d)" using u d by auto
  then show "(nx(d := nx s, s := d)) u \<in> insert d S \<and> (pv(d := s, nx s := d)) u \<in> insert d S \<and>
      (pv(d := s, nx s := d)) ((nx(d := nx s, s := d)) u) = u \<and>
      (nx(d := nx s, s := d)) ((pv(d := s, nx s := d)) u) = u \<and>
      ty ((nx(d := nx s, s := d)) u) = ty u"
  proof
    assume "u = d"
    then show ?thesis using D d s ty by auto
  next
    assume v: "u \<in> S \<and> u \<noteq> d"
    then have U: "nx u \<in> S" "pv u \<in> S" "pv (nx u) = u" "nx (pv u) = u" "ty (nx u) = ty u"
      using ringD [OF r] by auto
    have a: "nx u \<noteq> nx s" if "u \<noteq> s" using that U D by metis
    have b: "pv u \<noteq> s" if "u \<noteq> nx s" using that U by metis
    have c: "nx u \<noteq> d" "pv u \<noteq> d" "nx s \<noteq> d" using U D d by auto
    show ?thesis using U D d s v ty a b c by (cases "u = s"; cases "u = nx s") auto
  qed
qed

lemma ring_walk:
  assumes "ring S nx pv ty" "t \<in> S"
  shows "(nx ^^ n) t \<in> S"
  using assms by (induction n) (auto simp: ring_def)

text \<open>Walking along a finite ring comes back to the start.\<close>

lemma ring_walk_back:
  assumes r: "ring S nx pv ty" and t: "t \<in> S"
  shows "m \<le> n \<Longrightarrow> (nx ^^ m) t = (nx ^^ n) t \<Longrightarrow> (nx ^^ (n - m)) t = t"
proof (induction m arbitrary: n)
  case (Suc m)
  then obtain k where n: "n = Suc k" by (cases n) auto
  have "nx ((nx ^^ m) t) = nx ((nx ^^ k) t)" using Suc.prems n by simp
  then have "(nx ^^ m) t = (nx ^^ k) t"
    using ringD(3) [OF r ring_walk [OF r t]] by metis
  then show ?case using Suc n by simp
qed simp

lemma ring_returns:
  assumes r: "ring S nx pv ty" and t: "t \<in> S" and fin: "finite S"
  shows "\<exists>k. 0 < k \<and> k \<le> card S \<and> (nx ^^ k) t = t"
proof -
  have "(\<lambda>n. (nx ^^ n) t) ` {..card S} \<subseteq> S"
    using ring_walk [OF r t] by auto
  then have "card ((\<lambda>n. (nx ^^ n) t) ` {..card S}) \<le> card S"
    using fin by (simp add: card_mono)
  then have "\<not> inj_on (\<lambda>n. (nx ^^ n) t) {..card S}"
    using card_image [of "\<lambda>n. (nx ^^ n) t" "{..card S}"] by auto
  then obtain i j where ij: "i < j" "j \<le> card S" "(nx ^^ i) t = (nx ^^ j) t"
    unfolding inj_on_def by (metis atMost_iff linorder_neqE_nat)
  then show ?thesis
    using ring_walk_back [OF r t, of i j] by (intro exI [of _ "j - i"]) auto
qed

section \<open>What the optimiser knows\<close>

definition copy_set :: "tcg_context \<Rightarrow> temps \<Rightarrow> nat set" where
  "copy_set C T = {t. t < nb_temps C \<and> t_state (T t) = TEMP_COPY}"

definition info_ok :: "tcg_context \<Rightarrow> temps \<Rightarrow> bool" where
  "info_ok C T \<longleftrightarrow>
     ring (copy_set C T) (\<lambda>t. next_copy (T t)) (\<lambda>t. prev_copy (T t)) (temp_type C) \<and>
     (\<forall>t < nb_temps C. t_state (T t) = TEMP_CONST \<longrightarrow> t_mask (T t) = t_val (T t))"

definition fits :: "tcg_context \<Rightarrow> tmp \<Rightarrow> u64 \<Rightarrow> bool" where
  "fits C t x \<longleftrightarrow> trunc_w (temp_type C t) x = x"

definition val_ok :: "tcg_context \<Rightarrow> temps \<Rightarrow> regs \<Rightarrow> bool" where
  "val_ok C T \<sigma> \<longleftrightarrow>
     (\<forall>t < nb_temps C. \<forall>x. \<sigma> t = Some x \<longrightarrow>
        fits C t x \<and> x AND NOT (t_mask (T t)) = 0 \<and>
        (t_state (T t) = TEMP_CONST \<longrightarrow> x = trunc_w (temp_type C t) (t_val (T t)))) \<and>
     (\<forall>t \<in> copy_set C T. \<sigma> (next_copy (T t)) = \<sigma> t)"

definition valid :: "tcg_context \<Rightarrow> temps \<Rightarrow> regs \<Rightarrow> bool" where
  "valid C T \<sigma> \<longleftrightarrow> info_ok C T \<and> val_ok C T \<sigma>"

lemmas set_defs = set_state_def set_mask_def set_next_def set_prev_def set_val_def

lemma finite_copy_set [simp]: "finite (copy_set C T)"
  by (simp add: copy_set_def)

lemma card_copy_set: "card (copy_set C T) \<le> nb_temps C"
  using card_mono [of "{..<nb_temps C}" "copy_set C T"] by (auto simp: copy_set_def)

lemma reset_temp_same [simp]:
  "t_state (reset_temp t T t) = TEMP_UNDEF" "t_mask (reset_temp t T t) = - 1"
  by (simp_all add: reset_temp_def set_defs)

lemma reset_temp_other:
  assumes "u \<noteq> t"
  shows "t_mask (reset_temp t T u) = t_mask (T u)" "t_val (reset_temp t T u) = t_val (T u)"
    "t_state (reset_temp t T u) = t_state (T u) \<or> t_state (reset_temp t T u) = TEMP_UNDEF"
  using assms by (simp_all add: reset_temp_def unlink_temp_def set_defs Let_def)

lemma reset_temp_not_copy:
  assumes "t_state (T t) \<noteq> TEMP_COPY"
  shows "copy_set C (reset_temp t T) = copy_set C T"
    "next_copy (reset_temp t T u) = next_copy (T u)" "prev_copy (reset_temp t T u) = prev_copy (T u)"
  using assms by (auto simp: copy_set_def reset_temp_def unlink_temp_def set_defs)

lemma reset_temp_short:
  assumes "t_state (T t) = TEMP_COPY" "prev_copy (T t) = next_copy (T t)"
  shows "copy_set C (reset_temp t T) = copy_set C T - {t, next_copy (T t)}"
    "next_copy (reset_temp t T u) = next_copy (T u)" "prev_copy (reset_temp t T u) = prev_copy (T u)"
  using assms by (auto simp: copy_set_def reset_temp_def unlink_temp_def set_defs)

lemma reset_temp_long:
  assumes "t_state (T t) = TEMP_COPY" "prev_copy (T t) \<noteq> next_copy (T t)"
    "next_copy (T t) \<noteq> t" "prev_copy (T t) \<noteq> t"
  shows "copy_set C (reset_temp t T) = copy_set C T - {t}"
    "(\<lambda>u. next_copy (reset_temp t T u)) = (\<lambda>u. next_copy (T u))(prev_copy (T t) := next_copy (T t))"
    "(\<lambda>u. prev_copy (reset_temp t T u)) = (\<lambda>u. prev_copy (T u))(next_copy (T t) := prev_copy (T t))"
  using assms by (auto simp: copy_set_def reset_temp_def unlink_temp_def set_defs Let_def fun_eq_iff)

lemma reset_temp_ring:
  assumes r: "ring (copy_set C T) (\<lambda>t. next_copy (T t)) (\<lambda>t. prev_copy (T t)) (temp_type C)"
    and t: "t < nb_temps C"
  shows "ring (copy_set C (reset_temp t T)) (\<lambda>u. next_copy (reset_temp t T u))
      (\<lambda>u. prev_copy (reset_temp t T u)) (temp_type C)"
    and "u \<in> copy_set C (reset_temp t T) \<Longrightarrow>
      u \<in> copy_set C T \<and> u \<noteq> t \<and>
      (next_copy (reset_temp t T u) = next_copy (T u) \<or>
       next_copy (T u) = t \<and> t \<in> copy_set C T \<and> next_copy (reset_temp t T u) = next_copy (T t))"
proof -
  consider (no) "t_state (T t) \<noteq> TEMP_COPY"
    | (short) "t \<in> copy_set C T" "prev_copy (T t) = next_copy (T t)"
    | (long) "t \<in> copy_set C T" "prev_copy (T t) \<noteq> next_copy (T t)"
    using t by (auto simp: copy_set_def)
  then have "ring (copy_set C (reset_temp t T)) (\<lambda>u. next_copy (reset_temp t T u))
      (\<lambda>u. prev_copy (reset_temp t T u)) (temp_type C) \<and>
    (u \<in> copy_set C (reset_temp t T) \<longrightarrow>
      u \<in> copy_set C T \<and> u \<noteq> t \<and>
      (next_copy (reset_temp t T u) = next_copy (T u) \<or>
       next_copy (T u) = t \<and> t \<in> copy_set C T \<and> next_copy (reset_temp t T u) = next_copy (T t)))"
  proof cases
    case no
    then show ?thesis
      using r by (auto simp: reset_temp_not_copy) (auto simp: copy_set_def)
  next
    case short
    then have s: "t_state (T t) = TEMP_COPY" by (simp add: copy_set_def)
    show ?thesis
      using ring_remove_short [OF r short] by (auto simp: reset_temp_short [of T t, OF s short(2)])
  next
    case long
    then have s: "t_state (T t) = TEMP_COPY" by (simp add: copy_set_def)
    note D = ringD [OF r long(1)]
    have nt: "next_copy (T t) \<noteq> t" "prev_copy (T t) \<noteq> t"
      using D long(2) by metis+
    note L = reset_temp_long [of T t, OF s long(2) nt]
    have "next_copy (reset_temp t T u) =
        (if u = prev_copy (T t) then next_copy (T t) else next_copy (T u))"
      using fun_cong [OF L(2), of u] by simp
    moreover have "next_copy (T (prev_copy (T t))) = t"
      using D by simp
    ultimately show ?thesis
      using ring_remove_long [OF r long] long(1) unfolding L by auto
  qed
  then show "ring (copy_set C (reset_temp t T)) (\<lambda>u. next_copy (reset_temp t T u))
      (\<lambda>u. prev_copy (reset_temp t T u)) (temp_type C)"
    and "u \<in> copy_set C (reset_temp t T) \<Longrightarrow>
      u \<in> copy_set C T \<and> u \<noteq> t \<and>
      (next_copy (reset_temp t T u) = next_copy (T u) \<or>
       next_copy (T u) = t \<and> t \<in> copy_set C T \<and> next_copy (reset_temp t T u) = next_copy (T t))"
    by blast+
qed

lemma info_ok_reset_temp:
  assumes "info_ok C T" "t < nb_temps C"
  shows "info_ok C (reset_temp t T)"
  unfolding info_ok_def
proof (intro conjI allI impI)
  show "ring (copy_set C (reset_temp t T)) (\<lambda>u. next_copy (reset_temp t T u))
      (\<lambda>u. prev_copy (reset_temp t T u)) (temp_type C)"
    using assms by (intro reset_temp_ring) (auto simp: info_ok_def)
  fix u assume "u < nb_temps C" "t_state (reset_temp t T u) = TEMP_CONST"
  then show "t_mask (reset_temp t T u) = t_val (reset_temp t T u)"
    using assms reset_temp_other [of u t T] by (cases "u = t") (auto simp: info_ok_def)
qed

text \<open>Forgetting a temporary makes room for any value in it.\<close>

lemma valid_reset_temp:
  assumes V: "valid C T \<sigma>" and t: "t < nb_temps C" and v: "\<And>x. v = Some x \<Longrightarrow> fits C t x"
  shows "valid C (reset_temp t T) (\<sigma>(t := v))"
proof -
  have I: "info_ok C T" and W: "val_ok C T \<sigma>" using V by (auto simp: valid_def)
  have r: "ring (copy_set C T) (\<lambda>t. next_copy (T t)) (\<lambda>t. prev_copy (T t)) (temp_type C)"
    using I by (simp add: info_ok_def)
  have "val_ok C (reset_temp t T) (\<sigma>(t := v))"
    unfolding val_ok_def
  proof (intro conjI allI impI ballI)
    fix u x assume u: "u < nb_temps C" "(\<sigma>(t := v)) u = Some x"
    show "fits C u x"
      using u v W by (auto simp: val_ok_def split: if_splits)
    show "x AND NOT (t_mask (reset_temp t T u)) = 0"
      using u W reset_temp_other [of u t T] by (cases "u = t") (auto simp: val_ok_def)
    assume "t_state (reset_temp t T u) = TEMP_CONST"
    then show "x = trunc_w (temp_type C u) (t_val (reset_temp t T u))"
      using u W reset_temp_other [of u t T] by (cases "u = t") (auto simp: val_ok_def)
  next
    fix u assume u: "u \<in> copy_set C (reset_temp t T)"
    note R = reset_temp_ring(2) [OF r t u]
    have n: "next_copy (reset_temp t T u) \<in> copy_set C (reset_temp t T)"
      using ringD(1) [OF reset_temp_ring(1) [OF r t] u] .
    then have nt: "next_copy (reset_temp t T u) \<noteq> t"
      using reset_temp_ring(2) [OF r t] by blast
    have eq: "\<sigma> (next_copy (T w)) = \<sigma> w" if "w \<in> copy_set C T" for w
      using W that by (simp add: val_ok_def)
    have "\<sigma> (next_copy (reset_temp t T u)) = \<sigma> u"
      using R eq [of u] eq [of t] by auto
    then show "(\<sigma>(t := v)) (next_copy (reset_temp t T u)) = (\<sigma>(t := v)) u"
      using R nt by simp
  qed
  then show ?thesis
    using info_ok_reset_temp [OF I t] by (simp add: valid_def)
qed

lemma trunc_w_idem [simp]: "trunc_w w (trunc_w w x) = trunc_w w x"
  by (cases w) (auto simp: trunc_w_def lo32_def intro!: bit_word_eqI simp: bit_simps)

lemma fits_trunc [simp]: "fits C t (trunc_w (temp_type C t) x)"
  by (simp add: fits_def)

lemma trunc_and_not [simp]: "trunc_w w v AND NOT v = 0"
  by (rule bit_word_eqI) (auto simp: trunc_w_def lo32_def bit_simps split: width.splits)

lemma val_okD:
  assumes "val_ok C T \<sigma>" "t < nb_temps C" "\<sigma> t = Some x"
  shows "fits C t x" "x AND NOT (t_mask (T t)) = 0"
    "t_state (T t) = TEMP_CONST \<Longrightarrow> x = trunc_w (temp_type C t) (t_val (T t))"
  using assms by (auto simp: val_ok_def)

lemma valid_fits: "valid C T \<sigma> \<Longrightarrow> t < nb_temps C \<Longrightarrow> \<sigma> t = Some x \<Longrightarrow> fits C t x"
  by (auto simp: valid_def val_ok_def)

definition typed :: "tcg_context \<Rightarrow> regs \<Rightarrow> bool" where
  "typed C \<sigma> \<longleftrightarrow> (\<forall>t < nb_temps C. \<forall>x. \<sigma> t = Some x \<longrightarrow> fits C t x)"

lemma valid_typed: "valid C T \<sigma> \<Longrightarrow> typed C \<sigma>"
  by (auto simp: typed_def valid_def val_ok_def)

lemma valid_reset_all:
  assumes "typed C \<sigma>"
  shows "valid C (reset_all_temps (nb_temps C) T) \<sigma>"
proof -
  have "copy_set C (reset_all_temps (nb_temps C) T) = {}"
    by (auto simp: copy_set_def reset_all_temps_def)
  then show ?thesis
    using assms by (auto simp: valid_def info_ok_def val_ok_def ring_def reset_all_temps_def typed_def)
qed

lemma copy_set_upd:
  assumes "t_state (T t) \<noteq> TEMP_COPY" "t_state i \<noteq> TEMP_COPY"
  shows "copy_set C (T(t := i)) = copy_set C T"
  using assms by (auto simp: copy_set_def)

lemma ring_cong:
  assumes "ring S nx pv ty" "\<And>t. t \<in> S \<Longrightarrow> nx' t = nx t" "\<And>t. t \<in> S \<Longrightarrow> pv' t = pv t"
  shows "ring S nx' pv' ty"
  using assms by (auto simp: ring_def)

lemma valid_set_mask:
  assumes V: "valid C T \<sigma>" and u: "t_state (T d) \<noteq> TEMP_CONST"
    and m: "\<And>x. \<sigma> d = Some x \<Longrightarrow> x AND NOT m = 0"
  shows "valid C (set_mask m d T) \<sigma>"
proof -
  have "copy_set C (set_mask m d T) = copy_set C T"
    by (auto simp: copy_set_def set_defs)
  then show ?thesis
    using V u m unfolding valid_def info_ok_def val_ok_def
    by (auto simp: set_defs ring_def)
qed

text \<open>A \<open>movi\<close> records a constant.\<close>

lemma valid_gen_movi:
  assumes V: "valid C T \<sigma>" and d: "d < nb_temps C"
    and v: "trunc_w (temp_type C d) v = trunc_w (temp_type C d) v'"
  shows "valid C (tcg_opt_gen_movi T d v) (put C d v' \<sigma>)"
proof -
  define T1 where "T1 = reset_temp d T"
  have V1: "valid C T1 (put C d v' \<sigma>)"
    unfolding T1_def put_def by (rule valid_reset_temp [OF V d]) auto
  have u: "t_state (T1 d) = TEMP_UNDEF" by (simp add: T1_def)
  define T2 where "T2 = T1(d := (T1 d)\<lparr>t_state := TEMP_CONST, t_val := v, t_mask := v\<rparr>)"
  have e: "tcg_opt_gen_movi T d v = T2"
    by (simp add: tcg_opt_gen_movi_def T2_def T1_def set_defs fun_eq_iff)
  have c: "copy_set C T2 = copy_set C T1"
    unfolding T2_def by (rule copy_set_upd) (simp_all add: u)
  have dn: "d \<notin> copy_set C T1" using u by (simp add: copy_set_def)
  have x: "trunc_w (temp_type C d) v' AND NOT v = 0"
    using trunc_and_not [of "temp_type C d" v] by (simp add: v)
  have "info_ok C T2"
    using V1 dn unfolding valid_def info_ok_def c
    by (auto simp: T2_def elim!: ring_cong)
  moreover have "val_ok C T2 (put C d v' \<sigma>)"
    unfolding val_ok_def c
  proof (intro conjI allI impI ballI)
    fix t y assume t: "t < nb_temps C" "put C d v' \<sigma> t = Some y"
    have W: "val_ok C T1 (put C d v' \<sigma>)" using V1 by (simp add: valid_def)
    note D = val_okD [OF W t]
    show "fits C t y" by (rule D)
    show "y AND NOT (t_mask (T2 t)) = 0"
      using D(2) t x by (cases "t = d") (auto simp: T2_def put_def)
    assume "t_state (T2 t) = TEMP_CONST"
    then show "y = trunc_w (temp_type C t) (t_val (T2 t))"
      using D(3) t v by (cases "t = d") (auto simp: T2_def put_def)
  next
    fix t assume "t \<in> copy_set C T1"
    then show "put C d v' \<sigma> (next_copy (T2 t)) = put C d v' \<sigma> t"
      using V1 dn by (auto simp: valid_def val_ok_def T2_def)
  qed
  ultimately show ?thesis by (simp add: e valid_def)
qed

text \<open>A \<open>mov\<close> between temporaries of one type joins the destination to the ring of the source.\<close>

definition make_single :: "tmp \<Rightarrow> temps \<Rightarrow> temps" where
  "make_single s T =
     (if t_state (T s) \<noteq> TEMP_COPY
      then set_prev s s (set_next s s (set_state TEMP_COPY s T)) else T)"

definition join_ring :: "tmp \<Rightarrow> tmp \<Rightarrow> temps \<Rightarrow> temps" where
  "join_ring d s T =
     (let T = set_prev s d (set_next (next_copy (T s)) d (set_state TEMP_COPY d T));
          T = set_prev d (next_copy (T d)) T
      in set_next d s T)"

lemma valid_make_single:
  assumes V: "valid C T \<sigma>" and s: "s < nb_temps C" and c: "t_state (T s) \<noteq> TEMP_CONST"
  shows "valid C (make_single s T) \<sigma>" "s \<in> copy_set C (make_single s T)"
    "d \<noteq> s \<Longrightarrow> d \<notin> copy_set C T \<Longrightarrow> d \<notin> copy_set C (make_single s T)"
    "d \<noteq> s \<Longrightarrow> t_state (make_single s T d) = t_state (T d)"
proof -
  have "valid C (make_single s T) \<sigma> \<and> s \<in> copy_set C (make_single s T)"
  proof (cases "t_state (T s) = TEMP_COPY")
    case True
    then show ?thesis using V s by (simp add: make_single_def copy_set_def)
  next
    case False
    define T' where "T' = T(s := (T s)\<lparr>t_state := TEMP_COPY, next_copy := s, prev_copy := s\<rparr>)"
    have e: "make_single s T = T'"
      using False by (simp add: make_single_def T'_def set_defs fun_eq_iff)
    have cs: "copy_set C T' = insert s (copy_set C T)"
      using s by (auto simp: T'_def copy_set_def)
    have ns: "s \<notin> copy_set C T" using False by (simp add: copy_set_def)
    have lk: "(\<lambda>t. next_copy (T' t)) = (\<lambda>t. next_copy (T t))(s := s)"
      "(\<lambda>t. prev_copy (T' t)) = (\<lambda>t. prev_copy (T t))(s := s)"
      by (auto simp: T'_def)
    have "info_ok C T'"
      using V ring_single [OF _ ns] unfolding valid_def info_ok_def cs lk
      by (auto simp: T'_def)
    moreover have "val_ok C T' \<sigma>"
      using V ns unfolding valid_def val_ok_def cs by (auto simp: T'_def)
    ultimately show ?thesis by (simp add: valid_def e cs)
  qed
  then show "valid C (make_single s T) \<sigma>" "s \<in> copy_set C (make_single s T)" by auto
  show "d \<noteq> s \<Longrightarrow> d \<notin> copy_set C T \<Longrightarrow> d \<notin> copy_set C (make_single s T)"
    "d \<noteq> s \<Longrightarrow> t_state (make_single s T d) = t_state (T d)"
    by (auto simp: make_single_def copy_set_def set_defs)
qed

lemma valid_join_ring:
  assumes V: "valid C T \<sigma>" and s: "s \<in> copy_set C T" and d: "d < nb_temps C" "t_state (T d) = TEMP_UNDEF"
    and ty: "temp_type C d = temp_type C s" and eq: "\<sigma> d = \<sigma> s"
  shows "valid C (join_ring d s T) \<sigma>"
proof -
  define n where "n = next_copy (T s)"
  define T' where "T' = join_ring d s T"
  have r: "ring (copy_set C T) (\<lambda>t. next_copy (T t)) (\<lambda>t. prev_copy (T t)) (temp_type C)"
    using V by (simp add: valid_def info_ok_def)
  have dn: "d \<notin> copy_set C T" using d by (simp add: copy_set_def)
  have ds: "d \<noteq> s" "n \<noteq> d" using s dn ringD(1) [OF r s] by (auto simp: n_def)
  have lk: "(\<lambda>t. next_copy (T' t)) = (\<lambda>t. next_copy (T t))(d := n, s := d)"
    "(\<lambda>t. prev_copy (T' t)) = (\<lambda>t. prev_copy (T t))(d := s, n := d)"
    using ds by (auto simp: T'_def join_ring_def set_defs Let_def fun_eq_iff n_def)
  have st: "t_state (T' t) = (if t = d then TEMP_COPY else t_state (T t))"
    "t_mask (T' t) = t_mask (T t)" "t_val (T' t) = t_val (T t)" for t
    using ds by (auto simp: T'_def join_ring_def set_defs Let_def n_def)
  have cs: "copy_set C T' = insert d (copy_set C T)"
    using d by (auto simp: copy_set_def st)
  have "ring (copy_set C T') (\<lambda>t. next_copy (T' t)) (\<lambda>t. prev_copy (T' t)) (temp_type C)"
    unfolding cs lk n_def by (rule ring_insert [OF r s dn ty])
  then have "info_ok C T'"
    using V by (auto simp: valid_def info_ok_def st split: if_splits)
  moreover have "val_ok C T' \<sigma>"
  proof -
    have "\<sigma> (next_copy (T' t)) = \<sigma> t" if "t \<in> copy_set C T'" for t
    proof -
      have nx: "next_copy (T' t) = (if t = s then d else if t = d then n else next_copy (T t))"
        using fun_cong [OF lk(1), of t] by simp
      have old: "\<sigma> (next_copy (T u)) = \<sigma> u" if "u \<in> copy_set C T" for u
        using V that by (simp add: valid_def val_ok_def)
      show ?thesis
        using that eq old [OF s] old [of t] ds by (auto simp: nx cs n_def)
    qed
    then show ?thesis
      using V unfolding valid_def val_ok_def by (auto simp: st split: if_splits)
  qed
  ultimately show ?thesis by (simp add: valid_def T'_def)
qed

lemma mask_trunc: "y AND NOT m = 0 \<Longrightarrow> trunc_w w y AND NOT m = (0 :: u64)"
  by (cases w) (auto simp: trunc_w_def lo32_def word_eq_bits bit_simps)

lemma valid_gen_mov:
  assumes V: "valid C T \<sigma>" and d: "d < nb_temps C" and s: "s < nb_temps C" and ds: "d \<noteq> s"
    and y: "\<sigma> s = Some y" and g: "tcg_opt_gen_mov C T d s = Inr T'"
  shows "valid C T' (put C d y \<sigma>)"
proof -
  define T1 where "T1 = set_mask (t_mask (reset_temp d T s)) d (reset_temp d T)"
  have V0: "valid C (reset_temp d T) (put C d y \<sigma>)"
    unfolding put_def by (rule valid_reset_temp [OF V d]) auto
  have m: "y AND NOT (t_mask (T s)) = 0"
    using V s y by (auto simp: valid_def val_ok_def)
  have V1: "valid C T1 (put C d y \<sigma>)"
    unfolding T1_def using reset_temp_other(1) [of s d T] ds m
    by (intro valid_set_mask [OF V0]) (auto simp: put_def mask_trunc)
  have u1: "t_state (T1 d) = TEMP_UNDEF" by (simp add: T1_def set_defs)
  have c: "t_state (T1 s) \<noteq> TEMP_CONST" and T': "T' =
      (if temp_type C s = temp_type C d then join_ring d s (make_single s T1) else T1)"
    using g by (auto simp: tcg_opt_gen_mov_def T1_def Let_def make_single_def join_ring_def c_simps)
  show ?thesis
  proof (cases "temp_type C s = temp_type C d")
    case False
    then show ?thesis using V1 T' by simp
  next
    case True
    have "y = trunc_w (temp_type C d) y"
      using valid_fits [OF V s y] True by (simp add: fits_def)
    then have eq: "put C d y \<sigma> d = put C d y \<sigma> s"
      using y ds by (simp add: put_def)
    note M = valid_make_single [OF V1 s c]
    show ?thesis
      using valid_join_ring [OF M(1,2) d _ True [symmetric] eq] M(4) [OF ds] u1 T' True by simp
  qed
qed

section \<open>Looking for copies\<close>

lemma find_copy_sound:
  assumes V: "valid C T \<sigma>"
  shows "find_copy T P t n i = Inr (Some j) \<Longrightarrow> i \<in> copy_set C T \<Longrightarrow>
    P j \<and> j \<in> copy_set C T \<and> \<sigma> j = \<sigma> i \<and> temp_type C j = temp_type C i"
proof (induction n arbitrary: i)
  case (Suc n)
  have r: "ring (copy_set C T) (\<lambda>t. next_copy (T t)) (\<lambda>t. prev_copy (T t)) (temp_type C)"
    using V by (simp add: valid_def info_ok_def)
  have e: "\<sigma> (next_copy (T i)) = \<sigma> i"
    using V Suc.prems(2) by (simp add: valid_def val_ok_def)
  show ?case
    using Suc.prems Suc.IH [of "next_copy (T i)"] ringD(1,5) [OF r Suc.prems(2)] e
    by (auto split: if_splits)
qed simp

lemma walk_Suc:
  "((\<lambda>t. next_copy (T t)) ^^ j) (next_copy (T i)) = ((\<lambda>t. next_copy (T t)) ^^ Suc j) i"
  by (simp only: funpow_Suc_right o_apply)

lemma find_copy_returns:
  assumes "(((\<lambda>t. next_copy (T t)) ^^ k) i) = t" "k < n"
  shows "\<exists>r. find_copy T P t n i = Inr r"
  using assms
proof (induction n arbitrary: i k)
  case (Suc n)
  show ?case
  proof (cases k)
    case 0
    then show ?thesis using Suc.prems by simp
  next
    case (Suc j)
    then have "((\<lambda>t. next_copy (T t)) ^^ j) (next_copy (T i)) = t"
      using Suc.prems(1) by (simp only: walk_Suc)
    from Suc.IH [OF this] show ?thesis using Suc Suc.prems(2) by simp
  qed
qed simp

lemma find_copy_next_returns:
  assumes I: "info_ok C T" and t: "t \<in> copy_set C T"
  shows "\<exists>r. find_copy T P t (nb_temps C) (next_copy (T t)) = Inr r"
proof -
  have r: "ring (copy_set C T) (\<lambda>t. next_copy (T t)) (\<lambda>t. prev_copy (T t)) (temp_type C)"
    using I by (simp add: info_ok_def)
  obtain k where k: "0 < k" "k \<le> card (copy_set C T)" "((\<lambda>t. next_copy (T t)) ^^ k) t = t"
    using ring_returns [OF r t] by auto
  then obtain j where j: "k = Suc j" by (cases k) auto
  show ?thesis
    by (rule find_copy_returns [where k = j], simp only: walk_Suc)
      (use k j card_copy_set [of C T] in auto)
qed

lemma temps_are_copies_returns:
  assumes "info_ok C T" "a < nb_temps C"
  shows "\<exists>r. temps_are_copies C T a b = Inr r"
  using assms find_copy_next_returns [OF assms(1), of a "\<lambda>i. i = b"]
  by (auto simp: temps_are_copies_def copy_set_def)

lemma temps_are_copies_sound:
  assumes V: "valid C T \<sigma>" and a: "a < nb_temps C" and c: "temps_are_copies C T a b = Inr True"
  shows "\<sigma> b = \<sigma> a \<and> temp_type C b = temp_type C a"
proof (cases "a = b")
  case False
  then have s: "a \<in> copy_set C T"
    using c a by (auto simp: temps_are_copies_def copy_set_def split: if_splits)
  have r: "ring (copy_set C T) (\<lambda>t. next_copy (T t)) (\<lambda>t. prev_copy (T t)) (temp_type C)"
    using V by (simp add: valid_def info_ok_def)
  obtain j where "find_copy T (\<lambda>i. i = b) a (nb_temps C) (next_copy (T a)) = Inr (Some j)"
    using c False by (auto simp: temps_are_copies_def c_simps split: if_splits)
  from find_copy_sound [OF V this] show ?thesis
    using ringD(1,5) [OF r s] V s by (auto simp: valid_def val_ok_def)
qed simp

lemma prop_arg_returns:
  assumes "info_ok C T" "a < nb_temps C"
  shows "\<exists>r. prop_arg C T a = Inr r"
proof (cases "a \<in> copy_set C T")
  case True
  note R = find_copy_next_returns [OF assms(1) True]
  obtain r1 r2 where
    "find_copy T (\<lambda>i. i < nb_globals C) a (nb_temps C) (next_copy (T a)) = Inr r1"
    "find_copy T (temp_local C) a (nb_temps C) (next_copy (T a)) = Inr r2"
    using R by metis
  then show ?thesis
    by (auto simp: prop_arg_def find_better_copy_def split: option.splits)
next
  case False
  then show ?thesis using assms by (simp add: prop_arg_def copy_set_def)
qed

lemma prop_arg_sound:
  assumes V: "valid C T \<sigma>" and a: "a < nb_temps C" and p: "prop_arg C T a = Inr b"
  shows "b < nb_temps C \<and> \<sigma> b = \<sigma> a \<and> temp_type C b = temp_type C a"
proof (cases "b = a")
  case False
  then have s: "a \<in> copy_set C T"
    using p a by (auto simp: prop_arg_def copy_set_def split: if_splits)
  have r: "ring (copy_set C T) (\<lambda>t. next_copy (T t)) (\<lambda>t. prev_copy (T t)) (temp_type C)"
    using V by (simp add: valid_def info_ok_def)
  obtain P where "find_copy T P a (nb_temps C) (next_copy (T a)) = Inr (Some b)"
    using p False by (auto simp: prop_arg_def find_better_copy_def c_simps split: if_splits option.splits)
  from find_copy_sound [OF V this] show ?thesis
    using ringD(1,5) [OF r s] V s by (auto simp: valid_def val_ok_def copy_set_def)
qed (use a in simp)

end
