(* ===== verification/Tcg_Folding.thy ===== *)
theory Tcg_Folding
  imports Tcg_Knowledge
begin

text \<open>
  The constant folder of the optimiser against the interpreter: a folded operation or condition
  has the value the operation computes.
\<close>

section \<open>The constant folder computes what the operations compute\<close>

lemma lo32_take_bit: "lo32 x = take_bit 32 x"
  by (rule bit_word_eqI) (simp add: lo32_def bit_simps)

lemma lo32_scast [simp]: "lo32 (scast (z :: u32)) = ucast z"
proof (rule bit_word_eqI)
  fix n assume "n < LENGTH(64)"
  then show "bit (lo32 (scast z)) n = bit (ucast z :: u64) n"
    using bit_imp_le_length [of z n]
    by (cases "n < 32") (auto simp: lo32_def bit_simps min_absorb2)
qed

lemma lo32_ucast [simp]: "lo32 (ucast (z :: u32)) = ucast z"
  "(ucast (lo32 x) :: u32) = ucast x" "(ucast (lo32 x) :: u16) = ucast x" "(ucast (lo32 x) :: u8) = ucast x"
  "(ucast (ucast (z :: u32) :: u64) :: u32) = z"
  by (rule bit_word_eqI,
      force simp: lo32_def bit_simps min_def not_le less_Suc_eq_le dest: bit_imp_le_length)+

lemma lo32_lo32 [simp]: "lo32 (lo32 x) = lo32 x"
  by (simp add: lo32_take_bit)

lemma lo32_word_of_int [simp]: "lo32 (word_of_int k) = of_int32 k"
  by (rule bit_word_eqI) (auto simp: lo32_def of_int32_def bit_simps)

lemma int32_lo32 [simp]: "int32 (lo32 x) = int32 x"
  by (simp add: int32_def)

lemma unat_lo32_ucast: "unat (lo32 x) = unat (ucast x :: u32)"
  by (simp add: lo32_def unat_ucast_64)

lemma lo32_ucast_def: "lo32 x = ucast (ucast x :: u32)"
  by (simp add: lo32_def)

lemma ucast_down_of_int: "(ucast (word_of_int k :: u64) :: u32) = word_of_int k"
  by (rule bit_word_eqI) (simp add: bit_simps)

lemma ucast_down_arith:
  "(ucast (x + y) :: u32) = ucast x + ucast y" "(ucast (x - y) :: u32) = ucast x - ucast y"
  "(ucast (x * y) :: u32) = ucast x * ucast y" "(ucast (- x) :: u32) = - ucast x" for x y :: u64
  using ucast_down_of_int [of "uint x + uint y"] ucast_down_of_int [of "uint x - uint y"]
    ucast_down_of_int [of "uint x * uint y"] ucast_down_of_int [of "- uint x"]
  by simp_all

lemma lo32_arith:
  "lo32 (lo32 x + lo32 y) = lo32 (x + y)" "lo32 (lo32 x - lo32 y) = lo32 (x - y)"
  "lo32 (lo32 x * lo32 y) = lo32 (x * y)" "lo32 (- lo32 x) = lo32 (- x)"
  unfolding lo32_ucast_def ucast_down_arith by simp_all

lemma lo32_logic:
  "lo32 (lo32 x AND lo32 y) = lo32 (x AND y)"
  "lo32 (lo32 x OR lo32 y) = lo32 (x OR y)" "lo32 (lo32 x XOR lo32 y) = lo32 (x XOR y)"
  "lo32 (NOT (lo32 x)) = lo32 (NOT x)"
  "lo32 (lo32 x AND NOT (lo32 y)) = lo32 (x AND NOT y)" "lo32 (lo32 x OR NOT (lo32 y)) = lo32 (x OR NOT y)"
  "lo32 (NOT (lo32 x XOR lo32 y)) = lo32 (NOT (x XOR y))"
  "lo32 (NOT (lo32 x AND lo32 y)) = lo32 (NOT (x AND y))"
  "lo32 (NOT (lo32 x OR lo32 y)) = lo32 (NOT (x OR y))"
  "lo32 (NOT (lo32 x) OR NOT (lo32 y)) = lo32 (NOT x OR NOT y)"
  "lo32 (NOT (lo32 x) AND NOT (lo32 y)) = lo32 (NOT x AND NOT y)"
  unfolding lo32_take_bit by (rule bit_word_eqI, auto simp: bit_simps)+

lemma int_unat_uint: "int (unat x) = uint x"
  by simp

lemma of_nat_high_product:
  "(of_nat ((unat x * unat y) div 2 ^ 64) :: u64) = word_of_int ((uint x * uint y) div 2 ^ 64)" for x y :: u64
proof -
  have "int ((unat x * unat y) div 2 ^ 64) = (uint x * uint y) div 2 ^ 64"
    by (simp only: zdiv_int of_nat_mult of_nat_power of_nat_numeral int_unat_uint)
  then have "(word_of_int (int ((unat x * unat y) div 2 ^ 64)) :: u64) = word_of_int ((uint x * uint y) div 2 ^ 64)"
    by (rule arg_cong)
  then show ?thesis by (simp only: of_int_of_nat_eq)
qed

lemma fold_muluh_32: "lo32 (drop_bit 32 (lo32 x * lo32 y)) = of_nat ((unat (lo32 x) * unat (lo32 y)) div 2 ^ 32)"
proof -
  have "unat (lo32 x) * unat (lo32 y) \<le> (2 ^ 32 - 1) * (2 ^ 32 - 1)"
    by (intro mult_le_mono) (simp_all add: unat_lo32 less_Suc_eq_le [symmetric])
  then have p: "unat (lo32 x * lo32 y) = unat (lo32 x) * unat (lo32 y)"
    by (intro unat_mult_below) simp
  have "unat (hi32 (lo32 x * lo32 y)) < 2 ^ 32"
    using unat_below [of "lo32 x * lo32 y"] unfolding unat_hi32 by (auto intro!: less_mult_imp_div_less)
  then have "unat (lo32 (hi32 (lo32 x * lo32 y))) = (unat (lo32 x) * unat (lo32 y)) div 2 ^ 32"
    unfolding unat_lo32 [of "hi32 _"] by (simp add: unat_hi32 p)
  then show ?thesis
    unfolding hi32_def by (rule word_eq_of_unat)
qed

lemma fold_mulsh_32:
  "lo32 (signed_drop_bit 32 (scast (ucast x :: u32) * scast (ucast y :: u32))) =
   of_int32 ((int32 x * int32 y) div 2 ^ 32)"
proof -
  have "(scast (ucast x :: u32) * scast (ucast y :: u32) :: u64) = word_of_int (int32 x * int32 y)"
    by (simp add: int32_def)
  moreover have "lo32 (signed_drop_bit 32 (word_of_int k)) = of_int32 (k div 2 ^ 32)" for k
    unfolding drop_bit_eq_div [symmetric]
    by (rule bit_word_eqI) (auto simp: lo32_def of_int32_def bit_simps)
  ultimately show ?thesis by (simp only:)
qed

lemma fold_mulh_64:
  "snd (mulu64 x y) = of_nat ((unat x * unat y) div 2 ^ 64)"
  "snd (muls64 x y) = word_of_int ((sint x * sint y) div 2 ^ 64)"
proof -
  show "snd (mulu64 x y) = of_nat ((unat x * unat y) div 2 ^ 64)"
    by (simp only: mulu64_def mul64_words snd_conv of_nat_high_product)
  have "(scast x :: 128 word) * scast y = word_of_int (sint x * sint y)"
    by simp
  then show "snd (muls64 x y) = word_of_int ((sint x * sint y) div 2 ^ 64)"
    by (simp only: muls64_eq_int128 muls64_int128_def Let_def snd_conv ucast_high_128)
qed

lemma lo32_shifts:
  assumes "n < 32"
  shows "lo32 (push_bit n (lo32 x)) = ucast (push_bit n (ucast x :: u32))"
    "lo32 (drop_bit n (lo32 x)) = ucast (drop_bit n (ucast x :: u32))"
  using assms by (auto intro!: bit_word_eqI simp: lo32_def bit_simps)

lemma lo32_divide:
  "lo32 (lo32 x div lo32 y) = ucast ((ucast x :: u32) div ucast y)"
  "lo32 (lo32 x mod lo32 y) = ucast ((ucast x :: u32) mod ucast y)"
proof -
  have "lo32 x div lo32 y = ucast ((ucast x :: u32) div ucast y)"
    by (rule word_unat_eq_iff [THEN iffD2]) (simp only: unat_div unat_ucast_64 lo32_def)
  then show "lo32 (lo32 x div lo32 y) = ucast ((ucast x :: u32) div ucast y)" by simp
  have "lo32 x mod lo32 y = ucast ((ucast x :: u32) mod ucast y)"
    by (rule word_unat_eq_iff [THEN iffD2]) (simp only: unat_mod unat_ucast_64 lo32_def)
  then show "lo32 (lo32 x mod lo32 y) = ucast ((ucast x :: u32) mod ucast y)" by simp
qed

lemma lo32_zero_iff: "lo32 y = 0 \<longleftrightarrow> (ucast y :: u32) = 0"
  by (auto simp: lo32_ucast_def word_eq_bits bit_simps)

lemma fold_bin_32:
  assumes "fold_bin_2 opc W32 x y = Inr v" "eval_bin opc W32 x y = Some r"
  shows "lo32 v = r"
proof (cases opc)
  case O_shl
  then show ?thesis using assms
    by (auto simp: fold_bin_2_def eval_bin_def tci_shift_i32_def map_sum_r_def c_shl_def ok_def Let_def
        unat_lo32_ucast lo32_shifts split: if_splits)
qed (use assms in \<open>auto simp: fold_bin_2_def eval_bin_def tci_arith_i32_def tci_shift_i32_def
   ref_binop_def map_sum_r_def c_shl_def c_shr_def c_sar_def ok_def Let_def trunc_w_def
   unat_lo32_ucast lo32_shifts lo32_arith lo32_logic lo32_divide lo32_zero_iff fold_muluh_32 fold_mulsh_32
   c_simps c_sdiv_def c_smod_def or1_def split: if_splits sum.splits\<close>)

lemma fold_bin_64:
  assumes "fold_bin_2 opc W64 x y = Inr v" "eval_bin opc W64 x y = Some r"
  shows "v = r"
  using assms
  by (cases opc) (auto simp: fold_bin_2_def eval_bin_def tci_arith_i64_def tci_shift_i64_def
   ref_binop_def map_sum_r_def ok_def Let_def trunc_w_def fold_mulh_64
   c_simps c_sdiv_def c_smod_def or1_def signed_eq_0_iff split: if_splits sum.splits)

lemma fold_un_sound:
  assumes "fold_un_2 opc w x = Inr v" "eval_un opc w x = Some r"
  shows "trunc_w w v = r"
  using assms
  by (cases w; cases opc) (auto simp: fold_un_2_def eval_un_def tci_unary_i32_def tci_unary_i64_def
      trunc_w_def lo32_arith lo32_logic, (rule bit_word_eqI, force simp: lo32_def bit_simps)+)

lemma fold_bin_sound:
  assumes "fold_bin_2 opc w x y = Inr v" "eval_bin opc w x y = Some r"
  shows "trunc_w w v = r"
  using assms fold_bin_32 fold_bin_64 by (cases w) (auto simp: trunc_w_def)

text \<open>An operation looks only at the low bits of its operands, up to its width.\<close>

lemma ucast_lo32_cong:
  assumes "lo32 x = lo32 x'"
  shows "(ucast x :: u32) = ucast x'" "(ucast x :: u16) = ucast x'" "(ucast x :: u8) = ucast x'"
    "int32 x = int32 x'"
  using assms lo32_ucast(2-4) [of x] lo32_ucast(2-4) [of x'] int32_lo32 [of x] int32_lo32 [of x'] by metis+

lemma eval_bin_cong:
  assumes "trunc_w w x = trunc_w w x'" "trunc_w w y = trunc_w w y'"
  shows "eval_bin opc w x y = eval_bin opc w x' y'"
  using assms
  by (cases w) (auto simp: trunc_w_def eval_bin_def tci_arith_i32_def tci_shift_i32_def ref_binop_def Let_def)

lemma eval_un_cong:
  assumes "trunc_w w x = trunc_w w x'"
  shows "eval_un opc w x = eval_un opc w x'"
  using assms ucast_lo32_cong [of x x']
  by (cases w; cases opc) (auto simp: trunc_w_def eval_un_def tci_unary_i32_def)

lemma eval_ext32_cong:
  assumes "lo32 x = lo32 x'" "opc = O_ext32s \<or> opc = O_ext32u"
  shows "eval_un opc w x = eval_un opc w x'"
  using assms ucast_lo32_cong [of x x']
  by (cases w; cases opc) (auto simp: eval_un_def tci_unary_i32_def tci_unary_i64_def)

lemma eval_deposit_cong:
  assumes "trunc_w w x = trunc_w w x'" "trunc_w w y = trunc_w w y'"
  shows "eval_deposit w x y pos len = eval_deposit w x' y' pos len"
  using assms
  by (cases w) (auto simp: trunc_w_def eval_deposit_def tci_deposit_i32_def)

lemma compare_w_cong:
  assumes "trunc_w w x = trunc_w w x'" "trunc_w w y = trunc_w w y'"
  shows "compare_w w x y c = compare_w w x' y' c"
  using assms ucast_lo32_cong [of x x'] ucast_lo32_cong [of y y']
  by (cases w) (auto simp: trunc_w_def compare_w_def)

lemma eval_bin_trunc: "eval_bin opc w x y = Some r \<Longrightarrow> trunc_w w r = r"
proof (cases w)
  case W32
  assume e: "eval_bin opc w x y = Some r"
  have n: "lo32 (of_nat ((unat (lo32 x) * unat (lo32 y)) div 2 ^ 32)) = of_nat ((unat (lo32 x) * unat (lo32 y)) div 2 ^ 32)"
    unfolding fold_muluh_32 [symmetric] by simp
  have i: "lo32 (of_int32 k) = of_int32 k" for k by (simp add: of_int32_def)
  show ?thesis using e W32 n i
    by (cases opc) (auto simp: eval_bin_def tci_arith_i32_def tci_shift_i32_def ref_binop_def Let_def trunc_w_def
        map_option_case split: if_splits option.splits)
qed (simp add: trunc_w_def)

lemma eval_un_trunc: "eval_un opc w x = Some r \<Longrightarrow> trunc_w w r = r"
proof (cases w)
  case W32
  assume e: "eval_un opc w x = Some r"
  have l: "lo32 (ucast (z :: u8)) = ucast z" "lo32 (ucast (u :: u16)) = ucast u" for z u
    by (rule bit_word_eqI, force simp: lo32_def bit_simps dest: bit_imp_le_length)+
  show ?thesis using e W32 l
    by (cases opc) (auto simp: eval_un_def tci_unary_i32_def trunc_w_def)
qed (simp add: trunc_w_def)

text \<open>Conditions.\<close>

lemma cond_code_ops:
  "cond_code (tcg_invert_cond c) = cond_code c XOR 1"
  "cond_code (tcg_swap_cond c) = (if cond_code c AND 6 \<noteq> 0 then cond_code c XOR 9 else cond_code c)"
  by (cases c; simp)+

lemma compare_swap: "compare_w w y x (tcg_swap_cond c) = compare_w w x y c"
  by (cases c; cases w) (auto simp: compare_w_def tci_compare32_def tci_compare64_def)

lemma compare_invert: "compare_w w x y (tcg_invert_cond c) = map_option Not (compare_w w x y c)"
  by (cases c; cases w) (auto simp: compare_w_def tci_compare32_def tci_compare64_def)

lemma compare64_swap: "tci_compare64 y x (tcg_swap_cond c) = tci_compare64 x y c"
  by (cases c) (auto simp: tci_compare64_def)

lemma fold_cond_32: "do_constant_folding_cond_32 x y c = Inr r \<Longrightarrow> tci_compare32 x y c = Some r"
  by (cases c) (auto simp: do_constant_folding_cond_32_def tci_compare32_def)

lemma fold_cond_64: "do_constant_folding_cond_64 x y c = Inr r \<Longrightarrow> tci_compare64 x y c = Some r"
  by (cases c) (auto simp: do_constant_folding_cond_64_def tci_compare64_def)

lemma fold_cond_eq:
  "do_constant_folding_cond_eq c = Inr r \<Longrightarrow> compare_w w x x c = Some r \<and> tci_compare64 y y c = Some r"
  by (cases c; cases w) (auto simp: do_constant_folding_cond_eq_def compare_w_def tci_compare32_def tci_compare64_def)

lemma compare_zero:
  "compare_w W64 x 0 COND_LTU = Some False" "compare_w W64 x 0 COND_GEU = Some True"
  "compare_w W32 x 0 COND_LTU = Some False" "compare_w W32 x 0 COND_GEU = Some True"
  by (auto simp: compare_w_def tci_compare32_def tci_compare64_def)

end
