(* ===== verification/Tcg_Simplify.thy ===== *)
theory Tcg_Simplify
  imports Tcg_Folding
begin

text \<open>
  The simplifications of one operation that come before folding: every replacement computes what
  the operation computes, and the masks of possibly nonzero bits contain the result.
\<close>

subsection \<open>Well typed operations\<close>

text \<open>
  An operation is well typed when its temporaries exist, its results go to temporaries of its
  width and its 64 bit operands are 64 bit temporaries.  The 64 bit high products are left out:
  their entries in the opcode table lack the 64 bit flag.
\<close>

definition in_ok :: "tcg_context \<Rightarrow> width \<Rightarrow> tmp \<Rightarrow> bool" where
  "in_ok C w a \<longleftrightarrow> a < nb_temps C \<and> (w = W64 \<longrightarrow> temp_type C a = W64)"

definition out_ok :: "tcg_context \<Rightarrow> width \<Rightarrow> tmp \<Rightarrow> bool" where
  "out_ok C w d \<longleftrightarrow> d < nb_temps C \<and> temp_type C d = w"

definition ext32 :: "tcg_unop \<Rightarrow> bool" where
  "ext32 opc \<longleftrightarrow> opc = O_ext32s \<or> opc = O_ext32u"

definition mulh :: "tcg_binop \<Rightarrow> bool" where
  "mulh opc \<longleftrightarrow> opc = O_muluh \<or> opc = O_mulsh"

definition wt_op :: "tcg_context \<Rightarrow> tcg_op \<Rightarrow> bool" where
  "wt_op C opn = (case opn of
     Op_discard d \<Rightarrow> d < nb_temps C
   | Op_call outs ins _ \<Rightarrow> (\<forall>t \<in> set outs \<union> set ins. t < nb_temps C)
   | Op_mov w d a \<Rightarrow> out_ok C w d \<and> in_ok C w a
   | Op_movi w d _ \<Rightarrow> out_ok C w d
   | Op_un opc w d a \<Rightarrow> out_ok C w d \<and> in_ok C (if ext32 opc then W32 else w) a
   | Op_bin opc w d a b \<Rightarrow> out_ok C w d \<and> in_ok C w a \<and> in_ok C w b \<and> \<not> (mulh opc \<and> w = W64)
   | Op_deposit w d a b _ _ \<Rightarrow> out_ok C w d \<and> in_ok C w a \<and> in_ok C w b
   | Op_setcond w d a b _ \<Rightarrow> out_ok C w d \<and> in_ok C w a \<and> in_ok C w b
   | Op_movcond w d c1 c2 v1 v2 _ \<Rightarrow>
       out_ok C w d \<and> in_ok C w c1 \<and> in_ok C w c2 \<and> in_ok C w v1 \<and> in_ok C w v2
   | Op_brcond w a b _ _ \<Rightarrow> in_ok C w a \<and> in_ok C w b
   | Op_add2 w rl rh al ah bl bh \<Rightarrow> out_ok C w rl \<and> out_ok C w rh \<and>
       in_ok C w al \<and> in_ok C w ah \<and> in_ok C w bl \<and> in_ok C w bh
   | Op_sub2 w rl rh al ah bl bh \<Rightarrow> out_ok C w rl \<and> out_ok C w rh \<and>
       in_ok C w al \<and> in_ok C w ah \<and> in_ok C w bl \<and> in_ok C w bh
   | Op_mulu2 w rl rh a b \<Rightarrow> out_ok C w rl \<and> out_ok C w rh \<and> in_ok C w a \<and> in_ok C w b
   | Op_muls2 w rl rh a b \<Rightarrow> out_ok C w rl \<and> out_ok C w rh \<and> in_ok C w a \<and> in_ok C w b
   | Op_brcond2 al ah bl bh _ _ \<Rightarrow> in_ok C W32 al \<and> in_ok C W32 ah \<and> in_ok C W32 bl \<and> in_ok C W32 bh
   | Op_setcond2 d al ah bl bh _ \<Rightarrow> out_ok C W32 d \<and>
       in_ok C W32 al \<and> in_ok C W32 ah \<and> in_ok C W32 bl \<and> in_ok C W32 bh
   | Op_ld _ w d a _ \<Rightarrow> out_ok C w d \<and> in_ok C W32 a
   | Op_st _ _ v a _ \<Rightarrow> in_ok C W32 v \<and> in_ok C W32 a
   | Op_qemu_ld _ d a _ \<Rightarrow> d < nb_temps C \<and> in_ok C W32 a
   | Op_qemu_st _ v a _ \<Rightarrow> in_ok C W32 v \<and> in_ok C W32 a
   | _ \<Rightarrow> True)"

lemma const_read:
  assumes V: "valid C T \<sigma>" and i: "in_ok C w a" and c: "is_const T a" and x: "\<sigma> a = Some x"
  shows "trunc_w w x = trunc_w w (t_val (T a))"
proof -
  have "x = trunc_w (temp_type C a) (t_val (T a))"
    using V i c x val_okD(3) [of C T \<sigma> a x] by (auto simp: valid_def in_ok_def is_const_def)
  then show ?thesis using i
    by (cases w; cases "temp_type C a") (auto simp: in_ok_def trunc_w_def)
qed

lemma const_val_read:
  assumes "valid C T \<sigma>" "in_ok C w a" "is_const_val T a v" "\<sigma> a = Some x"
  shows "trunc_w w x = trunc_w w v"
  using const_read [OF assms(1,2) _ assms(4)] assms(3) by (auto simp: is_const_val_def is_const_def)

lemma put_cong: "trunc_w (temp_type C d) v = trunc_w (temp_type C d) v' \<Longrightarrow> put C d v \<sigma> = put C d v' \<sigma>"
  by (simp add: put_def)

lemma put_same: "typed C \<sigma> \<Longrightarrow> d < nb_temps C \<Longrightarrow> \<sigma> d = Some x \<Longrightarrow> put C d x \<sigma> = \<sigma>"
  by (auto simp: put_def typed_def fits_def)

text \<open>
  \<open>keeps M C opn op' T' s\<close>: if the operation has a result from the state \<open>s\<close>, its replacement has
  the same one, and the new knowledge is valid there.
\<close>

definition keeps :: "'w machine \<Rightarrow> tcg_context \<Rightarrow> tcg_op \<Rightarrow> tcg_op \<Rightarrow> temps \<Rightarrow> regs \<times> 'w \<Rightarrow> bool" where
  "keeps M C opn op' T' s \<longleftrightarrow>
     (\<forall>s'. exec_op M C opn s = Some s' \<longrightarrow> exec_op M C op' s = Some s' \<and> valid C T' (fst s'))"

lemma exec_movi:
  assumes V: "valid C T \<sigma>" and d: "out_ok C (op_bits opn) d"
    and v: "trunc_w (op_bits opn) v = trunc_w (op_bits opn) r"
  shows "exec_op M C (op_to_movi opn d v) (\<sigma>, m) = Some (put C d r \<sigma>, m)"
    "valid C (tcg_opt_gen_movi T d v) (put C d r \<sigma>)"
  using d v valid_gen_movi [OF V, of d v r]
  by (auto simp: op_to_movi_def put_def out_ok_def)

lemma exec_mov:
  assumes V: "valid C T \<sigma>" and d: "out_ok C (op_bits opn) d" and a: "a < nb_temps C"
    and x: "\<sigma> a = Some x" and r: "trunc_w (op_bits opn) x = trunc_w (op_bits opn) r"
    and g: "gen_mov_or_nop C T opn d a = Inr (T', op')"
  shows "exec_op M C op' (\<sigma>, m) = Some (put C d r \<sigma>, m) \<and> valid C T' (put C d r \<sigma>)"
proof -
  have d': "d < nb_temps C" "temp_type C d = op_bits opn" using d by (auto simp: out_ok_def)
  have e: "put C d r \<sigma> = put C d x \<sigma>" using r d' by (intro put_cong) simp
  obtain cp where cp: "temps_are_copies C T d a = Inr cp" using g
    by (auto simp: gen_mov_or_nop_def sbind_eq_Inr_iff)
  show ?thesis
  proof (cases cp)
    case True
    then have "\<sigma> d = Some x" using temps_are_copies_sound [OF V d'(1)] cp x by auto
    then show ?thesis using g cp True e V put_same [OF valid_typed [OF V] d'(1)]
      by (auto simp: gen_mov_or_nop_def)
  next
    case False
    then obtain T1 where T1: "tcg_opt_gen_mov C T d a = Inr T1" "T' = T1" "op' = op_to_mov opn d a"
      using g cp by (auto simp: gen_mov_or_nop_def sbind_eq_Inr_iff)
    have "d \<noteq> a" using cp False by (auto simp: temps_are_copies_def)
    then have "valid C T1 (put C d x \<sigma>)" using valid_gen_mov [OF V d'(1) a _ x T1(1)] by blast
    then show ?thesis using T1 e x d' by (auto simp: op_to_mov_def put_def)
  qed
qed

lemma exec_reset:
  assumes V: "valid C T \<sigma>" and d: "d < nb_temps C"
  shows "valid C (reset_temp d T) (put C d r \<sigma>)"
  unfolding put_def by (rule valid_reset_temp [OF V d]) auto

lemma exec_bin_cases:
  assumes "exec_op M C (Op_bin opc w d a b) (\<sigma>, m) = Some s'"
  obtains x y r where "\<sigma> a = Some x" "\<sigma> b = Some y" "eval_bin opc w x y = Some r" "s' = (put C d r \<sigma>, m)"
  using assms by (auto split: option.splits)

lemma exec_un_cases:
  assumes "exec_op M C (Op_un opc w d a) (\<sigma>, m) = Some s'"
  obtains x r where "\<sigma> a = Some x" "eval_un opc w x = Some r" "s' = (put C d r \<sigma>, m)"
  using assms by (auto split: option.splits)

lemma op_bits_bin: "wt_op C (Op_bin opc w d a b) \<Longrightarrow> op_bits (Op_bin opc w d a b) = w"
  by (cases w) (auto simp: wt_op_def op_bits_def flag_64bit_def mulh_def)

subsection \<open>Algebraic simplifications\<close>

lemma lo32_0 [simp]: "lo32 0 = 0"
  by (simp add: lo32_def)

lemmas shift_defs = ok_def c_shl_def c_shr_def c_sar_def rol32_def ror32_def rol64_def ror64_def sbind_def

lemma eval_absorb:
  assumes "eval_bin opc w 0 y = Some r" "opc \<in> {O_shl, O_shr, O_sar, O_rotl, O_rotr}"
  shows "r = 0"
  using assms
  by (cases w) (auto simp: eval_bin_def tci_shift_i32_def tci_shift_i64_def shift_defs Let_def
      split: if_splits sum.splits)

lemma eval_neg: "eval_bin O_sub w 0 y = Some r \<Longrightarrow> eval_un O_neg w y = Some r"
  by (cases w) (auto simp: eval_bin_def eval_un_def tci_arith_i32_def tci_arith_i64_def tci_unary_i32_def
      tci_unary_i64_def lo32_arith)

lemma eval_not:
  "eval_bin O_xor w x (- 1) = Some r \<Longrightarrow> eval_un O_not w x = Some r"
  "eval_bin O_nand w x (- 1) = Some r \<Longrightarrow> eval_un O_not w x = Some r"
  "eval_bin O_nor w x 0 = Some r \<Longrightarrow> eval_un O_not w x = Some r"
  "eval_bin O_andc w (- 1) x = Some r \<Longrightarrow> eval_un O_not w x = Some r"
  "eval_bin O_orc w 0 x = Some r \<Longrightarrow> eval_un O_not w x = Some r"
  "eval_bin O_eqv w 0 x = Some r \<Longrightarrow> eval_un O_not w x = Some r"
  by (cases w; simp add: eval_bin_def eval_un_def tci_arith_i32_def tci_arith_i64_def tci_unary_i32_def
      tci_unary_i64_def ref_binop_def trunc_w_def Let_def lo32_logic)+

lemma bin_const_l:
  assumes "valid C T \<sigma>" "in_ok C w a" "is_const_val T a v" "\<sigma> a = Some x" "eval_bin opc w x y = Some r"
  shows "eval_bin opc w v y = Some r"
  using assms(5) eval_bin_cong [OF const_val_read [OF assms(1-4)] refl] by simp

lemma bin_const_r:
  assumes "valid C T \<sigma>" "in_ok C w b" "is_const_val T b v" "\<sigma> b = Some y" "eval_bin opc w x y = Some r"
  shows "eval_bin opc w x v = Some r"
  using assms(5) eval_bin_cong [OF refl const_val_read [OF assms(1-4)]] by simp

lemma simp_shift_neg_not_keeps:
  assumes V: "valid C T \<sigma>" and W: "wt_op C opn" and s: "simp_shift_neg_not C T opn = Some (T', op')"
  shows "keeps M C opn op' T' (\<sigma>, m)"
proof -
  obtain opc w d a b where o: "opn = Op_bin opc w d a b"
    using s by (cases opn) (auto simp: simp_shift_neg_not_def)
  have t: "out_ok C w d" "in_ok C w a" "in_ok C w b" "op_bits opn = w" "d < nb_temps C"
    using W op_bits_bin [of C opc w d a b] by (auto simp: o wt_op_def out_ok_def)
  show ?thesis unfolding keeps_def
  proof (intro allI impI)
    fix s' assume "exec_op M C opn (\<sigma>, m) = Some s'"
    then obtain x y r where e: "\<sigma> a = Some x" "\<sigma> b = Some y" "eval_bin opc w x y = Some r" "s' = (put C d r \<sigma>, m)"
      unfolding o by (rule exec_bin_cases)
    note l = bin_const_l [OF V t(2) _ e(1) e(3)] and rr = bin_const_r [OF V t(3) _ e(2) e(3)]
    note mv = exec_movi(1) [OF V, of opn d 0 0 M m] exec_movi(2) [OF V, of opn d 0 0]
    show "exec_op M C op' (\<sigma>, m) = Some s' \<and> valid C T' (fst s')"
      using s l [of 0] l [of "- 1"] rr [of 0] rr [of "- 1"] e(1,2,4) exec_reset [OF V t(5), of r] t mv eval_absorb [of opc w y r]
      by (cases opc) (auto simp: simp_shift_neg_not_def o Let_def gen_movi_def split: if_splits
          dest!: eval_neg eval_not)
  qed
qed

lemma eval_keep:
  assumes "opc \<in> {O_add, O_sub, O_shl, O_shr, O_sar, O_rotl, O_rotr, O_or, O_xor, O_andc}"
    "eval_bin opc w x 0 = Some r"
  shows "trunc_w w x = r"
  using assms
  by (cases w; simp; elim disjE) (simp_all add: eval_bin_def tci_arith_i32_def tci_arith_i64_def tci_shift_i32_def
      tci_shift_i64_def ref_binop_def trunc_w_def Let_def shift_defs lo32_logic lo32_ucast_def [symmetric])

lemma eval_keep_ones:
  assumes "opc \<in> {O_and, O_orc, O_eqv}" "eval_bin opc w x (- 1) = Some r"
  shows "trunc_w w x = r"
proof -
  have "opc = O_and \<or> opc = O_orc \<or> opc = O_eqv" using assms(1) by blast
  then show ?thesis using assms(2)
    by (cases w; elim disjE) (simp_all add: eval_bin_def tci_arith_i32_def tci_arith_i64_def
      ref_binop_def trunc_w_def Let_def lo32_logic)
qed

lemma trunc_sym: "trunc_w w x = r \<Longrightarrow> trunc_w w x = trunc_w w r"
  by auto

lemma simp_mov3_keeps:
  assumes V: "valid C T \<sigma>" and W: "wt_op C opn" and s: "simp_mov3 C T opn = Inr (Some (T', op'))"
  shows "keeps M C opn op' T' (\<sigma>, m)"
proof -
  obtain opc w d a b where o: "opn = Op_bin opc w d a b"
    using s by (cases opn) (auto simp: simp_mov3_def)
  have t: "out_ok C (op_bits opn) d" "in_ok C w a" "in_ok C w b" "op_bits opn = w" "a < nb_temps C"
    using W op_bits_bin [of C opc w d a b] by (auto simp: o wt_op_def out_ok_def in_ok_def)
  show ?thesis unfolding keeps_def
  proof (intro allI impI)
    fix s' assume "exec_op M C opn (\<sigma>, m) = Some s'"
    then obtain x y r where e: "\<sigma> a = Some x" "\<sigma> b = Some y" "eval_bin opc w x y = Some r" "s' = (put C d r \<sigma>, m)"
      unfolding o by (rule exec_bin_cases)
    note rr = bin_const_r [OF V t(3) _ e(2) e(3)]
    have r: "trunc_w w x = r"
      using s rr [of 0] rr [of "- 1"] eval_keep [of opc w x r] eval_keep_ones [of opc w x r]
      by (auto simp: simp_mov3_def o split: if_splits)
    have "gen_mov_or_nop C T opn d a = Inr (T', op')"
      using s by (auto simp: simp_mov3_def o map_sum_r_def sbind_eq_Inr_iff split: if_splits)
    then show "exec_op M C op' (\<sigma>, m) = Some s' \<and> valid C T' (fst s')"
      using exec_mov [OF V t(1,5) e(1), of r T' op' M m] trunc_sym [OF r] t(4) e(4) by simp
  qed
qed

lemma simp_zero_keeps:
  assumes V: "valid C T \<sigma>" and W: "wt_op C opn" and s: "simp_zero T opn = Some (T', op')"
  shows "keeps M C opn op' T' (\<sigma>, m)"
proof -
  obtain opc w d a b where o: "opn = Op_bin opc w d a b"
    using s by (cases opn) (auto simp: simp_zero_def)
  have t: "out_ok C (op_bits opn) d" "in_ok C w b" "op_bits opn = w" "\<not> (mulh opc \<and> w = W64)"
    using W op_bits_bin [of C opc w d a b] by (auto simp: o wt_op_def)
  show ?thesis unfolding keeps_def
  proof (intro allI impI)
    fix s' assume "exec_op M C opn (\<sigma>, m) = Some s'"
    then obtain x y r where e: "\<sigma> a = Some x" "\<sigma> b = Some y" "eval_bin opc w x y = Some r" "s' = (put C d r \<sigma>, m)"
      unfolding o by (rule exec_bin_cases)
    have z: "opc \<in> {O_and, O_mul, O_muluh, O_mulsh}" "is_const_val T b 0"
      using s by (auto simp: simp_zero_def o split: if_splits)
    have "eval_bin opc w x 0 = Some r" by (rule bin_const_r [OF V t(2) z(2) e(2,3)])
    then have r: "r = 0" using z(1) t(4)
      by (cases w; cases opc) (auto simp: eval_bin_def tci_arith_i32_def tci_arith_i64_def ref_binop_def
          trunc_w_def Let_def int32_def of_int32_def mulh_def)
    show "exec_op M C op' (\<sigma>, m) = Some s' \<and> valid C T' (fst s')"
      using s exec_movi(1) [OF V t(1), of 0 0 M m] exec_movi(2) [OF V t(1), of 0 0] r e(4) by (auto simp: simp_zero_def o gen_movi_def split: if_splits)
  qed
qed

lemma eval_same_keep: "opc \<in> {O_or, O_and} \<Longrightarrow> eval_bin opc w x x = Some r \<Longrightarrow> trunc_w w x = r"
  by (cases w) (auto simp: eval_bin_def tci_arith_i32_def tci_arith_i64_def trunc_w_def Let_def)

lemma eval_same_zero: "opc \<in> {O_andc, O_sub, O_xor} \<Longrightarrow> eval_bin opc w x x = Some r \<Longrightarrow> r = 0"
  by (cases w; simp; elim disjE)
     (simp_all add: eval_bin_def tci_arith_i32_def tci_arith_i64_def ref_binop_def trunc_w_def Let_def)

lemma simp_same_keeps:
  assumes V: "valid C T \<sigma>" and W: "wt_op C opn" and s: "simp_same C T opn = Inr (Some (T', op'))"
  shows "keeps M C opn op' T' (\<sigma>, m)"
proof -
  obtain opc w d a b where o: "opn = Op_bin opc w d a b"
    using s by (cases opn) (auto simp: simp_same_def)
  have t: "out_ok C (op_bits opn) d" "op_bits opn = w" "a < nb_temps C"
    using W op_bits_bin [of C opc w d a b] by (auto simp: o wt_op_def in_ok_def)
  have cp: "temps_are_copies C T a b = Inr True"
    using s by (auto simp: simp_same_def o sbind_eq_Inr_iff split: if_splits)
  have cl: "opc \<in> {O_or, O_and} \<or> opc \<in> {O_andc, O_sub, O_xor}"
    using s by (auto simp: simp_same_def o split: if_splits)
  show ?thesis unfolding keeps_def
  proof (intro allI impI)
    fix s' assume "exec_op M C opn (\<sigma>, m) = Some s'"
    then obtain x y r where e: "\<sigma> a = Some x" "\<sigma> b = Some y" "eval_bin opc w x y = Some r" "s' = (put C d r \<sigma>, m)"
      unfolding o by (rule exec_bin_cases)
    have "x = y" using temps_are_copies_sound [OF V t(3) cp] e(1,2) by simp
    then have ev: "eval_bin opc w x x = Some r" using e(3) by simp
    from cl show "exec_op M C op' (\<sigma>, m) = Some s' \<and> valid C T' (fst s')"
    proof
      assume c: "opc \<in> {O_or, O_and}"
      then have "gen_mov_or_nop C T opn d a = Inr (T', op')"
        using s cp by (auto simp: simp_same_def o map_sum_r_def sbind_eq_Inr_iff)
      then show ?thesis
        using exec_mov [OF V t(1,3) e(1), of r T' op' M m] trunc_sym [OF eval_same_keep [OF c ev]] t(2) e(4) by simp
    next
      assume c: "opc \<in> {O_andc, O_sub, O_xor}"
      then have "(T', op') = gen_movi T opn d 0"
        using s cp by (auto simp: simp_same_def o)
      then show ?thesis
        using exec_movi(1) [OF V t(1), of 0 0 M m] exec_movi(2) [OF V t(1), of 0 0] eval_same_zero [OF c ev] e(4) by (auto simp: gen_movi_def)
    qed
  qed
qed

subsection \<open>Known zero bits\<close>

text \<open>\<open>x\<close> has its one bits among those of \<open>m\<close>.\<close>

lemma within_bits: "x AND NOT m = 0 \<longleftrightarrow> (\<forall>n. bit x n \<longrightarrow> bit m n)" for x m :: u64
proof -
  have "bit x n \<Longrightarrow> n < 64" for n using bit_imp_le_length [of x n] by simp
  then show ?thesis by (auto simp: word_eq_bits bit_simps)
qed

lemma mask_literals:
  "(0xff :: u64) = mask 8" "(0xffff :: u64) = mask 16" "(0xffffffff :: u64) = mask 32"
  by (simp_all add: mask_eq_exp_minus_1)

lemma sign_literals:
  "m AND 0x80 = 0 \<longleftrightarrow> \<not> bit m 7" "m AND 0x8000 = 0 \<longleftrightarrow> \<not> bit m 15" "m AND 0x80000000 = 0 \<longleftrightarrow> \<not> bit m 31" for m :: u64
  using and_exp_eq_0_iff_not_bit [of m 7] and_exp_eq_0_iff_not_bit [of m 15] and_exp_eq_0_iff_not_bit [of m 31]
  by simp_all

lemma scast_nonneg:
  fixes z :: "'a::len word"
  assumes "\<not> bit z (LENGTH('a) - 1)"
  shows "scast z = (ucast z :: 'b::len word)"
proof (rule bit_word_eqI)
  fix n assume "n < LENGTH('b)"
  moreover have "bit z n \<Longrightarrow> n < LENGTH('a) - 1"
    using assms bit_imp_le_length [of z n] by (cases "n = LENGTH('a) - 1") auto
  ultimately show "bit (scast z :: 'b word) n = bit (ucast z :: 'b word) n"
    using assms by (auto simp: bit_simps min_def not_le split: if_splits)
qed

lemma ucast_ucast_mask:
  "ucast (ucast x :: u8) = x AND mask 8" "ucast (ucast x :: u16) = x AND mask 16" "lo32 x = x AND mask 32" for x :: u64
  by (rule bit_word_eqI, auto simp: bit_simps lo32_def)+

lemma ucast_scast_ext:
  "\<not> bit x 7 \<Longrightarrow> ucast (scast (ucast x :: u8) :: u32) = x AND mask 8"
  "\<not> bit x 7 \<Longrightarrow> scast (ucast x :: u8) = x AND mask 8"
  "\<not> bit x 15 \<Longrightarrow> ucast (scast (ucast x :: u16) :: u32) = x AND mask 16"
  "\<not> bit x 15 \<Longrightarrow> scast (ucast x :: u16) = x AND mask 16"
  "\<not> bit x 31 \<Longrightarrow> scast (ucast x :: u32) = x AND mask 32" for x :: u64
  by (subst scast_nonneg, simp add: bit_simps, rule bit_word_eqI, auto simp: bit_simps)+

lemma within_and: "x AND NOT m = 0 \<Longrightarrow> (x AND k) AND NOT (m AND k) = 0" for x :: u64
  unfolding within_bits by (auto simp: bit_simps)

lemma affected_none: "x AND NOT m = 0 \<Longrightarrow> m AND NOT k = 0 \<Longrightarrow> x AND k = x" for x :: u64
  by (auto simp: within_bits word_eq_bits bit_simps)

text \<open>The negation of a multiple of a power of two is one.\<close>

lemma and_neg_odd: "odd m \<Longrightarrow> m AND - m = 1" for m :: u64
proof (rule bit_word_eqI)
  fix n assume o: "odd m" and n: "n < LENGTH(64)"
  have "bit (m - 1) n \<longleftrightarrow> bit m n \<and> n \<noteq> 0"
  proof -
    have "bit m i = bit ((m AND NOT 1) OR 1) i" if "i < LENGTH(64)" for i
      using o that by (cases i) (auto simp: bit_simps bit_1_iff bit_0 even_or_iff even_and_iff)
    then have "m = (m AND NOT 1) OR 1" by (rule bit_word_eqI)
    moreover have "(m AND NOT 1) AND 1 = 0" by (simp only: and.assoc bit.conj_cancel_left bit.conj_zero_right)
    ultimately have "m = (m AND NOT 1) + 1" using disjunctive_add_eq_or [of "m AND NOT 1" 1] by simp
    then have "m - 1 = m AND NOT 1" by (metis add_diff_cancel_right')
    then show ?thesis using n by (simp add: bit_simps bit_1_iff)
  qed
  then show "bit (m AND - m) n = bit 1 n"
    using o n by (cases n) (auto simp: bit_simps bit_minus_iff bit_0 even_and_iff)
qed

lemma low_zeros:
  assumes "m \<noteq> (0 :: u64)"
  obtains k where "m = push_bit k (drop_bit k m)" "odd (drop_bit k m)" "k < 64" "\<And>n. n < k \<Longrightarrow> \<not> bit m n"
proof -
  define k where "k = (LEAST n. bit m n)"
  obtain n where "bit m n" using assms by (auto simp: word_eq_bits)
  then have b: "bit m k" and l: "\<And>i. i < k \<Longrightarrow> \<not> bit m i"
    unfolding k_def by (auto intro: LeastI dest: not_less_Least)
  have "bit m i \<Longrightarrow> k \<le> i" for i using l [of i] by linarith
  then have "m = push_bit k (drop_bit k m)" by (auto simp: word_eq_bits bit_simps)
  moreover have "odd (drop_bit k m)" using b by (simp add: bit_simps flip: bit_0)
  moreover have "k < 64" using bit_imp_le_length [OF b] by simp
  ultimately show ?thesis using l that by blast
qed

lemma low_one: "m \<noteq> 0 \<Longrightarrow> \<exists>k. (\<forall>n < k. \<not> bit m n) \<and> m AND - m = 2 ^ k" for m :: u64
proof -
  assume "m \<noteq> 0"
  then obtain k where k: "m = push_bit k (drop_bit k m)" "odd (drop_bit k m)" "\<And>n. n < k \<Longrightarrow> \<not> bit m n"
    by (rule low_zeros) blast
  define q where "q = drop_bit k m"
  have m: "m = push_bit k q" "odd q" using k by (auto simp: q_def)
  have "- m = push_bit k (- q)" by (simp add: m push_bit_eq_mult)
  then have "m AND - m = push_bit k (q AND - q)" by (simp add: m(1) push_bit_and)
  then show ?thesis using and_neg_odd [OF m(2)] k(3) by (auto simp: push_bit_eq_mult)
qed

lemma neg_within:
  assumes "x AND NOT m = (0 :: u64)"
  shows "- x AND NOT (- (m AND - m)) = 0"
proof (cases "m = 0")
  case False
  then obtain k where k: "\<forall>n < k. \<not> bit m n" "m AND - m = 2 ^ k" using low_one by blast
  have "bit x i \<Longrightarrow> k \<le> i" for i using assms k(1) by (metis within_bits not_less)
  then have p: "push_bit k (drop_bit k x) = x" by (auto simp: word_eq_bits bit_simps)
  have "- x = push_bit k (- drop_bit k x)" by (subst p [symmetric]) (simp only: push_bit_eq_mult minus_mult_left)
  then have "bit (- x) n \<Longrightarrow> \<not> n < k" for n by (simp add: bit_simps)
  then show ?thesis unfolding within_bits k(2) minus_exp_eq_not_mask
    by (auto simp: bit_simps dest: bit_imp_le_length)
qed (use assms in simp)

definition within :: "u64 \<Rightarrow> u64 \<Rightarrow> bool" where
  "within x m \<longleftrightarrow> x AND NOT m = 0"

lemma withinI: "(\<And>n. bit x n \<Longrightarrow> bit m n) \<Longrightarrow> within x m"
  by (simp add: within_def within_bits)

lemma within_top [simp]: "within x (- 1)" and within_zero [simp]: "within 0 m" and within_zero_iff [simp]: "within x 0 \<longleftrightarrow> x = 0"
  by (simp_all add: within_def)

lemma within_lo32: "within x m \<Longrightarrow> within (lo32 x) m"
  using mask_trunc [of x m W32] by (simp add: within_def trunc_w_def)

lemma within_trans: "within x m \<Longrightarrow> within m k \<Longrightarrow> within x k"
  by (auto simp: within_def within_bits)

lemma known_zero_un:
  assumes k: "known_zero T (Op_un opc w d a) = Inr (m, aff)" and e: "eval_un opc w x = Some r"
    and x: "within x (t_mask (T a))"
  shows "within r m \<and> (aff = 0 \<longrightarrow> r = x)"
proof -
  have s: "\<not> bit (t_mask (T a)) n \<Longrightarrow> \<not> bit x n" for n using x by (auto simp: within_def within_bits)
  have w: "within (x AND k) (t_mask (T a) AND k)" for k using x within_and by (auto simp: within_def)
  have a: "t_mask (T a) AND NOT k = 0 \<Longrightarrow> x AND k = x" for k using x affected_none by (auto simp: within_def)
  have ng: "within (- x) (- (t_mask (T a) AND - t_mask (T a)))" using x neg_within by (auto simp: within_def)
  have ng32: "within (lo32 (- (x AND mask 32))) (- (t_mask (T a) AND - t_mask (T a)))"
    using within_lo32 [OF ng] lo32_arith(4) [of x] by (simp add: ucast_ucast_mask(3) [of x])
  show ?thesis using k e
    by (cases opc; cases w)
      (auto simp: known_zero_def eval_un_def tci_unary_i32_def tci_unary_i64_def and_const_def mask_literals
        sign_literals ucast_ucast_mask(1,2) ucast_scast_ext [OF s] w ng ng32
        lo32_ucast_def [symmetric] ucast_ucast_mask(3) [of x] split: if_splits intro: a)
qed

lemma within_logic:
  assumes "within x m" "within y k"
  shows "within (x AND y) (m AND k)" "within (x OR y) (m OR k)" "within (x XOR y) (m OR k)"
    "within (x AND NOT y) m" "within x (m OR k)" "within y (m OR k)"
  using assms unfolding within_def within_bits by (auto simp: bit_simps)

lemma within_shift:
  assumes "within x m"
  shows "within (push_bit n x) (push_bit n m)" "within (drop_bit n x) (drop_bit n m)"
    "within (signed_drop_bit n x) (signed_drop_bit n m)"
  using assms unfolding within_def within_bits by (auto simp: bit_simps)

lemma lo32_drop_within: "within x m \<Longrightarrow> within (drop_bit n (lo32 x)) (ucast (drop_bit n (ucast m :: u32)))"
  by (auto intro!: withinI simp: lo32_def bit_simps within_def within_bits)

lemma sar32_within: "within x m \<Longrightarrow> within (ucast (signed_drop_bit n (ucast x :: u32))) (scast (signed_drop_bit n (ucast m :: u32)))"
proof (rule withinI)
  fix i assume w: "within x m" and b: "bit (ucast (signed_drop_bit n (ucast x :: u32)) :: u64) i"
  then have "bit x j \<Longrightarrow> bit m j" for j by (auto simp: within_def within_bits)
  then show "bit (scast (signed_drop_bit n (ucast m :: u32)) :: u64) i"
    using b by (cases "i = 31") (auto simp: bit_simps min_def split: if_splits)
qed

lemma eval_and_const:
  assumes "eval_bin O_and w x k = Some r" "within x m"
  shows "within r (m AND k) \<and> (m AND NOT k = 0 \<longrightarrow> r = trunc_w w x)"
proof -
  have r: "r = trunc_w w (x AND k)" using assms(1)
    by (cases w) (auto simp: eval_bin_def tci_arith_i32_def tci_arith_i64_def trunc_w_def Let_def lo32_logic)
  have "within (x AND k) (m AND k)" using assms(2) within_and by (auto simp: within_def)
  moreover have "m AND NOT k = 0 \<longrightarrow> x AND k = x" using assms(2) affected_none by (auto simp: within_def)
  ultimately show ?thesis using r within_lo32 by (cases w) (auto simp: trunc_w_def)
qed

lemma eval_andc_and: "eval_bin O_andc w x k = Some r \<Longrightarrow> eval_bin O_and w x (NOT k) = Some r"
  by (cases w) (auto simp: eval_bin_def tci_arith_i32_def tci_arith_i64_def ref_binop_def trunc_w_def Let_def lo32_logic)

lemma eval_logic_within:
  assumes "eval_bin opc w x y = Some r" "within x m" "within y k"
  shows "opc = O_and \<Longrightarrow> within r (m AND k)" "opc = O_or \<or> opc = O_xor \<Longrightarrow> within r (m OR k)" "opc = O_andc \<Longrightarrow> within r m"
  using assms(1) within_logic [OF assms(2,3)] within_lo32
  by (cases w; auto simp: eval_bin_def tci_arith_i32_def tci_arith_i64_def ref_binop_def trunc_w_def Let_def lo32_logic)+

lemma known_zero_bin:
  assumes V: "valid C T \<sigma>" and W: "wt_op C (Op_bin opc w d a b)"
    and k: "known_zero T (Op_bin opc w d a b) = Inr (m, aff)"
    and x: "\<sigma> a = Some x" and y: "\<sigma> b = Some y" and e: "eval_bin opc w x y = Some r"
  shows "within r m \<and> (aff = 0 \<longrightarrow> r = trunc_w w x)"
proof -
  have ab: "a < nb_temps C" "b < nb_temps C" "in_ok C w b" using W by (auto simp: wt_op_def in_ok_def)
  have wx: "within x (t_mask (T a))" and wy: "within y (t_mask (T b))"
    using V val_okD(2) [of C T \<sigma>] ab x y by (auto simp: valid_def within_def)
  have c: "eval_bin opc w x (t_val (T b)) = Some r" "t_mask (T b) = t_val (T b)" if "is_const T b"
    using eval_bin_cong [OF refl const_read [OF V ab(3) that y], of opc x] e V ab(2) that
    by (auto simp: valid_def info_ok_def is_const_def)
  show ?thesis
  proof (cases "is_const T b")
    case True
    note c = c [OF True]
    consider "opc = O_and" | "opc = O_andc" | "opc \<in> {O_shl, O_shr, O_sar}" | "opc \<notin> {O_and, O_andc, O_shl, O_shr, O_sar}"
      by blast
    then show ?thesis
    proof cases
      case 3
      have u: "unat (lo32 (t_val (T b))) = unat (t_val (T b))" if "unat (t_val (T b)) < 64"
        using that by (simp add: unat_lo32)
      show ?thesis using 3 True k c(1) u wx within_lo32 [OF wx]
        by (cases w) (auto simp: known_zero_def map_sum_r_def sbind_eq_Inr_iff eval_bin_def tci_shift_i32_def
          tci_shift_i64_def Let_def ok_def c_shl_def c_shr_def c_sar_def
          intro!: within_shift within_lo32 lo32_drop_within sar32_within split: if_splits)
    next
      case 1
      show ?thesis using 1 True k c wx eval_and_const [of w x "t_val (T b)" r "t_mask (T a)"]
        by (auto simp: known_zero_def and_const_def)
    next
      case 2
      show ?thesis using 2 True k c wx eval_and_const [of w x "NOT (t_val (T b))" r "t_mask (T a)"]
        by (auto simp: known_zero_def and_const_def dest: eval_andc_and)
    next
      case 4
      show ?thesis using 4 k eval_logic_within(2) [OF e wx wy] by (cases opc) (auto simp: known_zero_def)
    qed
  next
    case False
    then show ?thesis using k eval_logic_within [OF e wx wy] by (cases opc) (auto simp: known_zero_def)
  qed
qed

lemma trunc_within: "trunc_w w r = r \<Longrightarrow> within r m \<Longrightarrow> within r (trunc_w w m)"
  by (cases w) (auto simp: trunc_w_def lo32_take_bit within_def word_eq_bits bit_simps)

lemma within_result_mask: "trunc_w (op_bits opn) r = r \<Longrightarrow> within r m \<Longrightarrow> within r (result_mask opn m)"
  using trunc_within [of W32 r m]
  by (auto simp: result_mask_def op_bits_def trunc_w_def ucast_ucast_mask(3) mask_literals split: if_splits)

lemma eval_deposit_mask:
  assumes e: "eval_deposit w x y pos len = Some r"
    and c: "c_shl (1 :: u64) len = Inr s" "c_shl (s - 1) pos = Inr high" "c_shl (v AND (s - 1)) pos = Inr low"
  shows "within x m \<Longrightarrow> within y v \<Longrightarrow> within r ((m AND NOT high) OR low)"
    "trunc_w w x = trunc_w w u \<Longrightarrow> trunc_w w y = trunc_w w v \<Longrightarrow> r = trunc_w w ((u AND NOT high) OR low)"
proof -
  have h: "high = push_bit pos (mask len)" "low = push_bit pos (v AND mask len)"
    using c by (auto simp: c_shl_def mask_eq_exp_minus_1 push_bit_eq_mult split: if_splits)
  have r: "r = trunc_w w ((x AND NOT high) OR (push_bit pos y AND high))" using e
  proof (cases w)
    case W32
    have "lo32 ((lo32 x AND NOT (ucast (push_bit pos (mask len :: u32)))) OR (push_bit pos (lo32 y) AND ucast (push_bit pos (mask len :: u32))))
      = lo32 ((x AND NOT high) OR (push_bit pos y AND high))"
      by (rule bit_word_eqI) (auto simp: h lo32_def bit_simps)
    then show ?thesis using e W32
      by (auto simp: eval_deposit_def tci_deposit_i32_def mask_eq_exp_minus_1 trunc_w_def Let_def split: if_splits)
  qed (auto simp: eval_deposit_def tci_deposit_i64_def mask_eq_exp_minus_1 trunc_w_def h Let_def split: if_splits)
  show "within r ((m AND NOT high) OR low)" if xy: "within x m" "within y v"
  proof (rule withinI)
    fix n assume "bit r n"
    moreover have "bit x i \<Longrightarrow> bit m i" "bit y i \<Longrightarrow> bit v i" for i using xy by (auto simp: within_def within_bits)
    ultimately show "bit ((m AND NOT high) OR low) n"
      by (cases w) (auto simp: r h trunc_w_def lo32_take_bit bit_simps)
  qed
  have "trunc_w w ((x AND NOT high) OR (push_bit pos y AND high)) = trunc_w w ((u AND NOT high) OR low)"
    if "trunc_w w x = trunc_w w u" "trunc_w w y = trunc_w w v"
    using that by (cases w) (auto simp: h trunc_w_def lo32_take_bit word_eq_bits bit_simps)
  then show "r = trunc_w w ((u AND NOT high) OR low)" if "trunc_w w x = trunc_w w u" "trunc_w w y = trunc_w w v"
    using that r by simp
qed

end
