(* ===== verification/Tcg_Sound.thy ===== *)
theory Tcg_Sound
  imports Tcg_Simplify
begin

text \<open>
  Soundness of the optimiser: whatever knowledge a stage uses is valid in the state the operation
  runs in, so every replacement behaves like the operation and an optimised translation block runs
  exactly like the original one.
\<close>

section \<open>One operation with its control flow\<close>

datatype 'w outcome = Next "regs \<times> 'w" | Jump label "regs \<times> 'w" | Leave "'w tb_exit"

definition branch :: "bool option \<Rightarrow> label \<Rightarrow> regs \<times> 'w \<Rightarrow> 'w outcome option" where
  "branch c l s = map_option (\<lambda>r. if r then Jump l s else Next s) c"

fun step_op :: "'w machine \<Rightarrow> tcg_context \<Rightarrow> tcg_op \<Rightarrow> regs \<times> 'w \<Rightarrow> 'w outcome option" where
  "step_op M C i (\<sigma>, m) = (case i of
     Op_br l \<Rightarrow> Some (Jump l (\<sigma>, m))
   | Op_brcond w a b c l \<Rightarrow>
       (case (\<sigma> a, \<sigma> b) of (Some x, Some y) \<Rightarrow> branch (compare_w w x y c) l (\<sigma>, m) | _ \<Rightarrow> None)
   | Op_brcond2 al ah bl bh c l \<Rightarrow>
       (case (\<sigma> al, \<sigma> ah, \<sigma> bl, \<sigma> bh) of
          (Some a0, Some a1, Some b0, Some b1) \<Rightarrow>
             branch (tci_compare64 (join32 a1 a0) (join32 b1 b0) c) l (\<sigma>, m)
        | _ \<Rightarrow> None)
   | Op_goto_tb j \<Rightarrow> Some (if tb_linked M j then Leave (Goto_tb j \<sigma> m) else Next (\<sigma>, m))
   | Op_exit_tb v \<Rightarrow> Some (Leave (Exit_tb v \<sigma> m))
   | _ \<Rightarrow> map_option Next (exec_op M C i (\<sigma>, m)))"

lemma exec_tb_step:
  "exec_tb M C P (Suc n) (i # rest) s = (case step_op M C i s of
     None \<Rightarrow> None
   | Some (Next s') \<Rightarrow> exec_tb M C P n rest s'
   | Some (Jump l s') \<Rightarrow> jump P l (\<lambda>js. exec_tb M C P n js s')
   | Some (Leave r) \<Rightarrow> Some r)"
  by (cases s; cases i) (auto simp: branch_def split: option.splits bool.splits)

section \<open>Copy propagation\<close>

lemma get_list_cong: "map \<sigma> as = map \<sigma> bs \<Longrightarrow> get_list \<sigma> as = get_list \<sigma> bs"
proof (induction as arbitrary: bs)
  case (Cons a as)
  then obtain b bs' where "bs = b # bs'" "\<sigma> a = \<sigma> b" "map \<sigma> as = map \<sigma> bs'" by (cases bs) auto
  then show ?case using Cons.IH [of bs'] by simp
qed simp

lemma set_ins_step: "map \<sigma> as = map \<sigma> (op_ins opn) \<Longrightarrow> step_op M C (set_ins opn as) (\<sigma>, m) = step_op M C opn (\<sigma>, m)"
  by (cases opn) (auto simp: op_ins_def set_ins_def map_eq_Cons_conv cong: option.case_cong dest: get_list_cong)

definition same_types :: "tcg_context \<Rightarrow> tmp list \<Rightarrow> tmp list \<Rightarrow> bool" where
  "same_types C as bs = list_all2 (\<lambda>a b. b < nb_temps C \<and> temp_type C b = temp_type C a) as bs"

lemma same_types_in_ok: "same_types C as bs \<Longrightarrow> i < length as \<Longrightarrow> in_ok C w (as ! i) \<Longrightarrow> in_ok C w (bs ! i)"
  by (auto simp: same_types_def list_all2_conv_all_nth in_ok_def)

lemma same_types_below: "same_types C as bs \<Longrightarrow> b \<in> set bs \<Longrightarrow> b < nb_temps C"
  by (auto simp: same_types_def list_all2_conv_all_nth in_set_conv_nth)

lemma set_ins_wt: "wt_op C opn \<Longrightarrow> same_types C (op_ins opn) bs \<Longrightarrow> wt_op C (set_ins opn bs)"
proof -
  assume W: "wt_op C opn" and S: "same_types C (op_ins opn) bs"
  note h = same_types_in_ok [OF S]
  show ?thesis
    using W h [of 0] h [of 1] h [of 2] h [of 3] same_types_below [OF S]
    by (cases opn) (simp_all add: op_ins_def set_ins_def wt_op_def ball_Un)
qed

lemma wt_ins: "wt_op C opn \<Longrightarrow> a \<in> set (op_ins opn) \<Longrightarrow> a < nb_temps C"
  by (cases opn) (auto simp: wt_op_def op_ins_def in_ok_def)

lemma prop_args_sound:
  assumes V: "valid C T \<sigma>"
  shows "\<forall>a \<in> set as. a < nb_temps C \<Longrightarrow> prop_args C T as = Inr bs \<Longrightarrow> map \<sigma> bs = map \<sigma> as \<and> same_types C as bs"
proof (induction as arbitrary: bs)
  case (Cons a as)
  then obtain b bs' where "prop_arg C T a = Inr b" "prop_args C T as = Inr bs'" "bs = b # bs'"
    by (auto simp: sbind_eq_Inr_iff)
  then show ?case using Cons prop_arg_sound [OF V, of a b] by (auto simp: same_types_def)
qed (simp add: same_types_def)

lemma copy_propagate_sound:
  assumes V: "valid C T \<sigma>" and W: "wt_op C opn" and c: "copy_propagate C T opn = Inr op'"
  shows "step_op M C op' (\<sigma>, m) = step_op M C opn (\<sigma>, m) \<and> wt_op C op'"
proof -
  obtain as where a: "prop_args C T (op_ins opn) = Inr as" "op' = set_ins opn as"
    using c by (auto simp: copy_propagate_def sbind_eq_Inr_iff)
  show ?thesis using prop_args_sound [OF V _ a(1)] wt_ins [OF W] set_ins_step [of \<sigma> as opn M C m] set_ins_wt [OF W] a(2)
    by blast
qed

section \<open>Commutative operations\<close>

lemma mul2_comm: "mul2_w w sg x y = mul2_w w sg y x"
  by (cases w) (simp_all add: mul2_w_def mulu64_eq_int128 muls64_eq_int128 mulu64_int128_def muls64_int128_def
      mult.commute Let_def)

lemma carry_comm: "x + y < x \<longleftrightarrow> x + y < y" for x y :: u64
  using no_olen_add [of x y] no_olen_add [of y x] by (simp add: add.commute not_le [symmetric])

lemma eval_bin_comm:
  assumes "opc \<in> {O_add, O_mul, O_and, O_or, O_xor, O_eqv, O_nand, O_nor, O_muluh, O_mulsh}"
  shows "eval_bin opc w y x = eval_bin opc w x y"
  using assms
  by (cases w; simp; elim disjE) (simp_all add: eval_bin_def tci_arith_i32_def tci_arith_i64_def
      ref_binop_def Let_def add.commute mult.commute and.commute or.commute xor.commute)

lemma add2_comm:
  "add2_w w False bl ah al bh = add2_w w False al ah bl bh"
  "add2_w w False al bh bl ah = add2_w w False al ah bl bh"
  using carry_comm [of al bl] by (cases w; simp add: add2_w_def join32_def Let_def ac_simps)+

lemma commute_bin:
  "exec_op M C (Op_bin opc w d b a) (\<sigma>, m) = exec_op M C (Op_bin opc w d a b) (\<sigma>, m)"
  if "opc \<in> {O_add, O_mul, O_and, O_or, O_xor, O_eqv, O_nand, O_nor, O_muluh, O_mulsh}"
  using eval_bin_comm [OF that] by (auto split: option.splits)

lemma commute_setcond:
  "exec_op M C (Op_setcond w d b a (tcg_swap_cond c)) (\<sigma>, m) = exec_op M C (Op_setcond w d a b c) (\<sigma>, m)"
  by (auto simp: compare_swap split: option.splits)

lemma commute_movcond:
  "exec_op M C (Op_movcond w d c2 c1 v1 v2 (tcg_swap_cond c)) (\<sigma>, m) = exec_op M C (Op_movcond w d c1 c2 v1 v2 c) (\<sigma>, m)"
  "exec_op M C (Op_movcond w d c1 c2 v2 v1 (tcg_invert_cond c)) (\<sigma>, m) = exec_op M C (Op_movcond w d c1 c2 v1 v2 c) (\<sigma>, m)"
  by (auto simp: compare_swap compare_invert option.map_comp comp_def intro!: option.map_cong0 split: option.splits)

lemma commute_add2:
  "exec_op M C (Op_add2 w rl rh bl ah al bh) (\<sigma>, m) = exec_op M C (Op_add2 w rl rh al ah bl bh) (\<sigma>, m)"
  "exec_op M C (Op_add2 w rl rh al bh bl ah) (\<sigma>, m) = exec_op M C (Op_add2 w rl rh al ah bl bh) (\<sigma>, m)"
  by (auto simp: add2_comm split: option.splits)

lemma commute_mul2:
  "exec_op M C (Op_mulu2 w rl rh b a) (\<sigma>, m) = exec_op M C (Op_mulu2 w rl rh a b) (\<sigma>, m)"
  "exec_op M C (Op_muls2 w rl rh b a) (\<sigma>, m) = exec_op M C (Op_muls2 w rl rh a b) (\<sigma>, m)"
  by (auto simp: mul2_comm split: option.splits)

lemma commute_cond2:
  "exec_op M C (Op_setcond2 d bl bh al ah (tcg_swap_cond c)) (\<sigma>, m) = exec_op M C (Op_setcond2 d al ah bl bh c) (\<sigma>, m)"
  "step_op M C (Op_brcond2 bl bh al ah (tcg_swap_cond c) l) (\<sigma>, m) = step_op M C (Op_brcond2 al ah bl bh c l) (\<sigma>, m)"
  "step_op M C (Op_brcond w b a (tcg_swap_cond c) l) (\<sigma>, m) = step_op M C (Op_brcond w a b c l) (\<sigma>, m)"
  by (auto simp: compare64_swap compare_swap split: option.splits)

lemma commute_sound: "step_op M C (commute T opn) (\<sigma>, m) = step_op M C opn (\<sigma>, m)"
proof (cases opn)
  case (Op_brcond w a b c l)
  then show ?thesis using commute_cond2(3) [of M C w b a c l \<sigma> m] by (simp add: commute_def del: step_op.simps)
next
  case (Op_brcond2 al ah bl bh c l)
  then show ?thesis using commute_cond2(2) [of M C bl bh al ah c l \<sigma> m] by (simp add: commute_def del: step_op.simps)
next
  case (Op_movcond w d c1 c2 v1 v2 c)
  then show ?thesis
    by (simp add: commute_def Let_def commute_movcond del: exec_op.simps)
qed (simp_all add: commute_def commute_bin commute_setcond commute_add2 commute_mul2 commute_cond2(1) Let_def del: exec_op.simps)

lemma commute_wt: "wt_op C opn \<Longrightarrow> wt_op C (commute T opn)"
  by (cases opn) (auto simp: commute_def wt_op_def split: if_splits)

section \<open>The masks of all operations\<close>

text \<open>
  What the masks of an operation promise of its result \<open>r\<close> in \<open>d\<close>: it lies within the mask, and if
  no bit is affected the result is the first operand.
\<close>

definition masked :: "tcg_context \<Rightarrow> tcg_op \<Rightarrow> regs \<Rightarrow> tmp \<Rightarrow> u64 \<Rightarrow> u64 \<Rightarrow> u64 \<Rightarrow> bool" where
  "masked C opn \<sigma> d r k aff \<longleftrightarrow>
     within (trunc_w (temp_type C d) r) (result_mask opn k) \<and>
     (aff = 0 \<longrightarrow> (\<exists>x. \<sigma> (first_in opn) = Some x \<and> first_in opn < nb_temps C \<and>
                     trunc_w (op_bits opn) x = trunc_w (op_bits opn) r))"

lemma maskedI:
  assumes "temp_type C d = op_bits opn" "within (trunc_w (op_bits opn) r) k" "aff \<noteq> 0"
  shows "masked C opn \<sigma> d r k aff"
  using assms within_result_mask [of opn "trunc_w (op_bits opn) r" k] by (simp add: masked_def)

lemma valid_within: "valid C T \<sigma> \<Longrightarrow> a < nb_temps C \<Longrightarrow> \<sigma> a = Some x \<Longrightarrow> within x (t_mask (T a))"
  using val_okD(2) [of C T \<sigma> a x] by (auto simp: valid_def within_def)

lemma within_trunc: "within x m \<Longrightarrow> within (trunc_w w x) m"
  using within_lo32 by (cases w) (auto simp: trunc_w_def)

lemma masked_un:
  assumes V: "valid C T \<sigma>" and W: "wt_op C (Op_un opc w d a)"
    and k: "known_zero T (Op_un opc w d a) = Inr (k, aff)"
    and x: "\<sigma> a = Some x" and e: "eval_un opc w x = Some r"
  shows "masked C (Op_un opc w d a) \<sigma> d r k aff"
proof -
  have t: "temp_type C d = w" "a < nb_temps C" "op_bits (Op_un opc w d a) = w"
    using W by (cases w; auto simp: wt_op_def out_ok_def in_ok_def op_bits_def flag_64bit_def)+
  have "within r k \<and> (aff = 0 \<longrightarrow> r = x)" by (rule known_zero_un [OF k e valid_within [OF V t(2) x]])
  then show ?thesis using t x eval_un_trunc [OF e] within_result_mask [of "Op_un opc w d a" r k]
    by (auto simp: masked_def first_in_def op_ins_def)
qed

lemma masked_bin:
  assumes V: "valid C T \<sigma>" and W: "wt_op C (Op_bin opc w d a b)"
    and k: "known_zero T (Op_bin opc w d a b) = Inr (k, aff)"
    and x: "\<sigma> a = Some x" and y: "\<sigma> b = Some y" and e: "eval_bin opc w x y = Some r"
  shows "masked C (Op_bin opc w d a b) \<sigma> d r k aff"
proof -
  have t: "temp_type C d = w" "a < nb_temps C"
    using W by (auto simp: wt_op_def out_ok_def in_ok_def)
  have "within r k \<and> (aff = 0 \<longrightarrow> r = trunc_w w x)" by (rule known_zero_bin [OF V W k x y e])
  then show ?thesis using t x op_bits_bin [OF W] eval_bin_trunc [OF e] within_result_mask [of "Op_bin opc w d a b" r k]
    by (auto simp: masked_def first_in_def op_ins_def)
qed

lemma masked_deposit:
  assumes V: "valid C T \<sigma>" and W: "wt_op C (Op_deposit w d a b pos len)"
    and k: "known_zero T (Op_deposit w d a b pos len) = Inr (k, aff)"
    and x: "\<sigma> a = Some x" and y: "\<sigma> b = Some y" and e: "eval_deposit w x y pos len = Some r"
  shows "masked C (Op_deposit w d a b pos len) \<sigma> d r k aff"
proof (rule maskedI)
  show t: "temp_type C d = op_bits (Op_deposit w d a b pos len)"
    using W by (cases w) (auto simp: wt_op_def out_ok_def op_bits_def flag_64bit_def)
  have ab: "a < nb_temps C" "b < nb_temps C" using W by (auto simp: wt_op_def in_ok_def)
  obtain s high low where c: "c_shl (1 :: u64) len = Inr s" "c_shl (s - 1) pos = Inr high"
    "c_shl (t_mask (T b) AND (s - 1)) pos = Inr low" "k = (t_mask (T a) AND NOT high) OR low" "aff = - 1"
    using k by (auto simp: known_zero_def sbind_eq_Inr_iff Let_def)
  show "aff \<noteq> 0" using c by simp
  have "within r k" unfolding c(4)
    by (rule eval_deposit_mask(1) [OF e c(1-3) valid_within [OF V ab(1) x] valid_within [OF V ab(2) y]])
  then show "within (trunc_w (op_bits (Op_deposit w d a b pos len)) r) k" by (rule within_trunc)
qed

lemma masked_other:
  assumes V: "valid C T \<sigma>" and W: "wt_op C opn" and k: "known_zero T opn = Inr (k, aff)"
    and e: "exec_op M C opn (\<sigma>, m) = Some s'" and o: "op_outs opn = [d]"
    and c: "case opn of Op_discard _ \<Rightarrow> False | Op_call _ _ _ \<Rightarrow> False | Op_un _ _ _ _ \<Rightarrow> False
       | Op_bin _ _ _ _ _ \<Rightarrow> False | Op_deposit _ _ _ _ _ _ \<Rightarrow> False | _ \<Rightarrow> True"
  shows "\<exists>r m'. s' = (put C d r \<sigma>, m') \<and> within (trunc_w (temp_type C d) r) (result_mask opn k) \<and> aff \<noteq> 0"
proof -
  have l: "within (of_bool b) (1 :: u64)" for b by (cases b) (simp_all add: within_def)
  have u: "within (ucast (z :: u8)) (0xff :: u64)" "within (ucast (y :: u16)) (0xffff :: u64)" "within (lo32 v) 0xffffffff" for z y v
    unfolding mask_literals using bit_imp_le_length [of z] bit_imp_le_length [of y]
    by (auto intro!: withinI simp: bit_simps lo32_def)
  have r: "temp_type C d = op_bits opn \<Longrightarrow> within (trunc_w (op_bits opn) r) k
     \<Longrightarrow> within (trunc_w (temp_type C d) r) (result_mask opn k)" for r
    using within_result_mask [of opn "trunc_w (op_bits opn) r" k] by simp
  show ?thesis
  proof (cases opn)
    case (Op_movcond w d' c1 c2 v1 v2 c)
    then have t: "temp_type C d = op_bits opn" "d' = d" "v1 < nb_temps C" "v2 < nb_temps C"
      using W o by (cases w; auto simp: wt_op_def out_ok_def in_ok_def op_bits_def flag_64bit_def op_outs_def)+
    have k': "k = t_mask (T v1) OR t_mask (T v2)" "aff = - 1" using k Op_movcond by (auto simp: known_zero_def)
    obtain x y u v b where b: "\<sigma> v1 = Some u" "\<sigma> v2 = Some v" "s' = (put C d (trunc_w w (if b then u else v)) \<sigma>, m)"
      using e Op_movcond t(2) by (auto split: option.splits)
    have "within (if b then u else v) k" unfolding k'
      using within_logic(5,6) [OF valid_within [OF V t(3) b(1)] valid_within [OF V t(4) b(2)]] by simp
    then show ?thesis using b(3) k' r [OF t(1), of "trunc_w w (if b then u else v)"] within_trunc
      by (intro exI [of _ "trunc_w w (if b then u else v)"]) auto
  next
    case (Op_qemu_ld kk d' a i)
    then obtain x v m' where b: "exec_qemu_ld M kk x i m = (v, m')" "s' = (put C d v \<sigma>, m')"
      using e o by (auto simp: op_outs_def split: option.splits prod.splits)
    have "within v k" "aff = - 1" using b(1) k Op_qemu_ld u
      by (cases kk; auto simp: exec_qemu_ld_def known_zero_def split: prod.splits)+
    then show ?thesis using b(2) within_trunc Op_qemu_ld by (auto simp: result_mask_def flag_call_clobber_def)
  next
    case (Op_ld kk w d' a off)
    then have t: "temp_type C d = op_bits opn" "d' = d"
      using W o by (cases w; auto simp: wt_op_def out_ok_def op_bits_def flag_64bit_def op_outs_def)+
    obtain x v where b: "exec_ld M kk w (x + off) m = Some v" "s' = (put C d v \<sigma>, m)"
      using e t(2) Op_ld by (auto split: option.splits)
    have "within v k" "aff = - 1" using b(1) k Op_ld u
      by (cases kk; auto simp: exec_ld_def known_zero_def split: if_splits)+
    then show ?thesis using b(2) r [OF t(1), of v] within_trunc by auto
  next
    case (Op_setcond w d' a b c)
    then have t: "temp_type C d = op_bits opn" "d' = d"
      using W o by (cases w; auto simp: wt_op_def out_ok_def op_bits_def flag_64bit_def op_outs_def)+
    have "k = 1" "aff = - 1" using k Op_setcond by (auto simp: known_zero_def)
    then show ?thesis using Op_setcond e t r [OF t(1)] within_trunc [OF l] by (auto split: option.splits)
  next
    case (Op_mov w d' a)
    then have t: "temp_type C d = op_bits opn" "d' = d"
      using W o by (cases w; auto simp: wt_op_def out_ok_def op_bits_def flag_64bit_def op_outs_def)+
    have "k = - 1" "aff = - 1" using k Op_mov by (auto simp: known_zero_def)
    then show ?thesis using Op_mov e t(2) r [OF t(1)] by (auto split: option.splits)
  next
    case (Op_movi w d' v)
    then have t: "temp_type C d = op_bits opn" "d' = d"
      using W o by (cases w; auto simp: wt_op_def out_ok_def op_bits_def flag_64bit_def op_outs_def)+
    have "k = - 1" "aff = - 1" using k Op_movi by (auto simp: known_zero_def)
    then show ?thesis using Op_movi e t(2) r [OF t(1)] by auto
  qed (use e o c W k r in \<open>auto simp: op_outs_def known_zero_def wt_op_def out_ok_def op_bits_def flag_64bit_def
      split: option.splits width.splits\<close>)
qed

section \<open>Conditions\<close>

lemma fold_cond_sound:
  assumes V: "valid C T \<sigma>" and i: "in_ok C w a" "in_ok C w b" and x: "\<sigma> a = Some x" "\<sigma> b = Some y"
    and f: "do_constant_folding_cond C T w a b c = Inr (Some r)"
  shows "compare_w w x y c = Some r"
proof (cases "is_const T a \<and> is_const T b")
  case True
  have "compare_w w x y c = compare_w w (t_val (T a)) (t_val (T b)) c"
    using True by (intro compare_w_cong const_read [OF V i(1) _ x(1)] const_read [OF V i(2) _ x(2)]) auto
  then show ?thesis using True f
    by (cases w) (auto simp: do_constant_folding_cond_def map_sum_r_def sbind_eq_Inr_iff compare_w_def
        intro: fold_cond_32 fold_cond_64)
next
  case False
  then obtain cp where cp: "temps_are_copies C T a b = Inr cp"
    using f by (auto simp: do_constant_folding_cond_def sbind_eq_Inr_iff)
  show ?thesis
  proof (cases cp)
    case True
    have "x = y" using temps_are_copies_sound [OF V, of a b] i(1) cp True x by (simp add: in_ok_def)
    then show ?thesis using f False cp True fold_cond_eq [of c r w x]
      by (auto simp: do_constant_folding_cond_def map_sum_r_def sbind_eq_Inr_iff)
  next
    case f2: False
    have z: "is_const_val T b 0" using f False cp f2 by (auto simp: do_constant_folding_cond_def split: if_splits)
    have "compare_w w x y c = compare_w w x 0 c"
      by (intro compare_w_cong refl const_val_read [OF V i(2) z x(2)])
    then show ?thesis using f False cp f2 z
      by (cases w; cases c) (auto simp: do_constant_folding_cond_def compare_zero split: if_splits)
  qed
qed

lemma join32_cong: "lo32 h = lo32 h' \<Longrightarrow> lo32 l = lo32 l' \<Longrightarrow> join32 h l = join32 h' l'"
  by (simp add: join32_def)

lemma join32_or: "push_bit 32 h OR lo32 l = join32 h l" "push_bit 32 (lo32 h) OR lo32 l = join32 h l"
proof -
  have "push_bit 32 (lo32 h) AND lo32 l = 0" by (rule bit_word_eqI) (auto simp: lo32_def bit_simps)
  then have "push_bit 32 (lo32 h) OR lo32 l = join32 h l"
    by (simp add: join32_def disjunctive_add_eq_or)
  moreover have "push_bit 32 (lo32 h) = push_bit 32 h" by (rule bit_word_eqI) (auto simp: lo32_def bit_simps)
  ultimately show "push_bit 32 h OR lo32 l = join32 h l" "push_bit 32 (lo32 h) OR lo32 l = join32 h l" by simp_all
qed

lemma const_lo32:
  assumes "valid C T \<sigma>" "in_ok C W32 a" "is_const T a" "\<sigma> a = Some x"
  shows "lo32 x = lo32 (t_val (T a))"
  using const_read [OF assms] by (simp add: trunc_w_def)

lemma fold_cond2_sound:
  assumes V: "valid C T \<sigma>" and i: "in_ok C W32 al" "in_ok C W32 ah" "in_ok C W32 bl" "in_ok C W32 bh"
    and x: "\<sigma> al = Some a0" "\<sigma> ah = Some a1" "\<sigma> bl = Some b0" "\<sigma> bh = Some b1"
    and f: "do_constant_folding_cond2 C T al ah bl bh c = Inr (Some r)"
  shows "tci_compare64 (join32 a1 a0) (join32 b1 b0) c = Some r"
proof -
  let ?ca = "is_const T al \<and> is_const T ah" and ?cb = "is_const T bl \<and> is_const T bh"
  have a: "join32 a1 a0 = push_bit 32 (t_val (T ah)) OR lo32 (t_val (T al))" if ?ca
    unfolding join32_or using that by (intro join32_cong const_lo32 [OF V]) (use i x in auto)
  have b: "join32 b1 b0 = push_bit 32 (t_val (T bh)) OR lo32 (t_val (T bl))" if ?cb
    unfolding join32_or using that by (intro join32_cong const_lo32 [OF V]) (use i x in auto)
  have cp: "tci_compare64 (join32 a1 a0) (join32 b1 b0) c = Some r"
    if "temps_are_copies C T al bl = Inr True" "temps_are_copies C T ah bh = Inr True" "do_constant_folding_cond_eq c = Inr r"
  proof -
    have "a0 = b0" "a1 = b1" using temps_are_copies_sound [OF V _ that(1)] temps_are_copies_sound [OF V _ that(2)] i x
      by (auto simp: in_ok_def)
    then show ?thesis using fold_cond_eq [OF that(3)] by simp
  qed
  have z: "tci_compare64 u 0 COND_LTU = Some False" "tci_compare64 u 0 COND_GEU = Some True" for u
    by (auto simp: tci_compare64_def)
  show ?thesis using f a b cp z
    by (auto simp: do_constant_folding_cond2_def map_sum_r_def sbind_eq_Inr_iff Let_def intro: fold_cond_64
        split: if_splits)
qed

section \<open>Operations that are kept\<close>

lemma valid_default_out:
  assumes V: "valid C T \<sigma>" and d: "d < nb_temps C" and w: "within (trunc_w (temp_type C d) r) k"
  shows "valid C (set_mask k d (reset_temp d T)) (put C d r \<sigma>)"
  using w by (intro valid_set_mask exec_reset [OF V d]) (auto simp: put_def within_def)

lemma valid_put_list:
  "valid C T \<sigma> \<Longrightarrow> \<forall>d \<in> set outs. d < nb_temps C \<Longrightarrow> valid C (reset_outs outs T) (put_list C outs vs \<sigma>)"
  by (induction C outs vs \<sigma> arbitrary: T rule: put_list.induct)
     (auto intro: exec_reset valid_reset_temp simp del: fun_upd_apply)

lemma valid_reset_globals:
  "valid C T \<sigma> \<Longrightarrow> n \<le> nb_temps C \<Longrightarrow>
   valid C (reset_globals n T) (\<lambda>t. if t < n then Some (trunc_w (temp_type C t) (gs t)) else \<sigma> t)"
proof (induction n)
  case (Suc n)
  then have "valid C (reset_globals n T) (\<lambda>t. if t < n then Some (trunc_w (temp_type C t) (gs t)) else \<sigma> t)" by simp
  from valid_reset_temp [OF this, of n "Some (trunc_w (temp_type C n) (gs n))"] Suc.prems(2)
  have "valid C (reset_globals (Suc n) T) ((\<lambda>t. if t < n then Some (trunc_w (temp_type C t) (gs t)) else \<sigma> t)
    (n := Some (trunc_w (temp_type C n) (gs n))))" by simp
  moreover have "(\<lambda>t. if t < n then Some (trunc_w (temp_type C t) (gs t)) else \<sigma> t)(n := Some (trunc_w (temp_type C n) (gs n)))
    = (\<lambda>t. if t < Suc n then Some (trunc_w (temp_type C t) (gs t)) else \<sigma> t)"
    by (auto simp: fun_eq_iff less_Suc_eq)
  ultimately show ?case by simp
qed simp

definition plain :: "tcg_op \<Rightarrow> bool" where
  "plain opn = (case opn of Op_discard _ \<Rightarrow> False | Op_call _ _ _ \<Rightarrow> False | _ \<Rightarrow> True)"

lemma single_out:
  assumes V: "valid C T \<sigma>" and W: "wt_op C opn" and k: "known_zero T opn = Inr (k, aff)"
    and e: "exec_op M C opn (\<sigma>, m) = Some s'" and o: "op_outs opn = [d]" and p: "plain opn"
  shows "\<exists>r m'. s' = (put C d r \<sigma>, m') \<and> masked C opn \<sigma> d r k aff"
proof (cases opn)
  case (Op_un opc w d' a)
  then show ?thesis using masked_un [OF V, of opc w d' a k aff] W k e o
    by (auto simp: op_outs_def elim!: exec_un_cases simp del: exec_op.simps)
next
  case (Op_bin opc w d' a b)
  then show ?thesis using masked_bin [OF V, of opc w d' a b k aff] W k e o
    by (auto simp: op_outs_def elim!: exec_bin_cases simp del: exec_op.simps)
next
  case (Op_deposit w d' a b pos len)
  then show ?thesis using masked_deposit [OF V, of w d' a b pos len k aff] W k e o
    by (auto simp: op_outs_def split: option.splits)
qed (use p masked_other [OF V W k e o] in \<open>auto simp: plain_def masked_def\<close>)

lemma out_below: "wt_op C opn \<Longrightarrow> d \<in> set (op_outs opn) \<Longrightarrow> d < nb_temps C"
  by (cases opn) (auto simp: wt_op_def op_outs_def out_ok_def)

lemma no_out:
  assumes "exec_op M C opn (\<sigma>, m) = Some s'" "op_outs opn = []" "plain opn"
  shows "fst s' = \<sigma>"
  using assms by (cases opn) (auto simp: op_outs_def plain_def split: option.splits)

lemma two_outs:
  assumes "exec_op M C opn (\<sigma>, m) = Some s'" "op_outs opn = rl # rh # ds" "plain opn"
  shows "\<exists>l h. fst s' = put C rh h (put C rl l \<sigma>) \<and> ds = []"
  using assms by (cases opn; auto simp: op_outs_def plain_def split: option.splits prod.splits; blast)

lemma pair_mask:
  assumes "wt_op C opn" "op_outs opn = rl # rh # ds" "plain opn" "known_zero T opn = Inr (k, aff)"
  shows "within (trunc_w (temp_type C rl) l) (result_mask opn k)"
proof -
  have "temp_type C rl = op_bits opn" "k = - 1" using assms
    by (cases opn; auto simp: wt_op_def op_outs_def plain_def out_ok_def op_bits_def flag_64bit_def known_zero_def
      split: width.splits; metis (full_types) width.exhaust)+
  then show ?thesis using within_result_mask [of opn "trunc_w (op_bits opn) l" k] by simp
qed

lemma do_default_valid:
  assumes V: "valid C T \<sigma>" and W: "wt_op C opn" and k: "known_zero T opn = Inr (k, aff)"
    and e: "exec_op M C opn (\<sigma>, m) = Some s'" and n: "\<not> flag_bb_end opn"
    and c: "case opn of Op_call _ _ _ \<Rightarrow> False | _ \<Rightarrow> True"
  shows "\<exists>T'. do_default C T opn (result_mask opn k) = (T', [opn], False) \<and> valid C T' (fst s')"
proof (cases "plain opn")
  case p: True
  consider "op_outs opn = []" | d where "op_outs opn = [d]" | rl rh ds where "op_outs opn = rl # rh # ds"
    by (cases "op_outs opn" rule: remdups_adj.cases) auto
  then show ?thesis
  proof cases
    case 1
    then show ?thesis using n no_out [OF e 1 p] V by (simp add: do_default_def)
  next
    case (2 d)
    then show ?thesis using n single_out [OF V W k e 2 p] valid_default_out [OF V out_below [OF W, of d]]
      by (auto simp: do_default_def masked_def)
  next
    case (3 rl rh ds)
    obtain l h where s: "fst s' = put C rh h (put C rl l \<sigma>)" "ds = []" using two_outs [OF e 3 p] by blast
    have "valid C (set_mask (result_mask opn k) rl (reset_temp rl T)) (put C rl l \<sigma>)"
      using pair_mask [OF W 3 p k] out_below [OF W, of rl] 3 by (intro valid_default_out [OF V]) auto
    from exec_reset [OF this, of rh h] show ?thesis using n 3 s out_below [OF W, of rh]
      by (auto simp: do_default_def)
  qed
next
  case False
  then obtain d where d: "opn = Op_discard d" using c by (cases opn) (auto simp: plain_def)
  have "d < nb_temps C" using W d by (simp add: wt_op_def)
  then have "valid C (set_mask k' d (reset_temp d T)) (\<sigma>(d := None))" for k'
    by (intro valid_set_mask valid_reset_temp [OF V]) auto
  then show ?thesis using e d n by (auto simp: do_default_def op_outs_def)
qed

section \<open>The pass over one operation is sound\<close>

definition straight :: "tcg_op \<Rightarrow> bool" where
  "straight opn = (case opn of Op_br _ \<Rightarrow> False | Op_brcond _ _ _ _ _ \<Rightarrow> False | Op_brcond2 _ _ _ _ _ _ \<Rightarrow> False
     | Op_goto_tb _ \<Rightarrow> False | Op_exit_tb _ \<Rightarrow> False | _ \<Rightarrow> True)"

lemma step_straight: "straight opn \<Longrightarrow> step_op M C opn s = map_option Next (exec_op M C opn s)"
  by (cases s; cases opn) (auto simp: straight_def)

lemma exec_step: "exec_op M C i s = Some s' \<Longrightarrow> step_op M C i s = Some (Next s')"
  by (cases s; cases i) auto

text \<open>
  The replacement behaves like the operation; the new knowledge is valid where execution goes on.
  A branch goes to a label, where nothing is known.
\<close>

definition keep_step :: "'w machine \<Rightarrow> tcg_context \<Rightarrow> tcg_op \<Rightarrow> tcg_op \<Rightarrow> temps \<Rightarrow> regs \<times> 'w \<Rightarrow> bool" where
  "keep_step M C opn op' T' s \<longleftrightarrow>
     (\<forall>out. step_op M C opn s = Some out \<longrightarrow> step_op M C op' s = Some out \<and>
        (\<forall>s'. out = Next s' \<longrightarrow> valid C T' (fst s')))"

definition keep_pair :: "'w machine \<Rightarrow> tcg_context \<Rightarrow> tcg_op \<Rightarrow> tcg_op \<Rightarrow> tcg_op \<Rightarrow> temps \<Rightarrow> regs \<times> 'w \<Rightarrow> bool" where
  "keep_pair M C opn o1 o2 T' s \<longleftrightarrow>
     (\<forall>out. step_op M C opn s = Some out \<longrightarrow>
        (\<exists>s1 s2. out = Next s2 \<and> step_op M C o1 s = Some (Next s1) \<and> step_op M C o2 s1 = Some (Next s2) \<and>
           valid C T' (fst s2)))"

definition sound_result ::
  "'w machine \<Rightarrow> tcg_context \<Rightarrow> tcg_op \<Rightarrow> bool \<Rightarrow> fold_result \<Rightarrow> regs \<times> 'w \<Rightarrow> bool" where
  "sound_result M C opn next_is_nop res s = (case res of (T', ops, skip) \<Rightarrow>
     (\<exists>op'. ops = [op'] \<and> \<not> skip \<and> keep_step M C opn op' T' s) \<or>
     (\<exists>o1 o2. ops = [o1, o2] \<and> skip \<and> next_is_nop \<and> keep_pair M C opn o1 o2 T' s))"

lemma sound_single: "keep_step M C opn op' T' s \<Longrightarrow> sound_result M C opn nn (T', [op'], False) s"
  by (simp add: sound_result_def)

lemma keeps_step: "keeps M C opn op' T' s \<Longrightarrow> straight opn \<Longrightarrow> keep_step M C opn op' T' s"
  by (auto simp: keeps_def keep_step_def step_straight exec_step)

lemma keeps_sound: "keeps M C opn op' T' s \<Longrightarrow> straight opn \<Longrightarrow> sound_result M C opn nn (T', [op'], False) s"
  by (intro sound_single keeps_step)

lemma out_bits:
  assumes "wt_op C opn" "op_outs opn = [d]" "plain opn" "case opn of Op_qemu_ld _ _ _ _ \<Rightarrow> False | _ \<Rightarrow> True"
  shows "out_ok C (op_bits opn) d"
proof -
  have w: "(if w = W64 then W64 else W32) = w" for w by (cases w) auto
  have m: "\<not> (mulh opc \<and> w = W64) \<Longrightarrow> (if w = W64 \<and> opc \<noteq> O_muluh \<and> opc \<noteq> O_mulsh then W64 else W32) = w" for w opc
    by (cases w) (auto simp: mulh_def)
  show ?thesis using assms
    by (cases opn) (auto simp: wt_op_def op_outs_def plain_def op_bits_def flag_64bit_def w m)
qed

lemma same_memory:
  assumes "exec_op M C opn (\<sigma>, m) = Some (\<sigma>', m')" "op_outs opn = [d]" "plain opn"
    "case opn of Op_qemu_ld _ _ _ _ \<Rightarrow> False | _ \<Rightarrow> True"
  shows "m' = m"
  using assms by (cases opn) (auto simp: op_outs_def plain_def split: option.splits prod.splits)

lemma no_mask_zero:
  assumes "known_zero T opn = Inr (k, aff)" "\<not> plain opn \<or> \<not> (case opn of Op_qemu_ld _ _ _ _ \<Rightarrow> False | _ \<Rightarrow> True)"
  shows "result_mask opn k \<noteq> 0 \<and> aff \<noteq> 0"
  using assms
  by (cases opn) (auto simp: known_zero_def plain_def result_mask_def flag_call_clobber_def split: qld_kind.splits)

lemma unaffected_const:
  assumes V: "valid C T \<sigma>" and W: "wt_op C opn" and k: "known_zero T opn = Inr (k, 0)"
    and c: "is_const T (first_in opn)" and x: "\<sigma> (first_in opn) = Some x"
  shows "trunc_w (op_bits opn) (t_val (T (first_in opn))) = trunc_w (op_bits opn) x"
proof (cases opn)
  case (Op_un opc w d a)
  have b: "op_bits opn = w" "first_in opn = a" "a < nb_temps C"
    using W by (cases w; auto simp: Op_un op_bits_def flag_64bit_def first_in_def op_ins_def wt_op_def in_ok_def)+
  show ?thesis
  proof (cases "ext32 opc")
    case True
    then have "t_mask (T a) AND NOT (mask 32) = 0"
      using k Op_un by (auto simp: known_zero_def ext32_def and_const_def mask_literals split: if_splits)
    moreover have m: "t_mask (T a) = t_val (T a)" and xx: "x = trunc_w (temp_type C a) (t_val (T a))"
      using V b c x val_okD(3) [of C T \<sigma> a x] by (auto simp: valid_def info_ok_def is_const_def)
    ultimately have "lo32 (t_val (T a)) = t_val (T a)"
      using affected_none [of "t_val (T a)" "t_val (T a)" "mask 32"] by (simp add: ucast_ucast_mask(3))
    then show ?thesis using xx b by (cases "temp_type C a") (simp_all add: trunc_w_def)
  next
    case False
    then show ?thesis using const_read [OF V, of w a x] W Op_un b c x by (simp add: wt_op_def)
  qed
next
  case (Op_bin opc w d a b)
  then show ?thesis using const_read [OF V, of w a x] W c x op_bits_bin [of C opc w d a b]
    by (simp add: wt_op_def first_in_def op_ins_def)
qed (use k in \<open>auto simp: known_zero_def sbind_eq_Inr_iff Let_def split: ld_kind.splits qld_kind.splits\<close>)

lemma simp_mask_keeps:
  assumes V: "valid C T \<sigma>" and W: "wt_op C opn" and k: "known_zero T opn = Inr (k, aff)"
    and s: "simp_mask C T opn (result_mask opn k) aff = Inr (Some (T', op'))"
  shows "keeps M C opn op' T' (\<sigma>, m)"
  unfolding keeps_def
proof (intro allI impI)
  fix s' assume e: "exec_op M C opn (\<sigma>, m) = Some s'"
  have z: "result_mask opn k = 0 \<or> aff = 0" using s by (auto simp: simp_mask_def split: if_splits)
  then have p: "plain opn" "case opn of Op_qemu_ld _ _ _ _ \<Rightarrow> False | _ \<Rightarrow> True" using no_mask_zero [OF k] by blast+
  obtain d where d: "op_outs opn = [d]" "first_out opn = d"
    using s by (auto simp: simp_mask_def sbind_eq_Inr_iff c_assert_def first_out_def length_Suc_conv split: if_splits)
  obtain r where r: "s' = (put C d r \<sigma>, m)" "masked C opn \<sigma> d r k aff"
    using single_out [OF V W k e d(1) p(1)] same_memory [OF _ d(1) p] e by (metis surj_pair prod.inject)
  note ob = out_bits [OF W d(1) p]
  show "exec_op M C op' (\<sigma>, m) = Some s' \<and> valid C T' (fst s')"
  proof (cases "result_mask opn k = 0")
    case True
    then have "trunc_w (op_bits opn) 0 = trunc_w (op_bits opn) r"
      using r(2) ob by (simp add: masked_def out_ok_def) (simp add: trunc_w_def split: width.split)
    then show ?thesis using True s d r(1) exec_movi(1) [OF V ob, of 0 r M m] exec_movi(2) [OF V ob, of 0 r]
      by (auto simp: simp_mask_def sbind_eq_Inr_iff gen_movi_def)
  next
    case False
    then obtain x where x: "\<sigma> (first_in opn) = Some x" "first_in opn < nb_temps C"
      "trunc_w (op_bits opn) x = trunc_w (op_bits opn) r" and aff: "aff = 0" using r(2) z by (auto simp: masked_def)
    let ?a = "first_in opn"
    obtain cp where cp: "temps_are_copies C T d ?a = Inr cp"
      using s False aff d(2) by (auto simp: simp_mask_def sbind_eq_Inr_iff Let_def)
    show ?thesis
    proof (cases "cp \<or> \<not> is_const T ?a")
      case True
      then have "gen_mov_or_nop C T opn d ?a = Inr (T', op')"
        using s False aff d(2) cp
        by (auto simp: simp_mask_def gen_mov_or_nop_def sbind_eq_Inr_iff Let_def split: if_splits)
      then show ?thesis using exec_mov [OF V ob x(2,1,3), of T' op' M m] r(1) by simp
    next
      case f2: False
      then have g: "(T', op') = gen_movi T opn d (t_val (T ?a))"
        using s False aff d(2) cp by (auto simp: simp_mask_def sbind_eq_Inr_iff Let_def)
      have "trunc_w (op_bits opn) (t_val (T ?a)) = trunc_w (op_bits opn) r"
        using unaffected_const [OF V W _ _ x(1)] k aff f2 x(3) by simp
      then show ?thesis using g r(1) exec_movi(1) [OF V ob, of "t_val (T ?a)" r M m] exec_movi(2) [OF V ob, of "t_val (T ?a)" r]
        by (auto simp: gen_movi_def)
    qed
  qed
qed

lemma bb_end_same: "flag_bb_end opn \<Longrightarrow> step_op M C opn (\<sigma>, m) = Some (Next s') \<Longrightarrow> fst s' = \<sigma>"
  by (cases opn) (auto simp: flag_bb_end_def branch_def split: option.splits if_splits)

lemma keep_same_bb_end: "flag_bb_end opn \<Longrightarrow> typed C \<sigma> \<Longrightarrow> keep_step M C opn opn (reset_all_temps (nb_temps C) T) (\<sigma>, m)"
  by (auto simp: keep_step_def dest!: bb_end_same intro: valid_reset_all)

lemma straight_not_bb_end: "\<not> flag_bb_end opn \<Longrightarrow> straight opn"
  by (cases opn) (auto simp: flag_bb_end_def straight_def)

lemma default_sound:
  assumes V: "valid C T \<sigma>" and W: "wt_op C opn" and k: "known_zero T opn = Inr (k, aff)"
    and c: "case opn of Op_call _ _ _ \<Rightarrow> False | _ \<Rightarrow> True"
  shows "sound_result M C opn nn (do_default C T opn (result_mask opn k)) (\<sigma>, m)"
proof (cases "flag_bb_end opn")
  case True
  then show ?thesis by (simp add: do_default_def sound_single keep_same_bb_end valid_typed [OF V])
next
  case False
  obtain T' where T': "do_default C T opn (result_mask opn k) = (T', [opn], False)"
    using False by (cases "op_outs opn") (auto simp: do_default_def)
  have "keeps M C opn opn T' (\<sigma>, m)"
    using do_default_valid [OF V W k _ False c] T' by (auto simp: keeps_def)
  then show ?thesis using keeps_sound [OF _ straight_not_bb_end [OF False]] T' by auto
qed

lemma exec_movi_keeps:
  assumes V: "valid C T \<sigma>" and d: "out_ok C (op_bits opn) d"
    and e: "\<And>s'. exec_op M C opn (\<sigma>, m) = Some s' \<Longrightarrow>
      \<exists>r. s' = (put C d r \<sigma>, m) \<and> trunc_w (op_bits opn) v = trunc_w (op_bits opn) r"
  shows "keeps M C opn (op_to_movi opn d v) (tcg_opt_gen_movi T d v) (\<sigma>, m)"
  unfolding keeps_def
proof (intro allI impI)
  fix s' assume "exec_op M C opn (\<sigma>, m) = Some s'"
  from e [OF this] obtain r where "s' = (put C d r \<sigma>, m)" "trunc_w (op_bits opn) v = trunc_w (op_bits opn) r" by blast
  then show "exec_op M C (op_to_movi opn d v) (\<sigma>, m) = Some s' \<and> valid C (tcg_opt_gen_movi T d v) (fst s')"
    using exec_movi [OF V d] by simp
qed

lemma exec_mov_keeps:
  assumes V: "valid C T \<sigma>" and d: "out_ok C (op_bits opn) d" and a: "in_ok C (op_bits opn) a"
    and e: "\<And>s'. exec_op M C opn (\<sigma>, m) = Some s' \<Longrightarrow>
      \<exists>x r. \<sigma> a = Some x \<and> s' = (put C d r \<sigma>, m) \<and> trunc_w (op_bits opn) x = trunc_w (op_bits opn) r"
    and f: "fold_movcond C T opn d a = Inr (T', ops, skip)"
  shows "\<exists>op'. ops = [op'] \<and> \<not> skip \<and> keeps M C opn op' T' (\<sigma>, m)"
proof -
  have an: "a < nb_temps C" using a by (simp add: in_ok_def)
  obtain cp where cp: "temps_are_copies C T d a = Inr cp" using f by (auto simp: fold_movcond_def sbind_eq_Inr_iff)
  show ?thesis
  proof (cases "\<not> cp \<and> is_const T a")
    case True
    have "keeps M C opn (op_to_movi opn d (t_val (T a))) (tcg_opt_gen_movi T d (t_val (T a))) (\<sigma>, m)"
      using e const_read [OF V a] True by (intro exec_movi_keeps [OF V d]) fastforce
    then show ?thesis using True f cp by (auto simp: fold_movcond_def)
  next
    case False
    then obtain op' where g: "gen_mov_or_nop C T opn d a = Inr (T', op')" "ops = [op']" "\<not> skip"
      using f cp by (auto simp: fold_movcond_def gen_mov_or_nop_def sbind_eq_Inr_iff split: if_splits)
    have "keeps M C opn op' T' (\<sigma>, m)" unfolding keeps_def
      using e exec_mov [OF V d an _ _ g(1)] by fastforce
    then show ?thesis using g by blast
  qed
qed

lemma fold_mov_movcond:
  assumes "op_bits opn = w" "opn = Op_mov w d a"
  shows "fold_mov C T opn d a = fold_movcond C T opn d a"
  using assms by (auto simp: fold_mov_def fold_movcond_def op_to_mov_def sbind_def split: sum.splits)

lemma trunc_mask_bits: "trunc_w (op_bits opn) (mask_bits opn v) = trunc_w (op_bits opn) v"
  by (auto simp: mask_bits_def trunc_w_def mask_literals ucast_ucast_mask(3) [symmetric] split: width.split)

lemma fold_un_keeps:
  assumes V: "valid C T \<sigma>" and W: "wt_op C (Op_un opc w d a)" and c: "is_const T a"
    and f: "do_constant_folding (Op_un opc w d a) (t_val (T a)) 0 = Inr v"
  shows "keeps M C (Op_un opc w d a) (op_to_movi (Op_un opc w d a) d v) (tcg_opt_gen_movi T d v) (\<sigma>, m)"
proof (rule exec_movi_keeps [OF V])
  let ?o = "Op_un opc w d a"
  have b: "op_bits ?o = w" by (cases w) (auto simp: op_bits_def flag_64bit_def)
  show "out_ok C (op_bits ?o) d" using W b by (simp add: wt_op_def)
  fix s' assume "exec_op M C ?o (\<sigma>, m) = Some s'"
  then obtain x r where x: "\<sigma> a = Some x" "eval_un opc w x = Some r" "s' = (put C d r \<sigma>, m)" by (rule exec_un_cases)
  have "eval_un opc w (t_val (T a)) = Some r"
  proof (cases "ext32 opc")
    case True
    have "lo32 x = lo32 (t_val (T a))" using const_lo32 [OF V _ c x(1)] W True by (simp add: wt_op_def)
    then show ?thesis using eval_ext32_cong [of x "t_val (T a)" opc w] True x(2) by (simp add: ext32_def)
  next
    case False
    have "trunc_w w x = trunc_w w (t_val (T a))" using const_read [OF V _ c x(1)] W False by (simp add: wt_op_def)
    then show ?thesis using eval_un_cong [of w x "t_val (T a)" opc] x(2) by simp
  qed
  moreover obtain u where "fold_un_2 opc w (t_val (T a)) = Inr u" "v = mask_bits ?o u"
    using f by (auto simp: do_constant_folding_def map_sum_r_def sbind_eq_Inr_iff)
  ultimately have "trunc_w w v = trunc_w w r" using fold_un_sound [of opc w "t_val (T a)" u r] trunc_mask_bits [of ?o u] b by auto
  then show "\<exists>r. s' = (put C d r \<sigma>, m) \<and> trunc_w (op_bits ?o) v = trunc_w (op_bits ?o) r" using x(3) b by auto
qed

lemma fold_bin_keeps:
  assumes V: "valid C T \<sigma>" and W: "wt_op C (Op_bin opc w d a b)" and c: "is_const T a" "is_const T b"
    and f: "do_constant_folding (Op_bin opc w d a b) (t_val (T a)) (t_val (T b)) = Inr v"
  shows "keeps M C (Op_bin opc w d a b) (op_to_movi (Op_bin opc w d a b) d v) (tcg_opt_gen_movi T d v) (\<sigma>, m)"
proof (rule exec_movi_keeps [OF V])
  let ?o = "Op_bin opc w d a b"
  note bt = op_bits_bin [OF W]
  show "out_ok C (op_bits ?o) d" using W bt by (simp add: wt_op_def)
  fix s' assume "exec_op M C ?o (\<sigma>, m) = Some s'"
  then obtain x y r where x: "\<sigma> a = Some x" "\<sigma> b = Some y" "eval_bin opc w x y = Some r" "s' = (put C d r \<sigma>, m)"
    by (rule exec_bin_cases)
  have i: "in_ok C w a" "in_ok C w b" using W by (auto simp: wt_op_def)
  have "eval_bin opc w (t_val (T a)) (t_val (T b)) = Some r"
    using eval_bin_cong [OF const_read [OF V i(1) c(1) x(1)] const_read [OF V i(2) c(2) x(2)], of opc] x(3) by simp
  moreover obtain u where "fold_bin_2 opc w (t_val (T a)) (t_val (T b)) = Inr u" "v = mask_bits ?o u"
    using f by (auto simp: do_constant_folding_def map_sum_r_def sbind_eq_Inr_iff)
  ultimately have "trunc_w w v = trunc_w w r"
    using fold_bin_sound [of opc w "t_val (T a)" "t_val (T b)" u r] trunc_mask_bits [of ?o u] bt by auto
  then show "\<exists>r. s' = (put C d r \<sigma>, m) \<and> trunc_w (op_bits ?o) v = trunc_w (op_bits ?o) r" using x(4) bt by auto
qed

lemma fold_deposit_keeps:
  assumes V: "valid C T \<sigma>" and W: "wt_op C (Op_deposit w d a b pos len)" and c: "is_const T a" "is_const T b"
    and s: "c_shl (1 :: u64) len = Inr s" "c_shl (s - 1) pos = Inr high" "c_shl (t_val (T b) AND (s - 1)) pos = Inr low"
    and v: "v = (t_val (T a) AND NOT high) OR low"
  shows "keeps M C (Op_deposit w d a b pos len) (op_to_movi (Op_deposit w d a b pos len) d v) (tcg_opt_gen_movi T d v) (\<sigma>, m)"
proof (rule exec_movi_keeps [OF V])
  let ?o = "Op_deposit w d a b pos len"
  have bt: "op_bits ?o = w" by (cases w) (auto simp: op_bits_def flag_64bit_def)
  show "out_ok C (op_bits ?o) d" using W bt by (simp add: wt_op_def)
  have i: "in_ok C w a" "in_ok C w b" using W by (auto simp: wt_op_def)
  fix s' assume "exec_op M C ?o (\<sigma>, m) = Some s'"
  then obtain x y r where x: "\<sigma> a = Some x" "\<sigma> b = Some y" "eval_deposit w x y pos len = Some r" "s' = (put C d r \<sigma>, m)"
    by (auto split: option.splits)
  have "r = trunc_w w v" unfolding v
    by (rule eval_deposit_mask(2) [OF x(3) s const_read [OF V i(1) c(1) x(1)] const_read [OF V i(2) c(2) x(2)]])
  then show "\<exists>r. s' = (put C d r \<sigma>, m) \<and> trunc_w (op_bits ?o) v = trunc_w (op_bits ?o) r" using x(4) bt by auto
qed

lemma fold_setcond_keeps:
  assumes V: "valid C T \<sigma>" and W: "wt_op C (Op_setcond w d a b c)"
    and f: "do_constant_folding_cond C T w a b c = Inr (Some v)"
  shows "keeps M C (Op_setcond w d a b c) (op_to_movi (Op_setcond w d a b c) d (of_bool v)) (tcg_opt_gen_movi T d (of_bool v)) (\<sigma>, m)"
proof (rule exec_movi_keeps [OF V])
  let ?o = "Op_setcond w d a b c"
  have bt: "op_bits ?o = w" by (cases w) (auto simp: op_bits_def flag_64bit_def)
  show "out_ok C (op_bits ?o) d" using W bt by (simp add: wt_op_def)
  fix s' assume "exec_op M C ?o (\<sigma>, m) = Some s'"
  then show "\<exists>r. s' = (put C d r \<sigma>, m) \<and> trunc_w (op_bits ?o) (of_bool v) = trunc_w (op_bits ?o) r"
    using fold_cond_sound [OF V _ _ _ _ f] W by (auto simp: wt_op_def split: option.splits)
qed

lemma fold_setcond2_keeps:
  assumes V: "valid C T \<sigma>" and W: "wt_op C (Op_setcond2 d al ah bl bh c)"
    and f: "do_constant_folding_cond2 C T al ah bl bh c = Inr (Some v)"
  shows "keeps M C (Op_setcond2 d al ah bl bh c) (Op_movi W32 d (of_bool v)) (tcg_opt_gen_movi T d (of_bool v)) (\<sigma>, m)"
proof -
  let ?o = "Op_setcond2 d al ah bl bh c"
  have bt: "op_bits ?o = W32" by (auto simp: op_bits_def flag_64bit_def)
  have "keeps M C ?o (op_to_movi ?o d (of_bool v)) (tcg_opt_gen_movi T d (of_bool v)) (\<sigma>, m)"
  proof (rule exec_movi_keeps [OF V])
    show "out_ok C (op_bits ?o) d" using W bt by (simp add: wt_op_def)
    fix s' assume "exec_op M C ?o (\<sigma>, m) = Some s'"
    then show "\<exists>r. s' = (put C d r \<sigma>, m) \<and> trunc_w (op_bits ?o) (of_bool v) = trunc_w (op_bits ?o) r"
      using fold_cond2_sound [OF V _ _ _ _ _ _ _ _ f] W by (auto simp: wt_op_def split: option.splits)
  qed
  then show ?thesis by (simp add: op_to_movi_def bt)
qed

text \<open>A comparison of a double word with zero for its sign looks at the high half only.\<close>

lemma sint_join32: "tci_compare64 (join32 h l) (join32 0 0) c = tci_compare32 (ucast h) 0 c"
  if "c = COND_LT \<or> c = COND_GE"
proof -
  have z: "join32 0 0 = 0" by (simp add: join32_def)
  have "bit (join32 h l) 63 = bit (ucast h :: u32) 31"
    unfolding join32_or(2) [symmetric] by (simp add: bit_simps lo32_def)
  then have "sint (join32 h l) < 0 \<longleftrightarrow> sint (ucast h :: u32) < 0"
    using bit_last_iff [of "join32 h l"] bit_last_iff [of "ucast h :: u32"] by simp
  then show ?thesis using that unfolding z
    by (auto simp: tci_compare64_def tci_compare32_def not_less [symmetric])
qed

lemma high_half:
  assumes V: "valid C T \<sigma>" and i: "in_ok C W32 bl" "in_ok C W32 bh" and z: "is_const_val T bl 0" "is_const_val T bh 0"
    and x: "\<sigma> bl = Some b0" "\<sigma> bh = Some b1" and c: "c = COND_LT \<or> c = COND_GE"
  shows "compare_w W32 a1 b1 c = tci_compare64 (join32 a1 a0) (join32 b1 b0) c"
proof -
  have "lo32 b0 = lo32 0" "lo32 b1 = lo32 0"
    using const_val_read [OF V i(1) z(1) x(1)] const_val_read [OF V i(2) z(2) x(2)] by (simp_all add: trunc_w_def)
  then have "join32 b1 b0 = join32 0 0" "compare_w W32 a1 b1 c = compare_w W32 a1 0 c"
    by (auto intro!: join32_cong compare_w_cong simp: trunc_w_def)
  then show ?thesis using sint_join32 [OF c, of a1 a0] by (simp add: compare_w_def)
qed

lemma fold_pair_sound:
  assumes V: "valid C T \<sigma>" and d: "out_ok C W32 rl" "out_ok C W32 rh" and st: "straight opn"
    and e: "\<And>s'. exec_op M C opn (\<sigma>, m) = Some s' \<Longrightarrow> s' = (put C rh (hi32 r) (put C rl (lo32 r) \<sigma>), m)"
    and f: "fold_pair T nn rl rh r = Inr res"
  shows "sound_result M C opn nn res (\<sigma>, m)"
proof -
  define T1 where "T1 = tcg_opt_gen_movi T rl (lo32 r)"
  have "bit r (32 + n) \<Longrightarrow> n < 32" for n using bit_imp_le_length [of r "32 + n"] by simp
  then have h: "lo32 (drop_bit 32 r) = hi32 r" by (intro bit_word_eqI) (auto simp: lo32_def hi32_def bit_simps)
  have res: "nn" "res = (tcg_opt_gen_movi T1 rh (hi32 r), [Op_movi W32 rl (lo32 r), Op_movi W32 rh (hi32 r)], True)"
    using f by (auto simp: fold_pair_def sbind_eq_Inr_iff c_assert_def T1_def h split: if_splits)
  have b: "rl < nb_temps C" "rh < nb_temps C" "temp_type C rl = W32" "temp_type C rh = W32" using d by (auto simp: out_ok_def)
  have V1: "valid C T1 (put C rl (lo32 r) \<sigma>)" unfolding T1_def by (rule valid_gen_movi [OF V b(1)]) simp
  have V2: "valid C (tcg_opt_gen_movi T1 rh (hi32 r)) (put C rh (hi32 r) (put C rl (lo32 r) \<sigma>))"
    by (rule valid_gen_movi [OF V1 b(2)]) simp
  have p: "put C rl (lo32 (lo32 r)) \<sigma> = put C rl (lo32 r) \<sigma>" "put C rh (lo32 (hi32 r)) \<tau> = put C rh (hi32 r) \<tau>" for \<tau>
    using b by (auto simp: put_def trunc_w_def)
  have "keep_pair M C opn (Op_movi W32 rl (lo32 r)) (Op_movi W32 rh (hi32 r)) (tcg_opt_gen_movi T1 rh (hi32 r)) (\<sigma>, m)"
    unfolding keep_pair_def step_straight [OF st] using e V2 b by (auto simp: p trunc_w_def put_def)
  then show ?thesis using res by (simp add: sound_result_def)
qed

lemma fold_add2_sound:
  assumes V: "valid C T \<sigma>" and W: "wt_op C opn" and k: "known_zero T opn = Inr (k, aff)"
    and o: "opn = (if sb then Op_sub2 w rl rh al ah bl bh else Op_add2 w rl rh al ah bl bh)"
    and f: "fold_add2 C T nn opn (result_mask opn k) sb w rl rh al ah bl bh = Inr res"
  shows "sound_result M C opn nn res (\<sigma>, m)"
proof (cases "w = W32 \<and> is_const T al \<and> is_const T ah \<and> is_const T bl \<and> is_const T bh")
  case True
  let ?a = "join32 (t_val (T ah)) (t_val (T al))" and ?b = "join32 (t_val (T bh)) (t_val (T bl))"
  have i: "out_ok C W32 rl" "out_ok C W32 rh" "in_ok C W32 al" "in_ok C W32 ah" "in_ok C W32 bl" "in_ok C W32 bh"
    using W True o by (auto simp: wt_op_def split: if_splits)
  have f': "fold_pair T nn rl rh (if sb then ?a - ?b else ?a + ?b) = Inr res"
    using f True by (simp add: fold_add2_def join32_or(2) Let_def)
  show ?thesis
  proof (rule fold_pair_sound [OF V i(1,2) _ _ f'])
    show "straight opn" by (simp add: straight_def o)
    fix s' assume e: "exec_op M C opn (\<sigma>, m) = Some s'"
    then obtain a0 a1 b0 b1 where x: "\<sigma> al = Some a0" "\<sigma> ah = Some a1" "\<sigma> bl = Some b0" "\<sigma> bh = Some b1"
      unfolding o by (auto split: option.splits if_splits)
    have "join32 a1 a0 = ?a" "join32 b1 b0 = ?b"
      by (intro join32_cong const_lo32 [OF V]; use i x True in simp)+
    then show "s' = (put C rh (hi32 (if sb then ?a - ?b else ?a + ?b)) (put C rl (lo32 (if sb then ?a - ?b else ?a + ?b)) \<sigma>), m)"
      using e x True unfolding o by (cases sb) (auto simp: add2_w_def Let_def)
  qed
next
  case False
  then have "res = do_default C T opn (result_mask opn k)" using f by (auto simp: fold_add2_def)
  then show ?thesis using default_sound [OF V W k, of M nn m] o by (cases sb) auto
qed

lemma branch_decided:
  assumes V: "valid C T \<sigma>"
    and e: "\<And>out. step_op M C opn (\<sigma>, m) = Some out \<Longrightarrow> out = (if r then Jump l (\<sigma>, m) else Next (\<sigma>, m))"
  shows "sound_result M C opn nn (if r then (reset_all_temps (nb_temps C) T, [Op_br l], False) else (T, [Op_nop], False)) (\<sigma>, m)"
proof -
  have "keep_step M C opn (if r then Op_br l else Op_nop) (if r then T' else T) (\<sigma>, m)" for T'
    unfolding keep_step_def using e V by (auto split: if_splits)
  then show ?thesis using sound_single by (cases r) (auto simp: sound_result_def)
qed

lemma fold_brcond_sound:
  assumes V: "valid C T \<sigma>" and W: "wt_op C opn" and k: "known_zero T opn = Inr (k, aff)"
    and o: "opn = Op_brcond w a b c l" and f: "fold_op C T nn opn (result_mask opn k) = Inr res"
  shows "sound_result M C opn nn res (\<sigma>, m)"
proof -
  obtain r where r: "do_constant_folding_cond C T w a b c = Inr r"
    using f by (auto simp: o fold_op_defs sbind_eq_Inr_iff)
  show ?thesis
  proof (cases r)
    case None
    then show ?thesis using f r default_sound [OF V W k, of M nn m] by (auto simp: o fold_op_defs)
  next
    case (Some v)
    have "out = (if v then Jump l (\<sigma>, m) else Next (\<sigma>, m))" if "step_op M C opn (\<sigma>, m) = Some out" for out
      using that W fold_cond_sound [OF V _ _ _ _ r [unfolded Some]]
      by (auto simp: o wt_op_def branch_def split: option.splits)
    then show ?thesis using branch_decided [OF V, of M opn m v l nn] f r Some unfolding o by (cases v) (auto simp: fold_op_defs simp del: step_op.simps)
  qed
qed

lemma fold_brcond2_sound:
  assumes V: "valid C T \<sigma>" and W: "wt_op C opn" and k: "known_zero T opn = Inr (k, aff)"
    and o: "opn = Op_brcond2 al ah bl bh c l" and f: "fold_op C T nn opn (result_mask opn k) = Inr res"
  shows "sound_result M C opn nn res (\<sigma>, m)"
proof -
  have i: "in_ok C W32 al" "in_ok C W32 ah" "in_ok C W32 bl" "in_ok C W32 bh" using W by (auto simp: o wt_op_def)
  obtain r where r: "do_constant_folding_cond2 C T al ah bl bh c = Inr r"
    using f by (auto simp: o fold_op_defs sbind_eq_Inr_iff)
  show ?thesis
  proof (cases r)
    case (Some v)
    have "out = (if v then Jump l (\<sigma>, m) else Next (\<sigma>, m))" if "step_op M C opn (\<sigma>, m) = Some out" for out
      using that i fold_cond2_sound [OF V _ _ _ _ _ _ _ _ r [unfolded Some]]
      by (auto simp: o branch_def split: option.splits)
    then show ?thesis using branch_decided [OF V, of M opn m v l nn] f r Some unfolding o by (cases v) (auto simp: fold_op_defs simp del: step_op.simps)
  next
    case None
    show ?thesis
    proof (cases "(c = COND_LT \<or> c = COND_GE) \<and> is_const_val T bl 0 \<and> is_const_val T bh 0")
      case True
      have "keep_step M C opn (Op_brcond W32 ah bh c l) (reset_all_temps (nb_temps C) T) (\<sigma>, m)"
        unfolding keep_step_def using True high_half [OF V i(3,4)] valid_reset_all [OF valid_typed [OF V]]
        by (auto simp: o branch_def split: option.splits if_splits)
      then show ?thesis using sound_single f r None True by (auto simp: o fold_op_defs)
    next
      case False
      then show ?thesis using f r None default_sound [OF V W k, of M nn m] by (auto simp: o fold_op_defs)
    qed
  qed
qed

lemma fold_setcond2_sound:
  assumes V: "valid C T \<sigma>" and W: "wt_op C opn" and k: "known_zero T opn = Inr (k, aff)"
    and o: "opn = Op_setcond2 d al ah bl bh c" and f: "fold_op C T nn opn (result_mask opn k) = Inr res"
  shows "sound_result M C opn nn res (\<sigma>, m)"
proof -
  have st: "straight opn" by (simp add: o straight_def)
  have i: "in_ok C W32 bl" "in_ok C W32 bh" "d < nb_temps C" using W by (auto simp: o wt_op_def out_ok_def)
  obtain r where r: "do_constant_folding_cond2 C T al ah bl bh c = Inr r"
    using f by (auto simp: o fold_op_defs sbind_eq_Inr_iff)
  show ?thesis
  proof (cases r)
    case (Some v)
    then show ?thesis using f r keeps_sound [OF fold_setcond2_keeps [OF V W [unfolded o] r [unfolded Some]] st [unfolded o]]
      by (auto simp: o fold_op_defs)
  next
    case None
    show ?thesis
    proof (cases "(c = COND_LT \<or> c = COND_GE) \<and> is_const_val T bl 0 \<and> is_const_val T bh 0")
      case True
      have "keeps M C opn (Op_setcond W32 d ah bh c) (reset_temp d T) (\<sigma>, m)"
        unfolding keeps_def using True high_half [OF V i(1,2)] exec_reset [OF V i(3)]
        by (auto simp: o split: option.splits)
      then show ?thesis using keeps_sound [OF _ st] f r None True by (auto simp: o fold_op_defs)
    next
      case False
      then show ?thesis using f r None default_sound [OF V W k, of M nn m] by (auto simp: o fold_op_defs)
    qed
  qed
qed

lemma fold_movcond_sound:
  assumes V: "valid C T \<sigma>" and W: "wt_op C opn" and k: "known_zero T opn = Inr (k, aff)"
    and o: "opn = Op_movcond w d c1 c2 v1 v2 c" and f: "fold_op C T nn opn (result_mask opn k) = Inr res"
  shows "sound_result M C opn nn res (\<sigma>, m)"
proof -
  have st: "straight opn" by (simp add: o straight_def)
  have bt: "op_bits opn = w" by (cases w) (auto simp: o op_bits_def flag_64bit_def)
  obtain r where r: "do_constant_folding_cond C T w c1 c2 c = Inr r"
    using f by (auto simp: o fold_op_defs sbind_eq_Inr_iff)
  show ?thesis
  proof (cases r)
    case None
    then show ?thesis using f r default_sound [OF V W k, of M nn m] by (auto simp: o fold_op_defs)
  next
    case (Some v)
    obtain T' ops skip where fm: "fold_movcond C T opn d (if v then v1 else v2) = Inr (T', ops, skip)" "res = (T', ops, skip)"
      using f r Some by (cases res) (auto simp: o fold_op_defs)
    have "\<exists>op'. ops = [op'] \<and> \<not> skip \<and> keeps M C opn op' T' (\<sigma>, m)"
    proof (rule exec_mov_keeps [OF V _ _ _ fm(1)])
      show "out_ok C (op_bits opn) d" "in_ok C (op_bits opn) (if v then v1 else v2)" using W bt by (auto simp: o wt_op_def)
      fix s' assume "exec_op M C opn (\<sigma>, m) = Some s'"
      then obtain x y u t q where e: "\<sigma> c1 = Some x" "\<sigma> c2 = Some y" "\<sigma> v1 = Some u" "\<sigma> v2 = Some t"
        "compare_w w x y c = Some q" "s' = (put C d (trunc_w w (if q then u else t)) \<sigma>, m)"
        unfolding o by (auto split: option.splits)
      have "q = v" using fold_cond_sound [OF V _ _ e(1,2) r [unfolded Some]] W e(5) by (simp add: o wt_op_def)
      then show "\<exists>x r. \<sigma> (if v then v1 else v2) = Some x \<and> s' = (put C d r \<sigma>, m) \<and>
          trunc_w (op_bits opn) x = trunc_w (op_bits opn) r"
        using e(3,4,6) unfolding bt by (intro exI [of _ "if v then u else t"] exI [of _ "trunc_w w (if q then u else t)"]) simp
    qed
    then show ?thesis using fm(2) keeps_sound [OF _ st] by auto
  qed
qed

lemma fold_mov_sound:
  assumes V: "valid C T \<sigma>" and W: "wt_op C opn"
    and o: "opn = Op_mov w d a" and f: "fold_op C T nn opn k = Inr res"
  shows "sound_result M C opn nn res (\<sigma>, m)"
proof -
  have st: "straight opn" by (simp add: o straight_def)
  have bt: "op_bits opn = w" by (cases w) (auto simp: o op_bits_def flag_64bit_def)
  have "fold_movcond C T opn d a = Inr res"
    using f unfolding fold_mov_movcond [OF bt o, symmetric] by (simp add: o fold_op_defs)
  then obtain T' ops skip where fm: "fold_movcond C T opn d a = Inr (T', ops, skip)" "res = (T', ops, skip)"
    by (cases res) simp
  have "\<exists>op'. ops = [op'] \<and> \<not> skip \<and> keeps M C opn op' T' (\<sigma>, m)"
  proof (rule exec_mov_keeps [OF V _ _ _ fm(1)])
    show "out_ok C (op_bits opn) d" "in_ok C (op_bits opn) a" using W bt by (auto simp: o wt_op_def)
    fix s' assume "exec_op M C opn (\<sigma>, m) = Some s'"
    then show "\<exists>x r. \<sigma> a = Some x \<and> s' = (put C d r \<sigma>, m) \<and> trunc_w (op_bits opn) x = trunc_w (op_bits opn) r"
      unfolding bt by (auto simp: o split: option.splits intro!: exI [of _ "trunc_w w _"])
  qed
  then show ?thesis using fm(2) keeps_sound [OF _ st] by auto
qed

lemma fold_call_sound:
  assumes V: "valid C T \<sigma>" and W: "wt_op C opn" and g: "nb_globals C \<le> nb_temps C"
    and o: "opn = Op_call outs ins flags" and f: "fold_op C T nn opn k = Inr res"
  shows "sound_result M C opn nn res (\<sigma>, m)"
proof -
  let ?kept = "call_globals_kept flags"
  define T1 where "T1 = (if ?kept then T else reset_globals (nb_globals C) T)"
  have res: "res = (reset_outs outs T1, [opn], False)"
    using f by (auto simp: o fold_op_defs T1_def call_globals_kept_def Let_def)
  have "keeps M C opn opn (reset_outs outs T1) (\<sigma>, m)" unfolding keeps_def
  proof (intro allI impI conjI)
    fix s' assume e: "exec_op M C opn (\<sigma>, m) = Some s'"
    then obtain vs gs where h: "fst s' = put_list C outs vs (if ?kept then \<sigma> else (\<lambda>t. if t < nb_globals C then Some (trunc_w (temp_type C t) (gs t)) else \<sigma> t))"
      by (auto simp: o Let_def split: option.splits prod.splits list.splits)
    have "valid C T1 (if ?kept then \<sigma> else (\<lambda>t. if t < nb_globals C then Some (trunc_w (temp_type C t) (gs t)) else \<sigma> t))"
      using V valid_reset_globals [OF V g, of gs] by (simp add: T1_def)
    then show "valid C (reset_outs outs T1) (fst s')"
      unfolding h using W by (intro valid_put_list) (auto simp: o wt_op_def)
  qed
  from keeps_sound [OF this] show ?thesis using res by (simp add: o straight_def)
qed

lemma fold_op_sound:
  assumes V: "valid C T \<sigma>" and W: "wt_op C opn" and k: "known_zero T opn = Inr (k, aff)"
    and g: "nb_globals C \<le> nb_temps C" and f: "fold_op C T nn opn (result_mask opn k) = Inr res"
  shows "sound_result M C opn nn res (\<sigma>, m)"
proof (cases opn)
  case (Op_call outs ins flags)
  show ?thesis by (rule fold_call_sound [OF V W g Op_call f])
next
  case (Op_mov w d a)
  show ?thesis by (rule fold_mov_sound [OF V W Op_mov f])
next
  case (Op_movi w d v)
  have bt: "op_bits opn = w" by (cases w) (auto simp: Op_movi op_bits_def flag_64bit_def)
  have "keeps M C opn (op_to_movi opn d v) (tcg_opt_gen_movi T d v) (\<sigma>, m)"
    using W bt by (intro exec_movi_keeps [OF V]) (auto simp: Op_movi wt_op_def intro!: exI [of _ "trunc_w w v"])
  from keeps_sound [OF this, of nn] show ?thesis using f bt by (simp add: Op_movi fold_op_defs op_to_movi_def straight_def)
next
  case (Op_un opc w d a)
  then show ?thesis using f default_sound [OF V W k, of M nn m] W
    by (auto simp: fold_op_defs sbind_eq_Inr_iff straight_def intro!: keeps_sound fold_un_keeps [OF V] split: if_splits)
next
  case (Op_bin opc w d a b)
  then show ?thesis using f default_sound [OF V W k, of M nn m] W
    by (auto simp: fold_op_defs sbind_eq_Inr_iff straight_def intro!: keeps_sound fold_bin_keeps [OF V] split: if_splits)
next
  case (Op_deposit w d a b pos len)
  then show ?thesis using f default_sound [OF V W k, of M nn m] W
    by (auto simp: fold_op_defs sbind_eq_Inr_iff straight_def Let_def intro!: keeps_sound fold_deposit_keeps [OF V] split: if_splits)
next
  case (Op_setcond w d a b c)
  obtain r where r: "do_constant_folding_cond C T w a b c = Inr r"
    using f by (auto simp: Op_setcond fold_op_defs sbind_eq_Inr_iff)
  have st: "straight opn" by (simp add: Op_setcond straight_def)
  show ?thesis
  proof (cases r)
    case None
    then show ?thesis using f r default_sound [OF V W k, of M nn m] by (simp add: Op_setcond fold_op_defs)
  next
    case (Some v)
    then show ?thesis
      using f r keeps_sound [OF fold_setcond_keeps [OF V W [unfolded Op_setcond] r [unfolded Some]] st [unfolded Op_setcond]]
      by (simp add: Op_setcond fold_op_defs)
  qed
next
  case (Op_movcond w d c1 c2 v1 v2 c)
  show ?thesis by (rule fold_movcond_sound [OF V W k Op_movcond f])
next
  case (Op_brcond w a b c l)
  show ?thesis by (rule fold_brcond_sound [OF V W k Op_brcond f])
next
  case (Op_add2 w rl rh al ah bl bh)
  show ?thesis using fold_add2_sound [OF V W k, of False w rl rh al ah bl bh nn res M m] f Op_add2 by (simp add: fold_op_defs)
next
  case (Op_sub2 w rl rh al ah bl bh)
  show ?thesis using fold_add2_sound [OF V W k, of True w rl rh al ah bl bh nn res M m] f Op_sub2 by (simp add: fold_op_defs)
next
  case (Op_mulu2 w rl rh a b)
  show ?thesis
  proof (cases "w = W32 \<and> is_const T a \<and> is_const T b")
    case True
    have i: "out_ok C W32 rl" "out_ok C W32 rh" "in_ok C W32 a" "in_ok C W32 b" using W True by (auto simp: Op_mulu2 wt_op_def)
    show ?thesis
    proof (rule fold_pair_sound [OF V i(1,2)])
      show "straight opn" by (simp add: Op_mulu2 straight_def)
      show "fold_pair T nn rl rh (lo32 (t_val (T a)) * lo32 (t_val (T b))) = Inr res" using f True by (simp add: Op_mulu2 fold_op_defs)
      show "s' = (put C rh (hi32 (lo32 (t_val (T a)) * lo32 (t_val (T b)))) (put C rl (lo32 (lo32 (t_val (T a)) * lo32 (t_val (T b)))) \<sigma>), m)"
        if "exec_op M C opn (\<sigma>, m) = Some s'" for s'
        using that True const_lo32 [OF V i(3)] const_lo32 [OF V i(4)]
        by (auto simp: Op_mulu2 mul2_w_def Let_def split: option.splits)
    qed
  next
    case False
    then show ?thesis using f default_sound [OF V W k, of M nn m] by (auto simp: Op_mulu2 fold_op_defs)
  qed
next
  case (Op_brcond2 al ah bl bh c l)
  show ?thesis by (rule fold_brcond2_sound [OF V W k Op_brcond2 f])
next
  case (Op_setcond2 d al ah bl bh c)
  show ?thesis by (rule fold_setcond2_sound [OF V W k Op_setcond2 f])
qed (use f default_sound [OF V W k, of M nn m] in \<open>auto simp: fold_op_defs\<close>)

lemma sound_result_cong: "step_op M C opn s = step_op M C op' s \<Longrightarrow> sound_result M C opn nn res s = sound_result M C op' nn res s"
  by (auto simp: sound_result_def keep_step_def keep_pair_def)

lemma simp_straight:
  "simp_shift_neg_not C T opn = Some r \<Longrightarrow> straight opn" "simp_mov3 C T opn = Inr (Some r) \<Longrightarrow> straight opn"
  "simp_zero T opn = Some r \<Longrightarrow> straight opn" "simp_same C T opn = Inr (Some r) \<Longrightarrow> straight opn"
  by (cases opn; simp add: simp_shift_neg_not_def simp_mov3_def simp_zero_def simp_same_def straight_def)+

lemma simp_mask_straight:
  "known_zero T opn = Inr (k, aff) \<Longrightarrow> simp_mask C T opn (result_mask opn k) aff = Inr (Some r) \<Longrightarrow> straight opn"
  by (cases opn) (auto simp: simp_mask_def straight_def op_outs_def c_assert_def split: if_splits)

lemma optimize_op_sound:
  assumes V: "valid C T \<sigma>" and W: "wt_op C opn" and g: "nb_globals C \<le> nb_temps C"
    and f: "optimize_op C T opn nn = Inr res"
  shows "sound_result M C opn nn res (\<sigma>, m)"
proof -
  obtain op1 where op1: "copy_propagate C T opn = Inr op1" using f by (auto simp: optimize_op_def sbind_eq_Inr_iff)
  define op2 where "op2 = commute T op1"
  note p = copy_propagate_sound [OF V W op1, of M m]
  have st: "step_op M C opn (\<sigma>, m) = step_op M C op2 (\<sigma>, m)" and W2: "wt_op C op2"
    using p commute_sound [of M C T op1 \<sigma> m] commute_wt [of C op1 T] by (auto simp: op2_def simp del: step_op.simps)
  note stages = keeps_sound [OF simp_shift_neg_not_keeps [OF V W2] simp_straight(1)]
    keeps_sound [OF simp_mov3_keeps [OF V W2] simp_straight(2)]
    keeps_sound [OF simp_zero_keeps [OF V W2] simp_straight(3)]
    keeps_sound [OF simp_same_keeps [OF V W2] simp_straight(4)]
    keeps_sound [OF simp_mask_keeps [OF V W2] simp_mask_straight]
    fold_op_sound [OF V W2 _ g]
  have "sound_result M C op2 nn res (\<sigma>, m)"
    using f op1 unfolding op2_def [symmetric] optimize_op_def
    by (auto simp: op2_def [symmetric] sbind_eq_Inr_iff Let_def intro: stages split: option.splits prod.splits)
  then show ?thesis using sound_result_cong [OF st] by blast
qed

end
