(* ===== verification/Tcg_Block.thy ===== *)
theory Tcg_Block
  imports Tcg_Sound
begin

text \<open>
  Whole translation blocks: labels survive the optimiser, the optimised block runs like the
  original one, and the pass over a block ends.
\<close>

section \<open>Labels\<close>

fun is_label :: "tcg_op \<Rightarrow> bool" where
  "is_label (Op_set_label _) = True"
| "is_label _ = False"

lemma optimize_label:
  "optimize_op C T (Op_set_label l) nn = Inr (reset_all_temps (nb_temps C) T, [Op_set_label l], False)"
  by (simp add: optimize_op_def copy_propagate_def op_ins_def set_ins_def commute_def simp_shift_neg_not_def simp_mov3_def
      known_zero_def result_mask_def flag_call_clobber_def flag_64bit_def simp_mask_def simp_zero_def simp_same_def
      fold_op_defs do_default_def flag_bb_end_def)

lemma no_label_movi [simp]: "\<not> is_label (op_to_movi opn d v)" "\<not> is_label (op_to_mov opn d a)" "\<not> is_label Op_nop"
  by (simp_all add: op_to_movi_def op_to_mov_def)

text \<open>
  No stage makes a label, and only the expansion of a double word operation uses up the next
  operation, a \<open>nop\<close>.
\<close>

definition good :: "bool \<Rightarrow> c_error + fold_result \<Rightarrow> bool" where
  "good nn r = (case r of Inl _ \<Rightarrow> True
     | Inr (T', ops, skip) \<Rightarrow> (\<forall>i \<in> set ops. \<not> is_label i) \<and> (skip \<longrightarrow> nn))"

lemma good_Inr [simp]: "good nn (Inr (T', ops, skip)) \<longleftrightarrow> (\<forall>i \<in> set ops. \<not> is_label i) \<and> (skip \<longrightarrow> nn)"
  and good_Inl [simp]: "good nn (Inl e)"
  by (simp_all add: good_def)

lemma good_sbind: "(\<And>x. m = Inr x \<Longrightarrow> good nn (f x)) \<Longrightarrow> good nn (sbind m f)"
  by (cases m) simp_all

lemma good_default: "\<not> is_label opn \<Longrightarrow> good nn (Inr (do_default C T opn k))"
  by (cases "op_outs opn") (simp_all add: do_default_def)

lemma good_pair: "good nn (fold_pair T nn rl rh r)"
  by (simp add: fold_pair_def c_assert_def)

lemma good_movcond: "good nn (fold_movcond C T opn d a)" "\<not> is_label opn \<Longrightarrow> good nn (fold_mov C T opn d a)"
  unfolding fold_movcond_def fold_mov_def by (auto intro!: good_sbind simp: no_label_movi)

lemma good_add2: "\<not> is_label opn \<Longrightarrow> good nn (fold_add2 C T nn opn k sb w rl rh al ah bl bh)"
  unfolding fold_add2_def by (simp add: good_pair good_default Let_def)

lemma good_fold:
  assumes "\<not> is_label opn"
  shows "good nn (fold_op C T nn opn k)"
  using assms good_default [OF assms, of nn C T k] good_add2 [OF assms]
  by (cases opn) (auto simp: fold_op_defs good_movcond good_pair Let_def intro!: good_sbind
       split: option.split bool.split)

definition simp_good :: "simp_result \<Rightarrow> bool" where
  "simp_good r = (case r of None \<Rightarrow> True | Some (T', op') \<Rightarrow> \<not> is_label op')"

lemma good_step:
  "simp_good r \<Longrightarrow> good nn k \<Longrightarrow> good nn (case r of Some (T', op') \<Rightarrow> Inr (T', [op'], False) | None \<Rightarrow> k)"
  by (simp add: simp_good_def split: option.splits prod.splits)

lemma good_mov_or_nop: "gen_mov_or_nop C T opn d a = Inr r \<Longrightarrow> \<not> is_label (snd r)"
  by (auto simp: gen_mov_or_nop_def sbind_eq_Inr_iff split: if_splits)

lemma simp_good_stages:
  "simp_good (simp_shift_neg_not C T opn)" "simp_good (simp_zero T opn)"
  "simp_mov3 C T opn = Inr r \<Longrightarrow> simp_good r" "simp_same C T opn = Inr r \<Longrightarrow> simp_good r"
  "simp_mask C T opn k aff = Inr r \<Longrightarrow> simp_good r"
proof -
  note g = good_mov_or_nop
  show "simp_good (simp_shift_neg_not C T opn)"
    by (cases opn) (simp_all add: simp_good_def simp_shift_neg_not_def gen_movi_def Let_def)
  show "simp_good (simp_zero T opn)"
    by (cases opn) (simp_all add: simp_good_def simp_zero_def gen_movi_def)
  show "simp_mov3 C T opn = Inr r \<Longrightarrow> simp_good r"
    by (cases opn) (auto simp: simp_good_def simp_mov3_def map_sum_r_def sbind_eq_Inr_iff dest!: g split: if_splits)
  show "simp_same C T opn = Inr r \<Longrightarrow> simp_good r"
    by (cases opn) (auto simp: simp_good_def simp_same_def map_sum_r_def sbind_eq_Inr_iff gen_movi_def dest!: g split: if_splits)
  show "simp_mask C T opn k aff = Inr r \<Longrightarrow> simp_good r"
    by (auto simp: simp_good_def simp_mask_def sbind_eq_Inr_iff gen_movi_def Let_def split: if_splits)
qed

lemma no_label_ins: "is_label (set_ins opn as) = is_label opn" "is_label (commute T opn) = is_label opn"
  by (cases opn; simp add: set_ins_def commute_def Let_def split: prod.split)+

lemma good_optimize:
  assumes "\<not> is_label opn"
  shows "good nn (optimize_op C T opn nn)"
proof -
  have "\<not> is_label (commute T op1)" if "copy_propagate C T opn = Inr op1" for op1
    using that assms by (auto simp: copy_propagate_def sbind_eq_Inr_iff no_label_ins)
  then show ?thesis unfolding optimize_op_def Let_def
    by (auto intro!: good_sbind good_step good_fold simp: simp_good_stages(1,2) dest: simp_good_stages(3-5))
qed

lemma find_label_skip: "\<forall>i \<in> set ops. \<not> is_label i \<Longrightarrow> find_label (ops @ out) l = find_label out l"
  by (induction ops) auto

lemma find_label_optimized:
  assumes "optimize_loop C T P = Inr P'" "find_label P l = Some js"
  shows "\<exists>T' js'. find_label P' l = Some js' \<and> optimize_loop C (reset_all_temps (nb_temps C) T') js = Inr js'"
  using assms
proof (induction C T P arbitrary: P' rule: optimize_loop.induct)
  case (2 C T opn rest)
  let ?nn = "rest \<noteq> [] \<and> hd rest = Op_nop"
  obtain T' ops skip out where o: "optimize_op C T opn ?nn = Inr (T', ops, skip)"
    "optimize_loop C T' (if skip then tl rest else rest) = Inr out" "P' = ops @ out"
    using "2.prems"(1) by (auto simp: sbind_eq_Inr_iff)
  show ?case
  proof (cases "is_label opn")
    case True
    then obtain k where k: "opn = Op_set_label k" by (cases opn) auto
    then show ?thesis using o "2.prems"(2) "2.IH" [OF o(1) refl refl] by (auto simp: optimize_label split: if_splits)
  next
    case False
    then have f: "find_label rest l = Some js" using "2.prems"(2) by (auto split: if_splits)
    have g: "\<forall>i \<in> set ops. \<not> is_label i" "skip \<longrightarrow> ?nn" using good_optimize [OF False, of ?nn C T] o(1) by auto
    have r: "find_label (if skip then tl rest else rest) l = Some js"
      using f g(2) by (cases rest) auto
    show ?thesis using "2.IH" [OF o(1) refl refl o(2) r] find_label_skip [OF g(1)] o(3) by simp
  qed
qed simp

section \<open>The optimised block runs like the original\<close>

lemma jump_same: "step_op M C i (\<sigma>, m) = Some (Jump l s') \<Longrightarrow> s' = (\<sigma>, m)"
  by (cases i) (auto simp: branch_def split: option.splits if_splits)

lemma find_label_set: "find_label P l = Some js \<Longrightarrow> set js \<subseteq> set P"
  by (induction P) (auto split: if_splits)

lemma optimize_loop_sim:
  assumes P: "optimize_loop C T0 P = Inr P'" and W: "\<forall>i \<in> set P. wt_op C i" and g: "nb_globals C \<le> nb_temps C"
  shows "optimize_loop C T rest = Inr rest' \<Longrightarrow> valid C T \<sigma> \<Longrightarrow> set rest \<subseteq> set P \<Longrightarrow>
    exec_tb M C P n rest (\<sigma>, m) = Some r \<Longrightarrow> exec_tb M C P' n rest' (\<sigma>, m) = Some r"
proof (induction n arbitrary: T rest rest' \<sigma> m rule: less_induct)
  case (less n)
  obtain k where n: "n = Suc k" using less.prems(4) by (cases n) auto
  obtain opn more where rest: "rest = opn # more" using less.prems(4) n by (cases rest) auto
  let ?nn = "more \<noteq> [] \<and> hd more = Op_nop"
  obtain T' ops skip out where o: "optimize_op C T opn ?nn = Inr (T', ops, skip)"
    "optimize_loop C T' (if skip then tl more else more) = Inr out" "rest' = ops @ out"
    using less.prems(1) by (auto simp: rest sbind_eq_Inr_iff)
  have S: "sound_result M C opn ?nn (T', ops, skip) (\<sigma>, m)"
    using less.prems(3) W by (intro optimize_op_sound [OF less.prems(2) _ g o(1)]) (auto simp: rest)
  have "\<exists>oc. step_op M C opn (\<sigma>, m) = Some oc"
    using less.prems(4) unfolding n rest exec_tb_step by (auto split: option.splits)
  then obtain oc where oc: "step_op M C opn (\<sigma>, m) = Some oc" ..
  have e: "(case oc of Next s' \<Rightarrow> exec_tb M C P k more s' | Jump l s' \<Rightarrow> jump P l (\<lambda>js. exec_tb M C P k js s')
     | Leave x \<Rightarrow> Some x) = Some r"
    using less.prems(4) unfolding n rest exec_tb_step oc by simp
  from S consider op' where "ops = [op']" "\<not> skip" "keep_step M C opn op' T' (\<sigma>, m)"
    | o1 o2 where "ops = [o1, o2]" "skip" "?nn" "keep_pair M C opn o1 o2 T' (\<sigma>, m)"
    by (auto simp: sound_result_def)
  then show ?case
  proof cases
    case 1
    then have st: "step_op M C op' (\<sigma>, m) = Some oc" "\<And>s'. oc = Next s' \<Longrightarrow> valid C T' (fst s')"
      using oc unfolding keep_step_def by blast+
    show ?thesis
    proof (cases oc)
      case (Next s')
      have "exec_tb M C P' k out (fst s', snd s') = Some r"
        by (rule less.IH [of k T' more]) (use Next st(2) e o(2) 1(2) less.prems(3) n rest in auto)
      then show ?thesis using 1(1) o(3) st(1) Next by (simp add: n exec_tb_step del: exec_tb.simps step_op.simps)
    next
      case (Jump l s')
      then obtain js where js: "find_label P l = Some js" "exec_tb M C P k js (\<sigma>, m) = Some r" "s' = (\<sigma>, m)"
        using e jump_same [of M C opn \<sigma> m l s'] oc by (auto simp: jump_def split: option.splits)
      obtain T2 js' where j: "find_label P' l = Some js'" "optimize_loop C (reset_all_temps (nb_temps C) T2) js = Inr js'"
        using find_label_optimized [OF P js(1)] by blast
      have "exec_tb M C P' k js' (\<sigma>, m) = Some r"
        by (rule less.IH [OF _ j(2) valid_reset_all [OF valid_typed [OF less.prems(2)]] _ js(2)])
           (use n find_label_set [OF js(1)] in auto)
      then show ?thesis using 1(1) o(3) st(1) Jump js(3) j(1)
        by (simp add: n exec_tb_step jump_def del: exec_tb.simps step_op.simps)
    next
      case (Leave x)
      then show ?thesis using 1(1) o(3) st(1) e by (simp add: n exec_tb_step del: exec_tb.simps step_op.simps)
    qed
  next
    case 2
    then obtain s1 s2 where s: "oc = Next s2" "step_op M C o1 (\<sigma>, m) = Some (Next s1)"
      "step_op M C o2 s1 = Some (Next s2)" "valid C T' (fst s2)"
      using oc unfolding keep_pair_def by blast
    obtain more' where more: "more = Op_nop # more'" using 2(3) by (cases more) auto
    have nop: "step_op M C Op_nop s2 = Some (Next s2)" by (cases s2) simp
    obtain k' where k: "k = Suc k'" using e s(1) more by (cases k) auto
    have e': "exec_tb M C P k' more' (fst s2, snd s2) = Some r"
      using e s(1) by (simp add: more k exec_tb_step nop del: exec_tb.simps step_op.simps)
    have "exec_tb M C P' k' out (fst s2, snd s2) = Some r"
      by (rule less.IH [OF _ _ s(4) _ e']) (use n k o(2) 2(2) more less.prems(3) rest in auto)
    then show ?thesis using 2(1) o(3) s(2,3) by (simp add: n k exec_tb_step del: exec_tb.simps step_op.simps)
  qed
qed

section \<open>The pass ends\<close>

text \<open>
  Every walk around a ring of copies comes back to its start, on any program: the pass ends in a
  new program or in one of the failures of the source (an assertion, an abort, an undefined shift
  or division), never in an endless walk.
\<close>

lemma valid_none: "info_ok C T \<Longrightarrow> valid C T (\<lambda>_. None)"
  by (simp add: valid_def val_ok_def)

lemma valid_zero: "info_ok C T \<Longrightarrow> valid C T (\<lambda>t. if is_const T t then None else Some 0)"
proof -
  assume I: "info_ok C T"
  have "ring (copy_set C T) (\<lambda>t. next_copy (T t)) (\<lambda>t. prev_copy (T t)) (temp_type C)" using I by (simp add: info_ok_def)
  then have "next_copy (T t) \<in> copy_set C T" if "t \<in> copy_set C T" for t using that by (auto simp: ring_def)
  then have "\<not> is_const T t \<and> \<not> is_const T (next_copy (T t))" if "t \<in> copy_set C T" for t
    using that by (fastforce simp: copy_set_def is_const_def)
  then show ?thesis using I
    by (auto simp: valid_def val_ok_def fits_def trunc_w_def is_const_def split: width.splits)
qed

lemma info_gen_movi: "info_ok C T \<Longrightarrow> d < nb_temps C \<Longrightarrow> info_ok C (tcg_opt_gen_movi T d v)"
  using valid_gen_movi [OF valid_none, of C T d v v] by (simp add: valid_def)

lemma reset_temp_const:
  assumes I: "info_ok C T" and d: "d < nb_temps C" and s: "s \<noteq> d" "is_const T s"
  shows "is_const (reset_temp d T) s"
proof -
  have "ring (copy_set C T) (\<lambda>t. next_copy (T t)) (\<lambda>t. prev_copy (T t)) (temp_type C)" using I by (simp add: info_ok_def)
  then have "d \<in> copy_set C T \<Longrightarrow> next_copy (T d) \<in> copy_set C T" by (auto simp: ring_def)
  then have "t_state (T d) = TEMP_COPY \<Longrightarrow> s \<noteq> next_copy (T d)" using d s(2) by (auto simp: copy_set_def is_const_def)
  then show ?thesis using s by (auto simp: reset_temp_def unlink_temp_def set_defs is_const_def Let_def)
qed

lemma info_gen_mov:
  assumes "info_ok C T" "d < nb_temps C" "s < nb_temps C" "d \<noteq> s" "tcg_opt_gen_mov C T d s = Inr T'"
  shows "info_ok C T'"
proof -
  have "\<not> is_const (reset_temp d T) s"
    using assms(5) by (auto simp: tcg_opt_gen_mov_def Let_def sbind_eq_Inr_iff c_assert_def is_const_def set_mask_def split: if_splits)
  then have "\<not> is_const T s" using reset_temp_const [OF assms(1,2), of s] assms(4) by blast
  then show ?thesis using valid_gen_mov [OF valid_zero [OF assms(1)] assms(2-4) _ assms(5), of 0] by (simp add: valid_def)
qed

lemma info_set_mask: "info_ok C T \<Longrightarrow> t_state (T d) \<noteq> TEMP_CONST \<Longrightarrow> info_ok C (set_mask k d T)"
  using valid_set_mask [OF valid_none, of C T d k] by (simp add: valid_def)

lemma info_reset_temp: "info_ok C T \<Longrightarrow> d < nb_temps C \<Longrightarrow> info_ok C (reset_temp d T)"
  using valid_reset_temp [OF valid_none, of C T d None] by (simp add: valid_def)

lemma info_reset_all: "info_ok C (reset_all_temps (nb_temps C) T)"
  using valid_reset_all [of C "\<lambda>_. None" T] by (simp add: valid_def typed_def)

lemma info_reset_outs: "info_ok C T \<Longrightarrow> \<forall>d \<in> set ds. d < nb_temps C \<Longrightarrow> info_ok C (reset_outs ds T)"
  by (induction ds arbitrary: T) (auto intro: info_reset_temp)

lemma info_reset_globals: "info_ok C T \<Longrightarrow> n \<le> nb_temps C \<Longrightarrow> info_ok C (reset_globals n T)"
  by (induction n) (auto intro: info_reset_temp)

lemma info_default: "info_ok C T \<Longrightarrow> wt_op C opn \<Longrightarrow> info_ok C (fst (do_default C T opn k))"
  using out_below [of C opn]
  by (cases "op_outs opn") (auto simp: do_default_def intro!: info_reset_all info_reset_outs info_set_mask info_reset_temp)

definition ends :: "tcg_context \<Rightarrow> c_error + temps \<times> 'a \<Rightarrow> bool" where
  "ends C r = (case r of Inl e \<Rightarrow> e \<noteq> No_return | Inr (T', _) \<Rightarrow> info_ok C T')"

lemma ends_simps [simp]: "ends C (Inr x) = info_ok C (fst x)" "ends C (Inl e) = (e \<noteq> No_return)"
  by (cases x) (simp_all add: ends_def)

lemma ends_sbind: "m \<noteq> Inl No_return \<Longrightarrow> (\<And>x. m = Inr x \<Longrightarrow> ends C (f x)) \<Longrightarrow> ends C (sbind m f)"
  by (cases m) auto

lemma copies_end: "info_ok C T \<Longrightarrow> a < nb_temps C \<Longrightarrow> temps_are_copies C T a b \<noteq> Inl No_return"
  using temps_are_copies_returns [of C T a b] by auto

lemma gen_mov_ends:
  assumes "info_ok C T" "d < nb_temps C" "a < nb_temps C" "d \<noteq> a"
  shows "tcg_opt_gen_mov C T d a \<noteq> Inl No_return"
  by (simp add: tcg_opt_gen_mov_def Let_def c_assert_def)

lemma no_copy_distinct: "temps_are_copies C T a b = Inr False \<Longrightarrow> a \<noteq> b"
  by (auto simp: temps_are_copies_def)

lemma ends_gen_mov_or_nop:
  assumes "info_ok C T" "d < nb_temps C" "a < nb_temps C"
  shows "gen_mov_or_nop C T opn d a \<noteq> Inl No_return" "gen_mov_or_nop C T opn d a = Inr r \<Longrightarrow> info_ok C (fst r)"
  using assms copies_end [OF assms(1,2)] no_copy_distinct gen_mov_ends [OF assms] info_gen_mov [OF assms]
  by (auto simp: gen_mov_or_nop_def sbind_eq_Inl_iff sbind_eq_Inr_iff split: if_splits)

lemma ends_movcond:
  assumes "info_ok C T" "d < nb_temps C" "a < nb_temps C"
  shows "ends C (fold_movcond C T opn d a)" "ends C (fold_mov C T opn d a)"
  unfolding fold_movcond_def fold_mov_def
  using assms copies_end [OF assms(1,2)] no_copy_distinct gen_mov_ends [OF assms] info_gen_mov [OF assms] info_gen_movi [OF assms(1,2)]
  by (auto intro!: ends_sbind)

lemma ends_pair:
  assumes "info_ok C T" "rl < nb_temps C" "rh < nb_temps C"
  shows "ends C (fold_pair T nn rl rh r)"
  using assms by (auto simp: fold_pair_def c_assert_def intro!: ends_sbind info_gen_movi)

lemma fold_cond_ends:
  assumes "info_ok C T" "a < nb_temps C"
  shows "do_constant_folding_cond C T w a b c \<noteq> Inl No_return"
proof -
  have c: "do_constant_folding_cond_32 x y c \<noteq> Inl No_return" "do_constant_folding_cond_64 u v c \<noteq> Inl No_return"
    "do_constant_folding_cond_eq c \<noteq> Inl No_return" for x y u v
    by (cases c; simp add: do_constant_folding_cond_32_def do_constant_folding_cond_64_def do_constant_folding_cond_eq_def)+
  then show ?thesis using copies_end [OF assms, of b]
    by (auto simp: do_constant_folding_cond_def map_sum_r_def sbind_eq_Inl_iff split: width.splits tcg_cond.splits if_splits)
qed

lemma fold_cond2_ends:
  assumes "info_ok C T" "al < nb_temps C" "ah < nb_temps C"
  shows "do_constant_folding_cond2 C T al ah bl bh c \<noteq> Inl No_return"
proof -
  have c: "do_constant_folding_cond_64 u v c \<noteq> Inl No_return" "do_constant_folding_cond_eq c \<noteq> Inl No_return" for u v
    by (cases c; simp add: do_constant_folding_cond_64_def do_constant_folding_cond_eq_def)+
  then show ?thesis using copies_end [OF assms(1,2), of bl] copies_end [OF assms(1,3), of bh]
    by (auto simp: do_constant_folding_cond2_def map_sum_r_def sbind_eq_Inl_iff Let_def split: if_splits)
qed

lemma folding_ends: "do_constant_folding opn x y \<noteq> Inl No_return"
proof -
  have s: "c_shl u n \<noteq> Inl No_return" "c_shr u n \<noteq> Inl No_return" "c_sar u n \<noteq> Inl No_return" for u :: "'a::len word" and n
    by (simp_all add: c_shl_def c_shr_def c_sar_def)
  have b: "fold_bin_2 opc w x y \<noteq> Inl No_return" for opc w
    by (cases opc; cases w) (auto simp: fold_bin_2_def map_sum_r_def sbind_eq_Inl_iff rol32_def ror32_def rol64_def ror64_def
        c_shl_def c_shr_def c_sar_def c_sdiv_def c_smod_def split: if_splits)
  have u: "fold_un_2 opc w x \<noteq> Inl No_return" for opc w
    by (cases opc) (auto simp: fold_un_2_def)
  show ?thesis using b u by (cases opn) (auto simp: do_constant_folding_def map_sum_r_def sbind_eq_Inl_iff)
qed

lemma known_zero_ends: "known_zero T opn \<noteq> Inl No_return"
  by (cases opn) (auto simp: known_zero_def map_sum_r_def sbind_eq_Inl_iff c_shl_def c_shr_def c_sar_def Let_def
      split: tcg_unop.splits tcg_binop.splits width.splits ld_kind.splits qld_kind.splits if_splits)

lemma wt_in_below: "in_ok C w a \<Longrightarrow> a < nb_temps C" "out_ok C w d \<Longrightarrow> d < nb_temps C"
  by (simp_all add: in_ok_def out_ok_def)

lemma ends_fold:
  assumes I: "info_ok C T" and W: "wt_op C opn" and g: "nb_globals C \<le> nb_temps C"
  shows "ends C (fold_op C T nn opn k)"
proof -
  note D = info_default [OF I W, of k] and M = info_gen_movi [OF I]
  note F = folding_ends and B = wt_in_below
  show ?thesis
  proof (cases opn)
    case (Op_call outs ins flags)
    then show ?thesis using W I g
      by (auto simp: fold_op_defs Let_def wt_op_def intro!: info_reset_outs info_reset_globals)
  next
    case (Op_mov w d a)
    then show ?thesis using W ends_movcond(2) [OF I, of d a] B by (auto simp: fold_op_defs wt_op_def)
  next
    case (Op_movcond w d c1 c2 v1 v2 c)
    have b: "d < nb_temps C" "c1 < nb_temps C" "v1 < nb_temps C" "v2 < nb_temps C"
      using W B by (auto simp: wt_op_def Op_movcond)
    show ?thesis unfolding Op_movcond fold_op_defs
      using D ends_movcond(1) [OF I b(1)] b fold_cond_ends [OF I b(2), of w c2 c]
      by (auto intro!: ends_sbind simp: Op_movcond split: option.split)
  next
    case (Op_add2 w rl rh al ah bl bh)
    then show ?thesis using W D ends_pair [OF I, of rl rh] B by (auto simp: fold_op_defs fold_add2_def Let_def wt_op_def)
  next
    case (Op_sub2 w rl rh al ah bl bh)
    then show ?thesis using W D ends_pair [OF I, of rl rh] B by (auto simp: fold_op_defs fold_add2_def Let_def wt_op_def)
  next
    case (Op_mulu2 w rl rh a b)
    then show ?thesis using W D ends_pair [OF I, of rl rh] B by (auto simp: fold_op_defs wt_op_def)
  next
    case (Op_setcond w d a b c)
    then show ?thesis using W D M B fold_cond_ends [OF I, of a w b c]
      by (auto simp: fold_op_defs wt_op_def intro!: ends_sbind split: option.split)
  next
    case (Op_brcond w a b c l)
    then show ?thesis using W D I info_reset_all B fold_cond_ends [OF I, of a w b c]
      by (auto simp: fold_op_defs wt_op_def intro!: ends_sbind split: option.split bool.split)
  next
    case (Op_setcond2 d al ah bl bh c)
    then show ?thesis using W D M I B fold_cond2_ends [OF I, of al ah bl bh c]
      by (auto simp: fold_op_defs wt_op_def intro!: ends_sbind info_reset_temp split: option.split)
  next
    case (Op_brcond2 al ah bl bh c l)
    then show ?thesis using W D I info_reset_all B fold_cond2_ends [OF I, of al ah bl bh c]
      by (auto simp: fold_op_defs wt_op_def intro!: ends_sbind split: option.split bool.split)
  next
    case (Op_deposit w d a b pos len)
    then show ?thesis using W D M B
      by (auto simp: fold_op_defs wt_op_def Let_def c_shl_def intro!: ends_sbind)
  next
    case (Op_un opc w d a)
    then show ?thesis using W D M B F by (auto simp: fold_op_defs wt_op_def intro!: ends_sbind)
  next
    case (Op_bin opc w d a b)
    then show ?thesis using W D M B F by (auto simp: fold_op_defs wt_op_def intro!: ends_sbind)
  next
    case (Op_movi w d v)
    then show ?thesis using W M B by (auto simp: fold_op_defs wt_op_def)
  qed (use D in \<open>auto simp: fold_op_defs\<close>)
qed

definition simp_ends :: "tcg_context \<Rightarrow> simp_result \<Rightarrow> bool" where
  "simp_ends C r = (case r of None \<Rightarrow> True | Some (T', _) \<Rightarrow> info_ok C T')"

lemma ends_step:
  "simp_ends C r \<Longrightarrow> ends C k \<Longrightarrow> ends C (case r of Some (T', op') \<Rightarrow> Inr (T', [op'], False) | None \<Rightarrow> k)"
  by (simp add: simp_ends_def split: option.splits prod.splits)

lemma simp_stages_end:
  assumes I: "info_ok C T" and W: "wt_op C opn"
  shows "simp_ends C (simp_shift_neg_not C T opn)" "simp_ends C (simp_zero T opn)"
    "simp_mov3 C T opn \<noteq> Inl No_return" "simp_mov3 C T opn = Inr r \<Longrightarrow> simp_ends C r"
    "simp_same C T opn \<noteq> Inl No_return" "simp_same C T opn = Inr r \<Longrightarrow> simp_ends C r"
proof -
  note defs = simp_shift_neg_not_def simp_zero_def simp_mov3_def simp_same_def
  have "simp_ends C (simp_shift_neg_not C T opn) \<and> simp_ends C (simp_zero T opn) \<and>
    simp_mov3 C T opn \<noteq> Inl No_return \<and> (simp_mov3 C T opn = Inr r \<longrightarrow> simp_ends C r) \<and>
    simp_same C T opn \<noteq> Inl No_return \<and> (simp_same C T opn = Inr r \<longrightarrow> simp_ends C r)"
  proof (cases "\<exists>opc w d a b. opn = Op_bin opc w d a b")
    case True
    then obtain opc w d a b where o: "opn = Op_bin opc w d a b" by blast
    have b: "d < nb_temps C" "a < nb_temps C" using W by (auto simp: o wt_op_def in_ok_def out_ok_def)
    have M: "info_ok C (tcg_opt_gen_movi T d v)" for v using info_gen_movi [OF I b(1)] .
    have R: "info_ok C (reset_temp d T)" using info_reset_temp [OF I b(1)] .
    have G: "gen_mov_or_nop C T opn d a \<noteq> Inl No_return" "\<And>r. gen_mov_or_nop C T opn d a = Inr r \<Longrightarrow> info_ok C (fst r)"
      using ends_gen_mov_or_nop [OF I b] by blast+
    have G': "map_sum_r Some (gen_mov_or_nop C T opn d a) \<noteq> Inl No_return"
      "map_sum_r Some (gen_mov_or_nop C T opn d a) = Inr r \<Longrightarrow> simp_ends C r"
      using G by (auto simp: map_sum_r_def sbind_eq_Inl_iff sbind_eq_Inr_iff simp_ends_def)
    note K = copies_end [OF I b(2), of b]
    have 1: "simp_ends C (simp_shift_neg_not C T opn)" "simp_ends C (simp_zero T opn)"
      using M R by (simp_all add: o simp_ends_def defs gen_movi_def Let_def)
    have 2: "simp_mov3 C T opn \<noteq> Inl No_return \<and> (simp_mov3 C T opn = Inr r \<longrightarrow> simp_ends C r)"
      using G' unfolding o defs by (simp add: simp_ends_def)
    have 3: "simp_same C T opn \<noteq> Inl No_return" using G' K unfolding o defs by (auto simp: sbind_eq_Inl_iff split: if_splits)
    have 4: "simp_same C T opn = Inr r \<longrightarrow> simp_ends C r"
      using G' M unfolding o defs by (auto simp: sbind_eq_Inr_iff gen_movi_def simp_ends_def split: if_splits)
    from 1 2 3 4 show ?thesis by blast
  next
    case False
    then show ?thesis by (cases opn) (simp_all add: defs simp_ends_def)
  qed
  then show "simp_ends C (simp_shift_neg_not C T opn)" "simp_ends C (simp_zero T opn)"
    "simp_mov3 C T opn \<noteq> Inl No_return" "simp_mov3 C T opn = Inr r \<Longrightarrow> simp_ends C r"
    "simp_same C T opn \<noteq> Inl No_return" "simp_same C T opn = Inr r \<Longrightarrow> simp_ends C r" by blast+
qed

lemma simp_mask_ends:
  assumes I: "info_ok C T" and W: "wt_op C opn" and k: "known_zero T opn = Inr (k, aff)"
  shows "simp_mask C T opn (result_mask opn k) aff \<noteq> Inl No_return"
    "simp_mask C T opn (result_mask opn k) aff = Inr r \<Longrightarrow> simp_ends C r"
proof -
  have b: "first_out opn < nb_temps C" if "length (op_outs opn) = 1"
    using that out_below [OF W] by (cases "op_outs opn") (auto simp: first_out_def)
  have a: "first_in opn < nb_temps C" if "aff = 0"
    using that k wt_ins [OF W, of "first_in opn"]
    by (cases opn) (auto simp: known_zero_def first_in_def op_ins_def sbind_eq_Inr_iff Let_def
      split: ld_kind.splits qld_kind.splits)
  note K = copies_end [OF I b] and M = info_gen_movi [OF I b]
  show "simp_mask C T opn (result_mask opn k) aff \<noteq> Inl No_return"
    using K by (auto simp: simp_mask_def sbind_eq_Inl_iff c_assert_def Let_def tcg_opt_gen_mov_def split: if_splits)
  show "simp_mask C T opn (result_mask opn k) aff = Inr r \<Longrightarrow> simp_ends C r"
    using M b a no_copy_distinct info_gen_mov [OF I]
    by (auto simp: simp_mask_def sbind_eq_Inr_iff c_assert_def Let_def gen_movi_def simp_ends_def I split: if_splits)
qed

lemma prop_args_end: "info_ok C T \<Longrightarrow> \<forall>a \<in> set as. a < nb_temps C \<Longrightarrow> \<exists>bs. prop_args C T as = Inr bs"
  using prop_arg_returns [of C T] by (induction as) (auto, fastforce)

lemma ends_optimize:
  assumes I: "info_ok C T" and W: "wt_op C opn" and g: "nb_globals C \<le> nb_temps C"
  shows "ends C (optimize_op C T opn nn)"
proof -
  obtain bs where bs: "prop_args C T (op_ins opn) = Inr bs" using prop_args_end [OF I] wt_ins [OF W] by blast
  define op1 where "op1 = set_ins opn bs"
  define op2 where "op2 = commute T op1"
  have c: "copy_propagate C T opn = Inr op1" by (simp add: copy_propagate_def bs op1_def)
  have W2: "wt_op C op2" unfolding op2_def op1_def
    using prop_args_sound [OF valid_none [OF I] _ bs] wt_ins [OF W] by (intro commute_wt set_ins_wt [OF W]) blast
  note S = simp_stages_end [OF I W2] and m = simp_mask_ends [OF I W2]
  show ?thesis unfolding optimize_op_def c sbind_simps Let_def op2_def [symmetric]
    by (auto intro!: ends_step ends_sbind S(1-3,5) known_zero_ends ends_fold [OF I W2 g] m(1) dest: m(2) S(4,6))
qed

lemma optimize_loop_ends:
  assumes g: "nb_globals C \<le> nb_temps C"
  shows "info_ok C T \<Longrightarrow> \<forall>i \<in> set P. wt_op C i \<Longrightarrow> optimize_loop C T P \<noteq> Inl No_return"
proof (induction "length P" arbitrary: T P rule: less_induct)
  case less
  show ?case
  proof (cases P)
    case (Cons opn rest)
    let ?nn = "rest \<noteq> [] \<and> hd rest = Op_nop"
    have E: "ends C (optimize_op C T opn ?nn)" using less.prems by (intro ends_optimize [OF _ _ g]) (auto simp: Cons)
    have "optimize_loop C T' (if skip then tl rest else rest) \<noteq> Inl No_return"
      if "optimize_op C T opn ?nn = Inr (T', ops, skip)" for T' ops skip
      using that E less.prems(2) by (intro less.hyps) (auto simp: Cons, (cases rest; simp)+)
    then show ?thesis using E by (auto simp: Cons sbind_eq_Inl_iff)
  qed simp
qed

section \<open>Properties\<close>

text \<open>A small context and program for the witnesses.\<close>

definition null_machine :: "unit machine" where
  "null_machine = \<lparr>host_ld = (\<lambda>_ _ _. 0), host_st = (\<lambda>_ _ _ w. w), mmu_ld = (\<lambda>_ _ _ w. (0, w)),
     mmu_st = (\<lambda>_ _ _ _ w. w), helper = (\<lambda>_ _ _ w. ([], \<lambda>_. 0, w)), tb_linked = (\<lambda>_. False)\<rparr>"

definition demo_context :: tcg_context where
  "demo_context = \<lparr>nb_temps = 3, nb_globals = 0, temp_type = (\<lambda>_. W32), temp_local = (\<lambda>_. False),
     has_neg = (\<lambda>_. True), has_not = (\<lambda>_. True)\<rparr>"

definition demo_temps :: temps where
  "demo_temps = (\<lambda>_. \<lparr>t_state = TEMP_UNDEF, prev_copy = 0, next_copy = 0, t_val = 0, t_mask = - 1\<rparr>)"

definition demo_program :: "tcg_op list" where
  "demo_program = [Op_movi W32 0 5, Op_bin O_add W32 1 0 0, Op_mov W32 2 1,
     Op_brcond W32 2 1 COND_NE 7, Op_exit_tb 9, Op_set_label 7]"

lemma demo_optimized:
  "tcg_optimize demo_context demo_temps demo_program =
   Inr [Op_movi W32 0 5, Op_movi W32 1 10, Op_movi W32 2 10, Op_nop, Op_exit_tb 9, Op_set_label 7]"
  by code_simp

lemma demo_runs:
  "exec_tb null_machine demo_context demo_program 9 demo_program (\<lambda>_. None, ()) =
   Some (Exit_tb 9 (((\<lambda>_. None)(0 \<mapsto> 5, 1 \<mapsto> 10, 2 \<mapsto> 10))) ())"
proof -
  have "compare_w W32 10 10 COND_NE = Some False" "eval_bin O_add W32 5 5 = Some 10"
    "trunc_w W32 5 = 5" "trunc_w W32 10 = 10" by code_simp+
  then show ?thesis by (simp add: demo_program_def demo_context_def put_def numeral_eq_Suc)
qed

lemma demo_wt: "\<forall>i \<in> set demo_program. wt_op demo_context i"
  by (simp add: demo_program_def wt_op_def in_ok_def out_ok_def demo_context_def)

text \<open>
  C12: Translation validation of the optimiser: if a well typed translation block ends in some way
  from a typed state (by \<open>exit_tb\<close> or a linked \<open>goto_tb\<close>, with the temporaries, the memory and the
  helpers' effects in between), the optimised block ends in exactly the same way, within the same
  number of operations, for every behaviour of memory, helpers and block links.
\<close>

theorem tcg_optimize_sound:
  assumes "tcg_optimize C T P = Inr P'" "\<forall>i \<in> set P. wt_op C i" "nb_globals C \<le> nb_temps C" "typed C \<sigma>"
    and "exec_tb M C P n P (\<sigma>, m) = Some r"
  shows "exec_tb M C P' n P' (\<sigma>, m) = Some r"
  using assms optimize_loop_sim [of C "reset_all_temps (nb_temps C) T" P P' "reset_all_temps (nb_temps C) T" P P' \<sigma> M n m r]
  by (simp add: tcg_optimize_def tcg_constant_folding_def valid_reset_all)

theorem tcg_optimize_sound_witness:
  "exec_tb null_machine demo_context
     [Op_movi W32 0 5, Op_movi W32 1 10, Op_movi W32 2 10, Op_nop, Op_exit_tb 9, Op_set_label 7] 9
     [Op_movi W32 0 5, Op_movi W32 1 10, Op_movi W32 2 10, Op_nop, Op_exit_tb 9, Op_set_label 7] (\<lambda>_. None, ()) =
   Some (Exit_tb 9 (((\<lambda>_. None)(0 \<mapsto> 5, 1 \<mapsto> 10, 2 \<mapsto> 10))) ())"
  by (rule tcg_optimize_sound [OF demo_optimized demo_wt _ _ demo_runs]) (simp_all add: demo_context_def typed_def)

text \<open>
  C13: The pass ends: on every well typed program, no walk around a ring of copies runs forever, so
  the result is a program or one of the failures of the source.
\<close>

theorem tcg_optimize_ends:
  assumes "\<forall>i \<in> set P. wt_op C i" "nb_globals C \<le> nb_temps C"
  shows "tcg_optimize C T P \<noteq> Inl No_return"
  using optimize_loop_ends [OF assms(2) info_reset_all assms(1)]
  by (simp add: tcg_optimize_def tcg_constant_folding_def)

theorem tcg_optimize_ends_witness: "tcg_optimize demo_context demo_temps demo_program \<noteq> Inl No_return"
  by (rule tcg_optimize_ends [OF demo_wt]) (simp add: demo_context_def)

text \<open>
  C14: The rings of copies are an invariant: if the links of the copies are inverse to each other
  and stay within a type, and constants have their value as mask, the same holds after the pass
  over any well typed operation.
\<close>

theorem optimize_op_info_ok:
  assumes "info_ok C T" "wt_op C opn" "nb_globals C \<le> nb_temps C"
    and "optimize_op C T opn next_is_nop = Inr (T', ops, skip)"
  shows "info_ok C T'"
  using ends_optimize [OF assms(1-3), of next_is_nop] assms(4) by simp

theorem optimize_op_info_ok_witness:
  "info_ok demo_context (tcg_opt_gen_movi (reset_all_temps 3 demo_temps) 0 5)"
proof (rule optimize_op_info_ok)
  show "info_ok demo_context (reset_all_temps 3 demo_temps)"
    using info_reset_all [of demo_context demo_temps] by (simp add: demo_context_def)
  show "optimize_op demo_context (reset_all_temps 3 demo_temps) (Op_movi W32 0 5) False =
    Inr (tcg_opt_gen_movi (reset_all_temps 3 demo_temps) 0 5, [Op_movi W32 0 5], False)"
    by (simp add: optimize_op_def copy_propagate_def op_ins_def set_ins_def commute_def simp_shift_neg_not_def simp_mov3_def
      known_zero_def result_mask_def flag_call_clobber_def flag_64bit_def simp_mask_def simp_zero_def simp_same_def fold_op_defs)
qed (simp_all add: demo_context_def wt_op_def out_ok_def)

text \<open>The products and quotients of two constants that only the constant folder and the rule for zero treat.\<close>

lemma optimize_constants:
  fixes w d
  assumes c: "is_const T a" "is_const T b" and o: "opc \<in> {O_muluh, O_mulsh, O_div, O_rem, O_divu, O_remu}"
  defines "opn \<equiv> (if opc \<in> {O_muluh, O_mulsh} \<and> d = b then Op_bin opc w d b a else Op_bin opc w d a b)"
  shows "optimize_op C T (Op_bin opc w d a b) nn =
    (case simp_zero T opn of Some (T', op') \<Rightarrow> Inr (T', [op'], False) | None \<Rightarrow> fold_op C T nn opn (result_mask opn (- 1)))"
proof -
  have p: "copy_propagate C T (Op_bin opc w d a b) = Inr (Op_bin opc w d a b)"
    using c by (simp add: copy_propagate_def op_ins_def prop_arg_def set_ins_def is_const_def)
  have m: "commute T (Op_bin opc w d a b) = opn"
    using c o by (auto simp: commute_def swap_commutative_def opn_def)
  have "opn = Op_bin opc w d b a \<or> opn = Op_bin opc w d a b" by (auto simp: opn_def)
  then obtain a' b' where opn: "opn = Op_bin opc w d a' b'" by blast
  have "simp_shift_neg_not C T opn = None" "simp_mov3 C T opn = Inr None" "known_zero T opn = Inr (- 1, - 1)"
    "simp_same C T opn = Inr None"
    using o unfolding opn simp_shift_neg_not_def simp_mov3_def known_zero_def simp_same_def
    by (elim insertE emptyE; simp)+
  moreover have "simp_mask C T opn (result_mask opn (- 1)) (- 1) = Inr None"
    by (simp add: simp_mask_def result_mask_def)
  ultimately show ?thesis
    by (simp add: optimize_op_def p m Let_def split: option.splits)
qed

definition high_product :: "tcg_binop \<Rightarrow> u64 \<Rightarrow> u64 \<Rightarrow> u64" where
  "high_product opc x y =
     (if opc = O_muluh then of_nat ((unat x * unat y) div 2 ^ 64) else word_of_int ((sint x * sint y) div 2 ^ 64))"

lemma high_product_commute: "high_product opc x y = high_product opc y x"
  by (simp add: high_product_def mult.commute)

lemma high_product_zero: "high_product opc x 0 = 0"
  by (simp add: high_product_def)

lemma lo32_and: "x AND 0xffffffff = lo32 x"
proof -
  have "(0xffffffff :: u64) = mask 32" by (simp add: mask_eq_exp_minus_1)
  moreover have "x AND mask 32 = lo32 x" by (rule bit_word_eqI) (auto simp: lo32_def bit_simps)
  ultimately show ?thesis by simp
qed

text \<open>
  C15: The opcode table lacks the 64 bit flag for the 64 bit high products, so the optimiser replaces a product of two
  constants by a 32 bit move of the low half of the high word, for all constants, where the operation gives all of it.
\<close>

theorem muluh_i64_folded_short:
  assumes c: "is_const T a" "is_const T b" and o: "opc = O_muluh \<or> opc = O_mulsh"
  defines "v \<equiv> high_product opc (t_val (T a)) (t_val (T b))"
  shows "optimize_op C T (Op_bin opc W64 d a b) nn = Inr (tcg_opt_gen_movi T d (lo32 v), [Op_movi W32 d (lo32 v)], False) \<and>
    eval_bin opc W64 (t_val (T a)) (t_val (T b)) = Some v"
proof
  have o': "opc \<in> {O_muluh, O_mulsh, O_div, O_rem, O_divu, O_remu}" using o by auto
  have f: "fold_bin_2 opc W64 x y = Inr (high_product opc x y)" for x y
    using o by (auto simp: fold_bin_2_def fold_mulh_64 high_product_def)
  have g: "(case simp_zero T (Op_bin opc W64 d p q) of Some (T', op') \<Rightarrow> Inr (T', [op'], False)
      | None \<Rightarrow> fold_op C T nn (Op_bin opc W64 d p q) m) = Inr (tcg_opt_gen_movi T d (lo32 h), [Op_movi W32 d (lo32 h)], False)"
    if "is_const T p" "is_const T q" "h = high_product opc (t_val (T p)) (t_val (T q))" for p q h m
  proof (cases "t_val (T q) = 0")
    case True
    then show ?thesis using o that
      by (auto simp: simp_zero_def gen_movi_def op_to_movi_def op_bits_def flag_64bit_def is_const_val_def is_const_def high_product_zero lo32_def)
  next
    case False
    then show ?thesis using o that
      by (auto simp: simp_zero_def op_to_movi_def op_bits_def flag_64bit_def is_const_val_def fold_op_def do_constant_folding_def
          map_sum_r_def mask_bits_def f lo32_and)
  qed
  show "optimize_op C T (Op_bin opc W64 d a b) nn = Inr (tcg_opt_gen_movi T d (lo32 v), [Op_movi W32 d (lo32 v)], False)"
  proof (cases "opc \<in> {O_muluh, O_mulsh} \<and> d = b")
    case True
    show ?thesis unfolding optimize_constants [OF c o'] if_P [OF True]
      by (rule g [OF c(2,1)]) (simp add: v_def high_product_commute [of opc "t_val (T b)"])
  next
    case False
    show ?thesis unfolding optimize_constants [OF c o'] if_not_P [OF False]
      by (rule g [OF c]) (simp add: v_def)
  qed
  show "eval_bin opc W64 (t_val (T a)) (t_val (T b)) = Some v"
    using o by (auto simp: eval_bin_def ref_binop_def trunc_w_def v_def high_product_def)
qed

lemma smod_1: "k smod (1 :: int) = 0"
  by (simp add: signed_modulo_int_def)

text \<open>The smallest number of the width and its divisor minus one.\<close>

definition least_by_minus_one :: "width \<Rightarrow> u64 \<Rightarrow> u64 \<Rightarrow> bool" where
  "least_by_minus_one w x y \<longleftrightarrow> (case w of
     W32 \<Rightarrow> int32 x = - (2 ^ 31) \<and> int32 y = - 1
   | W64 \<Rightarrow> sint x = - (2 ^ 63) \<and> sint y = - 1)"

text \<open>The square of \<open>2 ^ 40\<close> has the high word \<open>2 ^ 16\<close>, which is kept; that of \<open>2 ^ 63\<close> has \<open>2 ^ 62\<close>, which becomes 0.\<close>

definition const_temps :: "u64 \<Rightarrow> u64 \<Rightarrow> temps" where
  "const_temps x y = (\<lambda>t. let v = (if t = 0 then x else y) in
     \<lparr>t_state = TEMP_CONST, prev_copy = 0, next_copy = 0, t_val = v, t_mask = v\<rparr>)"

lemma const_temps:
  "is_const (const_temps x y) 0" "is_const (const_temps x y) 1" "t_val (const_temps x y 0) = x" "t_val (const_temps x y 1) = y"
  by (simp_all add: const_temps_def is_const_def Let_def)

theorem muluh_i64_folded_short_witness:
  "(\<exists>T. optimize_op demo_context (const_temps 0x10000000000 0x10000000000) (Op_bin O_muluh W64 2 0 1) False =
     Inr (T, [Op_movi W32 2 0x10000], False)) \<and>
   (\<exists>T. optimize_op demo_context (const_temps 0x8000000000000000 0x8000000000000000) (Op_bin O_muluh W64 2 0 1) False =
     Inr (T, [Op_movi W32 2 0], False)) \<and>
   eval_bin O_muluh W64 0x8000000000000000 0x8000000000000000 = Some 0x4000000000000000"
  using muluh_i64_folded_short [of "const_temps 0x10000000000 0x10000000000" 0 1 O_muluh demo_context 2 False]
    muluh_i64_folded_short [of "const_temps 0x8000000000000000 0x8000000000000000" 0 1 O_muluh demo_context 2 False]
  by (auto simp: const_temps [simplified] high_product_def lo32_def)

text \<open>Where folding a division fails, and what a zero divisor gives.\<close>

lemma fold_div_error:
  assumes "opc \<in> {O_div, O_rem, O_divu, O_remu}"
  shows "fold_bin_2 opc w x y = Inl e \<longleftrightarrow> e = Div_overflow \<and> (opc = O_div \<or> opc = O_rem) \<and> least_by_minus_one w x y"
  using assms
  by (cases w) (auto simp: fold_bin_2_def map_sum_r_def c_sdiv_def c_smod_def or1_def least_by_minus_one_def split: if_splits)

lemma ucast_scast32: "(ucast (ucast (scast z :: u64) :: u32) :: u64) = ucast (z :: u32)"
proof (rule bit_word_eqI)
  show "bit (ucast (ucast (scast z :: u64) :: u32) :: u64) n = bit (ucast z :: u64) n" for n
    using bit_imp_le_length [of z n] by (cases "n = 31"; cases "n < 31") (auto simp: bit_simps min_def)
qed

lemma fold_div_zero:
  assumes "opc \<in> {O_div, O_rem, O_divu, O_remu}" "fold_bin_2 opc w x y = Inr v" "trunc_w w y = 0"
  shows "trunc_w w v = (if opc = O_div \<or> opc = O_divu then trunc_w w x else 0)"
proof (cases w)
  case W32
  then have "(ucast y :: u32) = 0" using assms(3) unfolding trunc_w_def lo32_def by (auto simp: word_eq_bits bit_simps)
  then show ?thesis using assms(1,2) W32 ucast_scast32
    by (auto simp: fold_bin_2_def map_sum_r_def c_sdiv_def c_smod_def or1_def int32_def trunc_w_def lo32_def smod_1)
next
  case W64
  then show ?thesis using assms
    by (auto simp: fold_bin_2_def map_sum_r_def c_sdiv_def c_smod_def or1_def trunc_w_def smod_1)
qed

text \<open>
  C16: Folding a division or a remainder of constants fails exactly for the signed operations on the smallest number and minus
  one, whose quotient does not exist: the translator itself divides out of range.  All other operands give a constant; a
  divisor of zero counts as one.
\<close>

theorem div_folding_overflows:
  assumes c: "is_const T a" "is_const T b" and o: "opc \<in> {O_div, O_rem, O_divu, O_remu}"
  defines "x \<equiv> t_val (T a)" and "y \<equiv> t_val (T b)"
  shows "(optimize_op C T (Op_bin opc w d a b) nn = Inl Div_overflow \<longleftrightarrow>
      (opc = O_div \<or> opc = O_rem) \<and> least_by_minus_one w x y) \<and>
    (\<not> ((opc = O_div \<or> opc = O_rem) \<and> least_by_minus_one w x y) \<longrightarrow>
      (\<exists>v. optimize_op C T (Op_bin opc w d a b) nn = Inr (tcg_opt_gen_movi T d v, [Op_movi w d v], False) \<and>
        (trunc_w w y = 0 \<longrightarrow> v = (if opc = O_div \<or> opc = O_divu then trunc_w w x else 0))))"
proof -
  have o': "opc \<in> {O_muluh, O_mulsh, O_div, O_rem, O_divu, O_remu}" "opc \<notin> {O_muluh, O_mulsh}" using o by auto
  let ?op = "Op_bin opc w d a b"
  have b: "op_bits ?op = w" using o by (cases w) (auto simp: op_bits_def flag_64bit_def)
  have z: "simp_zero T ?op = None" using o by (auto simp: simp_zero_def)
  have O: "optimize_op C T ?op nn = map_sum_r (\<lambda>v. (tcg_opt_gen_movi T d v, [Op_movi w d v], False))
      (map_sum_r (mask_bits ?op) (fold_bin_2 opc w x y))"
    using c o' z optimize_constants [OF c o'(1), of C w d nn]
    by (simp add: fold_op_def do_constant_folding_def op_to_movi_def b x_def y_def map_sum_r_def sbind_assoc)
  have m: "mask_bits ?op v = trunc_w w v" for v
    unfolding mask_bits_def b by (cases w) (simp_all add: trunc_w_def lo32_and)
  note F = fold_div_error [OF o, of w x y] and Z = fold_div_zero [OF o, of w x y]
  show ?thesis
  proof (cases "fold_bin_2 opc w x y")
    case (Inl e)
    then show ?thesis using F [of e] by (simp add: O map_sum_r_def)
  next
    case (Inr v)
    then show ?thesis using F [of Div_overflow] Z [of v] by (simp add: O map_sum_r_def m)
  qed
qed

theorem div_folding_overflows_witness:
  "optimize_op demo_context (const_temps 0x80000000 0xffffffff) (Op_bin O_div W32 2 0 1) False = Inl Div_overflow \<and>
   (\<exists>T. optimize_op demo_context (const_temps 7 0) (Op_bin O_div W32 2 0 1) False = Inr (T, [Op_movi W32 2 7], False))"
  using div_folding_overflows [of "const_temps 0x80000000 0xffffffff" 0 1 O_div demo_context W32 2 False]
    div_folding_overflows [of "const_temps 7 0" 0 1 O_div demo_context W32 2 False]
  by (auto simp: const_temps [simplified] least_by_minus_one_def int32_def trunc_w_def lo32_def)

end
