(* ===== verification/Bitmap.thy ===== *)
theory Bitmap
  imports Host_Utils
begin

text \<open>
  Arrays of bits in \<open>unsigned long\<close> words: the single bit operations of \<open>include/qemu/bitops.h\<close>,
  the searches of \<open>util/bitops.c\<close> and the bitmap operations of \<open>util/bitmap.c\<close> and
  \<open>include/qemu/bitmap.h\<close>, on a host with 64 bit longs.  A bitmap is the list of its words;
  positions and sizes, \<open>long\<close> or \<open>unsigned long\<close> in the source, are natural numbers, so the theory
  speaks of bitmaps whose bit numbers do not overflow a long.  The sums of \<open>bitmap_find_next_zero_area\<close>,
  whose length is not bounded by the bitmap, are taken modulo \<open>2 ^ 64\<close>.
\<close>

section \<open>Words of a bitmap\<close>

type_synonym bitmap = "u64 list"

definition upd_word :: "bitmap \<Rightarrow> nat \<Rightarrow> (u64 \<Rightarrow> u64) \<Rightarrow> c_error + bitmap" where
  "upd_word bm k f = sbind (buf_get bm k) (\<lambda>w. buf_put bm k (f w))"

definition BIT_MASK :: "nat \<Rightarrow> u64" where
  "BIT_MASK nr = push_bit (nr mod 64) 1"

definition BIT_WORD :: "nat \<Rightarrow> nat" where
  "BIT_WORD nr = nr div 64"

definition BITS_TO_LONGS :: "nat \<Rightarrow> nat" where
  "BITS_TO_LONGS nr = (nr + 63) div 64"

section \<open>Single bits\<close>

definition set_bit_long :: "nat \<Rightarrow> bitmap \<Rightarrow> c_error + bitmap" where
  "set_bit_long nr addr = upd_word addr (BIT_WORD nr) (\<lambda>w. w OR BIT_MASK nr)"

definition clear_bit :: "nat \<Rightarrow> bitmap \<Rightarrow> c_error + bitmap" where
  "clear_bit nr addr = upd_word addr (BIT_WORD nr) (\<lambda>w. w AND NOT (BIT_MASK nr))"

definition change_bit :: "nat \<Rightarrow> bitmap \<Rightarrow> c_error + bitmap" where
  "change_bit nr addr = upd_word addr (BIT_WORD nr) (\<lambda>w. w XOR BIT_MASK nr)"

definition test_and_set_bit :: "nat \<Rightarrow> bitmap \<Rightarrow> c_error + bool \<times> bitmap" where
  "test_and_set_bit nr addr =
     sbind (buf_get addr (BIT_WORD nr)) (\<lambda>old.
     sbind (buf_put addr (BIT_WORD nr) (old OR BIT_MASK nr)) (\<lambda>addr'.
       Inr (old AND BIT_MASK nr \<noteq> 0, addr')))"

definition test_and_clear_bit :: "nat \<Rightarrow> bitmap \<Rightarrow> c_error + bool \<times> bitmap" where
  "test_and_clear_bit nr addr =
     sbind (buf_get addr (BIT_WORD nr)) (\<lambda>old.
     sbind (buf_put addr (BIT_WORD nr) (old AND NOT (BIT_MASK nr))) (\<lambda>addr'.
       Inr (old AND BIT_MASK nr \<noteq> 0, addr')))"

definition test_and_change_bit :: "nat \<Rightarrow> bitmap \<Rightarrow> c_error + bool \<times> bitmap" where
  "test_and_change_bit nr addr =
     sbind (buf_get addr (BIT_WORD nr)) (\<lambda>old.
     sbind (buf_put addr (BIT_WORD nr) (old XOR BIT_MASK nr)) (\<lambda>addr'.
       Inr (old AND BIT_MASK nr \<noteq> 0, addr')))"

definition test_bit :: "nat \<Rightarrow> bitmap \<Rightarrow> c_error + bool" where
  "test_bit nr addr =
     sbind (buf_get addr (BIT_WORD nr)) (\<lambda>w. Inr (1 AND drop_bit (nr mod 64) w \<noteq> 0))"

section \<open>Searches\<close>

definition found_middle :: "u64 \<Rightarrow> nat \<Rightarrow> nat" where
  "found_middle tmp result = result + ctz64 tmp"

definition found_first :: "u64 \<Rightarrow> nat \<Rightarrow> nat \<Rightarrow> nat" where
  "found_first tmp result sz =
     (let tmp = tmp AND drop_bit (64 - sz) (- 1)
      in if tmp = 0 then result + sz else found_middle tmp result)"

function scan_words :: "bitmap \<Rightarrow> nat \<Rightarrow> nat \<Rightarrow> nat \<Rightarrow> c_error + nat" where
  "scan_words addr p result sz =
     (if sz \<ge> 64
      then sbind (buf_get addr p) (\<lambda>tmp.
             if tmp \<noteq> 0 then Inr (found_middle tmp result)
             else scan_words addr (p + 1) (result + 64) (sz - 64))
      else if sz = 0 then Inr result
      else sbind (buf_get addr p) (\<lambda>tmp. Inr (found_first tmp result sz)))"
  by pat_completeness auto

termination scan_words
  by (relation "measure (\<lambda>(addr, p, result, sz). sz)") auto

function scan_four :: "bitmap \<Rightarrow> nat \<Rightarrow> nat \<Rightarrow> nat \<Rightarrow> c_error + nat" where
  "scan_four addr p result sz =
     (if sz \<ge> 4 * 64
      then sbind (buf_get addr p) (\<lambda>tmp.
           sbind (buf_get addr (p + 1)) (\<lambda>d1.
           sbind (buf_get addr (p + 2)) (\<lambda>d2.
           sbind (buf_get addr (p + 3)) (\<lambda>d3.
             if tmp \<noteq> 0 then Inr (found_middle tmp result)
             else if (d1 OR d2) OR d3 \<noteq> 0 then scan_words addr p result sz
             else scan_four addr (p + 4) (result + 4 * 64) (sz - 4 * 64)))))
      else scan_words addr p result sz)"
  by pat_completeness auto

termination scan_four
  by (relation "measure (\<lambda>(addr, p, result, sz). sz)") auto

definition find_next_bit :: "bitmap \<Rightarrow> nat \<Rightarrow> nat \<Rightarrow> c_error + nat" where
  "find_next_bit addr sz offset =
     (if offset \<ge> sz then Inr sz
      else let p = offset div 64; result = offset - offset mod 64;
               sz = sz - result; offset = offset mod 64
           in if offset \<noteq> 0
              then sbind (buf_get addr p) (\<lambda>tmp.
                   let tmp = tmp AND push_bit offset (- 1)
                   in if sz < 64 then Inr (found_first tmp result sz)
                      else if tmp \<noteq> 0 then Inr (found_middle tmp result)
                      else scan_four addr (p + 1) (result + 64) (sz - 64))
              else scan_four addr p result sz)"

definition found_first_zero :: "u64 \<Rightarrow> nat \<Rightarrow> nat \<Rightarrow> nat" where
  "found_first_zero tmp result sz =
     (let tmp = tmp OR push_bit sz (- 1)
      in if tmp = - 1 then result + sz else found_middle (NOT tmp) result)"

function scan_zero_words :: "bitmap \<Rightarrow> nat \<Rightarrow> nat \<Rightarrow> nat \<Rightarrow> c_error + nat" where
  "scan_zero_words addr p result sz =
     (if sz \<ge> 64
      then sbind (buf_get addr p) (\<lambda>tmp.
             if NOT tmp \<noteq> 0 then Inr (found_middle (NOT tmp) result)
             else scan_zero_words addr (p + 1) (result + 64) (sz - 64))
      else if sz = 0 then Inr result
      else sbind (buf_get addr p) (\<lambda>tmp. Inr (found_first_zero tmp result sz)))"
  by pat_completeness auto

termination scan_zero_words
  by (relation "measure (\<lambda>(addr, p, result, sz). sz)") auto

definition find_next_zero_bit :: "bitmap \<Rightarrow> nat \<Rightarrow> nat \<Rightarrow> c_error + nat" where
  "find_next_zero_bit addr sz offset =
     (if offset \<ge> sz then Inr sz
      else let p = offset div 64; result = offset - offset mod 64;
               sz = sz - result; offset = offset mod 64
           in if offset \<noteq> 0
              then sbind (buf_get addr p) (\<lambda>tmp.
                   let tmp = tmp OR drop_bit (64 - offset) (- 1)
                   in if sz < 64 then Inr (found_first_zero tmp result sz)
                      else if NOT tmp \<noteq> 0 then Inr (found_middle (NOT tmp) result)
                      else scan_zero_words addr (p + 1) (result + 64) (sz - 64))
              else scan_zero_words addr p result sz)"

definition find_first_bit :: "bitmap \<Rightarrow> nat \<Rightarrow> c_error + nat" where
  "find_first_bit addr sz = find_next_bit addr sz 0"

definition find_first_zero_bit :: "bitmap \<Rightarrow> nat \<Rightarrow> c_error + nat" where
  "find_first_zero_bit addr sz = find_next_zero_bit addr sz 0"

fun last_in_words :: "bitmap \<Rightarrow> nat \<Rightarrow> nat \<Rightarrow> c_error + nat" where
  "last_in_words addr sz 0 = Inr sz"
| "last_in_words addr sz (Suc words) =
     sbind (buf_get addr words) (\<lambda>tmp.
       if tmp \<noteq> 0 then Inr (words * 64 + 64 - 1 - clz64 tmp) else last_in_words addr sz words)"

definition find_last_bit :: "bitmap \<Rightarrow> nat \<Rightarrow> c_error + nat" where
  "find_last_bit addr sz =
     (let words = sz div 64
      in if sz mod 64 \<noteq> 0
         then sbind (buf_get addr words) (\<lambda>w.
              let tmp = w AND drop_bit (64 - sz mod 64) (- 1)
              in if tmp \<noteq> 0 then Inr (words * 64 + 64 - 1 - clz64 tmp) else last_in_words addr sz words)
         else last_in_words addr sz words)"

declare scan_words.simps [simp del] scan_four.simps [simp del] scan_zero_words.simps [simp del]


section \<open>Bitmaps\<close>

definition BITMAP_LAST_WORD_MASK :: "nat \<Rightarrow> u64" where
  "BITMAP_LAST_WORD_MASK nbits = (if nbits mod 64 \<noteq> 0 then push_bit (nbits mod 64) 1 - 1 else - 1)"

definition BITMAP_FIRST_WORD_MASK :: "nat \<Rightarrow> u64" where
  "BITMAP_FIRST_WORD_MASK start = push_bit (start mod 64) (- 1)"

definition small_nbits :: "nat \<Rightarrow> bool" where
  "small_nbits nbits \<longleftrightarrow> nbits \<le> 64"

text \<open>The loops \<open>for (k = 0; k < lim; ++k) if (test(k)) return\<close>, with the last partial word.\<close>

fun any_word :: "(nat \<Rightarrow> c_error + bool) \<Rightarrow> nat \<Rightarrow> nat \<Rightarrow> c_error + bool" where
  "any_word test k 0 = Inr False"
| "any_word test k (Suc n) = sbind (test k) (\<lambda>b. if b then Inr True else any_word test (Suc k) n)"

definition slow_bitmap_empty :: "bitmap \<Rightarrow> nat \<Rightarrow> c_error + bool" where
  "slow_bitmap_empty bm bits =
     sbind (any_word (\<lambda>k. sbind (buf_get bm k) (\<lambda>w. Inr (w \<noteq> 0))) 0 (bits div 64)) (\<lambda>found.
       if found then Inr False
       else if bits mod 64 \<noteq> 0
       then sbind (buf_get bm (bits div 64)) (\<lambda>w. Inr (\<not> w AND BITMAP_LAST_WORD_MASK bits \<noteq> 0))
       else Inr True)"

definition slow_bitmap_full :: "bitmap \<Rightarrow> nat \<Rightarrow> c_error + bool" where
  "slow_bitmap_full bm bits =
     sbind (any_word (\<lambda>k. sbind (buf_get bm k) (\<lambda>w. Inr (NOT w \<noteq> 0))) 0 (bits div 64)) (\<lambda>found.
       if found then Inr False
       else if bits mod 64 \<noteq> 0
       then sbind (buf_get bm (bits div 64)) (\<lambda>w. Inr (\<not> NOT w AND BITMAP_LAST_WORD_MASK bits \<noteq> 0))
       else Inr True)"

definition slow_bitmap_equal :: "bitmap \<Rightarrow> bitmap \<Rightarrow> nat \<Rightarrow> c_error + bool" where
  "slow_bitmap_equal bm1 bm2 bits =
     sbind (any_word (\<lambda>k. sbind (buf_get bm1 k) (\<lambda>w1. sbind (buf_get bm2 k) (\<lambda>w2. Inr (w1 \<noteq> w2)))) 0 (bits div 64))
       (\<lambda>found.
       if found then Inr False
       else if bits mod 64 \<noteq> 0
       then sbind (buf_get bm1 (bits div 64)) (\<lambda>w1. sbind (buf_get bm2 (bits div 64)) (\<lambda>w2.
              Inr (\<not> (w1 XOR w2) AND BITMAP_LAST_WORD_MASK bits \<noteq> 0)))
       else Inr True)"

definition slow_bitmap_intersects :: "bitmap \<Rightarrow> bitmap \<Rightarrow> nat \<Rightarrow> c_error + bool" where
  "slow_bitmap_intersects bm1 bm2 bits =
     sbind (any_word (\<lambda>k. sbind (buf_get bm1 k) (\<lambda>w1. sbind (buf_get bm2 k) (\<lambda>w2. Inr (w1 AND w2 \<noteq> 0)))) 0 (bits div 64))
       (\<lambda>found.
       if found then Inr True
       else if bits mod 64 \<noteq> 0
       then sbind (buf_get bm1 (bits div 64)) (\<lambda>w1. sbind (buf_get bm2 (bits div 64)) (\<lambda>w2.
              Inr ((w1 AND w2) AND BITMAP_LAST_WORD_MASK bits \<noteq> 0)))
       else Inr False)"

text \<open>
  The loops \<open>for (k = 0; k < nr; k++) result |= (dst[k] = f(src1[k], src2[k]))\<close>.  \<open>dst\<close> may be one
  of the sources: a word is read before it is written and never read again.
\<close>

fun zip_words :: "(u64 \<Rightarrow> u64 \<Rightarrow> u64) \<Rightarrow> bitmap \<Rightarrow> bitmap \<Rightarrow> bitmap \<Rightarrow> nat \<Rightarrow> u64 \<Rightarrow> nat \<Rightarrow> c_error + bool \<times> bitmap" where
  "zip_words f dst bm1 bm2 k result 0 = Inr (result \<noteq> 0, dst)"
| "zip_words f dst bm1 bm2 k result (Suc n) =
     sbind (buf_get bm1 k) (\<lambda>w1. sbind (buf_get bm2 k) (\<lambda>w2.
     sbind (buf_put dst k (f w1 w2)) (\<lambda>dst'.
       zip_words f dst' bm1 bm2 (Suc k) (result OR f w1 w2) n)))"

definition slow_bitmap_and :: "bitmap \<Rightarrow> bitmap \<Rightarrow> bitmap \<Rightarrow> nat \<Rightarrow> c_error + bool \<times> bitmap" where
  "slow_bitmap_and dst bm1 bm2 bits = zip_words (\<lambda>x y. x AND y) dst bm1 bm2 0 0 (BITS_TO_LONGS bits)"

definition slow_bitmap_or :: "bitmap \<Rightarrow> bitmap \<Rightarrow> bitmap \<Rightarrow> nat \<Rightarrow> c_error + bitmap" where
  "slow_bitmap_or dst bm1 bm2 bits =
     sbind (zip_words (\<lambda>x y. x OR y) dst bm1 bm2 0 0 (BITS_TO_LONGS bits)) (\<lambda>(_, dst'). Inr dst')"

definition slow_bitmap_xor :: "bitmap \<Rightarrow> bitmap \<Rightarrow> bitmap \<Rightarrow> nat \<Rightarrow> c_error + bitmap" where
  "slow_bitmap_xor dst bm1 bm2 bits =
     sbind (zip_words (\<lambda>x y. x XOR y) dst bm1 bm2 0 0 (BITS_TO_LONGS bits)) (\<lambda>(_, dst'). Inr dst')"

definition slow_bitmap_andnot :: "bitmap \<Rightarrow> bitmap \<Rightarrow> bitmap \<Rightarrow> nat \<Rightarrow> c_error + bool \<times> bitmap" where
  "slow_bitmap_andnot dst bm1 bm2 bits = zip_words (\<lambda>x y. x AND NOT y) dst bm1 bm2 0 0 (BITS_TO_LONGS bits)"

definition slow_bitmap_complement :: "bitmap \<Rightarrow> bitmap \<Rightarrow> nat \<Rightarrow> c_error + bitmap" where
  "slow_bitmap_complement dst src bits =
     sbind (zip_words (\<lambda>x _. NOT x) dst src src 0 0 (bits div 64)) (\<lambda>(_, dst').
       if bits mod 64 \<noteq> 0
       then sbind (buf_get src (bits div 64)) (\<lambda>w.
              buf_put dst' (bits div 64) (NOT w AND BITMAP_LAST_WORD_MASK bits))
       else Inr dst')"

text \<open>
  \<open>bitmap_set\<close> and \<open>bitmap_clear\<close> share their loop; \<open>upd mask\<close> is \<open>*p |= mask\<close> or \<open>*p &= ~mask\<close>.
  \<open>range_words\<close> is the loop from its second round on, where whole words are updated.
\<close>

function range_words :: "(u64 \<Rightarrow> u64 \<Rightarrow> u64) \<Rightarrow> bitmap \<Rightarrow> nat \<Rightarrow> nat \<Rightarrow> nat \<Rightarrow> c_error + bitmap" where
  "range_words upd bm p nr sz =
     (if nr \<ge> 64
      then sbind (upd_word bm p (upd (- 1))) (\<lambda>bm'. range_words upd bm' (p + 1) (nr - 64) sz)
      else if nr \<noteq> 0 then upd_word bm p (upd (- 1 AND BITMAP_LAST_WORD_MASK sz))
      else Inr bm)"
  by pat_completeness auto

termination range_words
  by (relation "measure (\<lambda>(upd, bm, p, nr, sz). nr)") auto

declare range_words.simps [simp del]

definition bitmap_range :: "(u64 \<Rightarrow> u64 \<Rightarrow> u64) \<Rightarrow> bitmap \<Rightarrow> nat \<Rightarrow> nat \<Rightarrow> c_error + bitmap" where
  "bitmap_range upd bm start nr =
     (let p = BIT_WORD start; sz = start + nr; bits = 64 - start mod 64; mask = BITMAP_FIRST_WORD_MASK start
      in if nr \<ge> bits
         then sbind (upd_word bm p (upd mask)) (\<lambda>bm'. range_words upd bm' (p + 1) (nr - bits) sz)
         else if nr \<noteq> 0 then upd_word bm p (upd (mask AND BITMAP_LAST_WORD_MASK sz))
         else Inr bm)"

definition bitmap_set :: "bitmap \<Rightarrow> nat \<Rightarrow> nat \<Rightarrow> c_error + bitmap" where
  "bitmap_set = bitmap_range (\<lambda>mask w. w OR mask)"

definition bitmap_clear :: "bitmap \<Rightarrow> nat \<Rightarrow> nat \<Rightarrow> c_error + bitmap" where
  "bitmap_clear = bitmap_range (\<lambda>mask w. w AND NOT mask)"

text \<open>
  The loop by \<open>goto again\<close>.  The sums of the alignment and of the end of the area are of type \<open>unsigned long\<close> and
  wrap.  A round that is not the last one goes on behind a bit below \<open>sz\<close>, so only the first round starts above
  \<open>sz\<close>: a run of more than \<open>sz + 2\<close> rounds has met some start twice and never returns.
\<close>

definition ALIGN_MASK :: "nat \<Rightarrow> nat \<Rightarrow> nat" where
  "ALIGN_MASK x m = (let y = (x + m) mod 2 ^ 64 in y - (y AND m))"

fun zero_area_loop ::
  "(bitmap \<Rightarrow> nat \<Rightarrow> nat \<Rightarrow> c_error + nat) \<Rightarrow> (bitmap \<Rightarrow> nat \<Rightarrow> nat \<Rightarrow> c_error + nat) \<Rightarrow>
   nat \<Rightarrow> bitmap \<Rightarrow> nat \<Rightarrow> nat \<Rightarrow> nat \<Rightarrow> nat \<Rightarrow> c_error + nat" where
  "zero_area_loop next_zero next_one 0 bm sz start nr align_mask = Inl No_return"
| "zero_area_loop next_zero next_one (Suc fuel) bm sz start nr align_mask =
     sbind (next_zero bm sz start) (\<lambda>index0.
     let index = ALIGN_MASK index0 align_mask; fin = (index + nr) mod 2 ^ 64
     in if fin > sz then Inr fin
        else sbind (next_one bm fin index) (\<lambda>i.
             if i < fin then zero_area_loop next_zero next_one fuel bm sz (i + 1) nr align_mask else Inr index))"

definition bitmap_find_next_zero_area :: "bitmap \<Rightarrow> nat \<Rightarrow> nat \<Rightarrow> nat \<Rightarrow> nat \<Rightarrow> c_error + nat" where
  "bitmap_find_next_zero_area bm sz start nr align_mask =
     zero_area_loop find_next_zero_bit find_next_bit (sz + 2) bm sz start nr align_mask"

text \<open>The inline forms, which treat bitmaps of one word apart.\<close>

definition bitmap_new :: "nat \<Rightarrow> bitmap" where
  "bitmap_new nbits = replicate (BITS_TO_LONGS nbits) 0"

definition bitmap_zero :: "bitmap \<Rightarrow> nat \<Rightarrow> c_error + bitmap" where
  "bitmap_zero dst nbits =
     (if small_nbits nbits then buf_put dst 0 0 else buf_write dst 0 (replicate (BITS_TO_LONGS nbits) 0))"

definition bitmap_fill :: "bitmap \<Rightarrow> nat \<Rightarrow> c_error + bitmap" where
  "bitmap_fill dst nbits =
     (let nlongs = BITS_TO_LONGS nbits
      in sbind (if \<not> small_nbits nbits then buf_write dst 0 (replicate (nlongs - 1) (- 1)) else Inr dst) (\<lambda>dst'.
           if nlongs = 0 then Inl Out_of_bounds
           else buf_put dst' (nlongs - 1) (BITMAP_LAST_WORD_MASK nbits)))"

definition bitmap_copy :: "bitmap \<Rightarrow> bitmap \<Rightarrow> nat \<Rightarrow> c_error + bitmap" where
  "bitmap_copy dst src nbits =
     (if small_nbits nbits then sbind (buf_get src 0) (\<lambda>w. buf_put dst 0 w)
      else if BITS_TO_LONGS nbits \<le> length src then buf_write dst 0 (take (BITS_TO_LONGS nbits) src)
      else Inl Out_of_bounds)"

definition small_op :: "(u64 \<Rightarrow> u64 \<Rightarrow> u64) \<Rightarrow> bitmap \<Rightarrow> bitmap \<Rightarrow> bitmap \<Rightarrow> c_error + bool \<times> bitmap" where
  "small_op f dst src1 src2 =
     sbind (buf_get src1 0) (\<lambda>w1. sbind (buf_get src2 0) (\<lambda>w2.
     sbind (buf_put dst 0 (f w1 w2)) (\<lambda>dst'. Inr (f w1 w2 \<noteq> 0, dst'))))"

definition bitmap_and :: "bitmap \<Rightarrow> bitmap \<Rightarrow> bitmap \<Rightarrow> nat \<Rightarrow> c_error + bool \<times> bitmap" where
  "bitmap_and dst src1 src2 nbits =
     (if small_nbits nbits then small_op (\<lambda>x y. x AND y) dst src1 src2 else slow_bitmap_and dst src1 src2 nbits)"

definition bitmap_or :: "bitmap \<Rightarrow> bitmap \<Rightarrow> bitmap \<Rightarrow> nat \<Rightarrow> c_error + bitmap" where
  "bitmap_or dst src1 src2 nbits =
     (if small_nbits nbits then sbind (small_op (\<lambda>x y. x OR y) dst src1 src2) (\<lambda>(_, dst'). Inr dst')
      else slow_bitmap_or dst src1 src2 nbits)"

definition bitmap_xor :: "bitmap \<Rightarrow> bitmap \<Rightarrow> bitmap \<Rightarrow> nat \<Rightarrow> c_error + bitmap" where
  "bitmap_xor dst src1 src2 nbits =
     (if small_nbits nbits then sbind (small_op (\<lambda>x y. x XOR y) dst src1 src2) (\<lambda>(_, dst'). Inr dst')
      else slow_bitmap_xor dst src1 src2 nbits)"

definition bitmap_andnot :: "bitmap \<Rightarrow> bitmap \<Rightarrow> bitmap \<Rightarrow> nat \<Rightarrow> c_error + bool \<times> bitmap" where
  "bitmap_andnot dst src1 src2 nbits =
     (if small_nbits nbits then small_op (\<lambda>x y. x AND NOT y) dst src1 src2 else slow_bitmap_andnot dst src1 src2 nbits)"

definition bitmap_complement :: "bitmap \<Rightarrow> bitmap \<Rightarrow> nat \<Rightarrow> c_error + bitmap" where
  "bitmap_complement dst src nbits =
     (if small_nbits nbits
      then sbind (buf_get src 0) (\<lambda>w. buf_put dst 0 (NOT w AND BITMAP_LAST_WORD_MASK nbits))
      else slow_bitmap_complement dst src nbits)"

definition bitmap_equal :: "bitmap \<Rightarrow> bitmap \<Rightarrow> nat \<Rightarrow> c_error + bool" where
  "bitmap_equal src1 src2 nbits =
     (if small_nbits nbits
      then sbind (buf_get src1 0) (\<lambda>w1. sbind (buf_get src2 0) (\<lambda>w2.
             Inr (\<not> (w1 XOR w2) AND BITMAP_LAST_WORD_MASK nbits \<noteq> 0)))
      else slow_bitmap_equal src1 src2 nbits)"

definition bitmap_empty :: "bitmap \<Rightarrow> nat \<Rightarrow> c_error + bool" where
  "bitmap_empty src nbits =
     (if small_nbits nbits then sbind (buf_get src 0) (\<lambda>w. Inr (\<not> w AND BITMAP_LAST_WORD_MASK nbits \<noteq> 0))
      else slow_bitmap_empty src nbits)"

definition bitmap_full :: "bitmap \<Rightarrow> nat \<Rightarrow> c_error + bool" where
  "bitmap_full src nbits =
     (if small_nbits nbits then sbind (buf_get src 0) (\<lambda>w. Inr (\<not> NOT w AND BITMAP_LAST_WORD_MASK nbits \<noteq> 0))
      else slow_bitmap_full src nbits)"

definition bitmap_intersects :: "bitmap \<Rightarrow> bitmap \<Rightarrow> nat \<Rightarrow> c_error + bool" where
  "bitmap_intersects src1 src2 nbits =
     (if small_nbits nbits
      then sbind (buf_get src1 0) (\<lambda>w1. sbind (buf_get src2 0) (\<lambda>w2.
             Inr ((w1 AND w2) AND BITMAP_LAST_WORD_MASK nbits \<noteq> 0)))
      else slow_bitmap_intersects src1 src2 nbits)"


section \<open>The bits of a bitmap\<close>

definition bit_at :: "bitmap \<Rightarrow> nat \<Rightarrow> bool" where
  "bit_at bm i \<longleftrightarrow> i div 64 < length bm \<and> bit (bm ! (i div 64)) (i mod 64)"

text \<open>The first position from \<open>lo\<close> on, below \<open>hi\<close>, with a property, or \<open>hi\<close>.\<close>

definition next_index :: "(nat \<Rightarrow> bool) \<Rightarrow> nat \<Rightarrow> nat \<Rightarrow> nat" where
  "next_index P lo hi = (case filter P [lo..<hi] of [] \<Rightarrow> hi | i # _ \<Rightarrow> i)"

lemma next_index_none: "all_in (\<lambda>i. \<not> P i) lo hi \<Longrightarrow> next_index P lo hi = hi"
  by (auto simp: next_index_def all_in_def filter_empty_conv split: list.split dest!: filter_eq_ConsD)

lemma next_index_skip:
  assumes "all_in (\<lambda>i. \<not> P i) lo mid" "lo \<le> mid" "mid \<le> hi"
  shows "next_index P lo hi = next_index P mid hi"
proof -
  have "[lo..<hi] = [lo..<mid] @ [mid..<hi]" using assms(2,3) by (metis le_Suc_ex upt_add_eq_append)
  moreover have "filter P [lo..<mid] = []" using assms(1) by (auto simp: filter_empty_conv all_in_def)
  ultimately show ?thesis by (simp add: next_index_def)
qed

lemma next_index_hit:
  assumes "all_in (\<lambda>i. \<not> P i) lo r" "lo \<le> r" "r < hi" "P r"
  shows "next_index P lo hi = r"
  using next_index_skip [OF assms(1,2), of hi] assms(3,4) by (simp add: next_index_def upt_conv_Cons)

lemma next_index_cases:
  "lo \<le> hi \<Longrightarrow> (next_index P lo hi = hi \<and> all_in (\<lambda>i. \<not> P i) lo hi) \<or>
     (lo \<le> next_index P lo hi \<and> next_index P lo hi < hi \<and> P (next_index P lo hi) \<and>
      all_in (\<lambda>i. \<not> P i) lo (next_index P lo hi))"
proof (cases "\<exists>i. lo \<le> i \<and> i < hi \<and> P i")
  case True
  define r where "r = (LEAST i. lo \<le> i \<and> i < hi \<and> P i)"
  have r: "lo \<le> r \<and> r < hi \<and> P r" unfolding r_def using True by (rule LeastI_ex)
  have "\<not> P i" if "lo \<le> i" "i < r" for i
    using not_less_Least [of i "\<lambda>i. lo \<le> i \<and> i < hi \<and> P i"] that r by (auto simp: r_def [symmetric])
  then have "all_in (\<lambda>i. \<not> P i) lo r" by (auto simp: all_in_def)
  then show ?thesis using next_index_hit [of P lo r hi] r by simp
qed (auto simp: next_index_none all_in_def)

lemma bit_at_word: "k < length bm \<Longrightarrow> j < 64 \<Longrightarrow> bit_at bm (64 * k + j) = bit (bm ! k) j"
  by (simp add: bit_at_def)

lemma low_ones: "n \<le> 64 \<Longrightarrow> bit (drop_bit (64 - n) (- 1 :: u64)) j \<longleftrightarrow> j < n"
  by (auto simp: bit_simps)

section \<open>The searches find the first bit\<close>

lemma word_hit:
  assumes "tmp \<noteq> (0 :: u64)" "base \<le> lo"
    and b: "\<And>j. j < 64 \<Longrightarrow> bit tmp j \<longleftrightarrow> lo \<le> base + j \<and> base + j < hi \<and> P (base + j)"
  shows "found_middle tmp base = next_index P lo hi"
proof -
  define c where "c = ctz64 tmp"
  have c: "c < 64" "bit tmp c" "\<forall>i<c. \<not> bit tmp i" using ctz64_lowest [OF assms(1)] by (auto simp: c_def)
  have "\<not> P i" if "lo \<le> i" "i < base + c" for i
    using that b [of "i - base"] c assms(2) b [of c] by auto
  then have "next_index P lo hi = base + c"
    using b [OF c(1)] c(2) by (intro next_index_hit) (auto simp: all_in_def)
  then show ?thesis by (simp add: found_middle_def c_def)
qed

lemma word_miss:
  assumes "tmp = (0 :: u64)" "base \<le> lo"
    and b: "\<And>j. j < 64 \<Longrightarrow> bit tmp j \<longleftrightarrow> lo \<le> base + j \<and> base + j < hi \<and> P (base + j)"
  shows "all_in (\<lambda>i. \<not> P i) lo (min (base + 64) hi)"
proof (rule all_inI)
  fix i assume i: "lo \<le> i" "i < min (base + 64) hi"
  have "i - base < 64" using i assms(2) by linarith
  then show "\<not> P i" using b [of "i - base"] assms(1,2) i by auto
qed

lemma found_first_next:
  assumes n: "n < 64" "base \<le> lo" "lo \<le> base + n"
    and b: "\<And>j. j < 64 \<Longrightarrow> bit tmp j \<longleftrightarrow> lo \<le> base + j \<and> P (base + j)"
  shows "found_first tmp base n = next_index P lo (base + n)"
proof -
  define t where "t = tmp AND drop_bit (64 - n) (- 1)"
  have t: "\<And>j. j < 64 \<Longrightarrow> bit t j \<longleftrightarrow> lo \<le> base + j \<and> base + j < base + n \<and> P (base + j)"
    using b n(1) low_ones [of n] by (auto simp: t_def bit_and_iff)
  show ?thesis
  proof (cases "t = 0")
    case True
    have "all_in (\<lambda>i. \<not> P i) lo (base + n)" using word_miss [OF True n(2) t] n(1) by simp
    then show ?thesis using True by (simp add: found_first_def t_def next_index_none)
  next
    case False
    then show ?thesis using word_hit [OF False n(2) t] by (simp add: found_first_def t_def)
  qed
qed

lemma scan_words_next:
  assumes "result = 64 * p" "result + sz \<le> 64 * length addr"
  shows "scan_words addr p result sz = Inr (next_index (bit_at addr) result (result + sz))"
  using assms
proof (induction addr p result sz rule: scan_words.induct)
  case (1 addr p result sz)
  have w: "bit (addr ! p) j = bit_at addr (result + j)" if "j < 64" "p < length addr" for j
    using that "1.prems" bit_at_word [of p addr j] by simp
  consider "64 \<le> sz" | "sz = 0" | "0 < sz" "sz < 64" by linarith
  then show ?case
  proof cases
    case 1
    then have p: "p < length addr" using "1.prems" by linarith
    show ?thesis
    proof (cases "addr ! p = 0")
      case True
      have "all_in (\<lambda>i. \<not> bit_at addr i) result (result + 64)"
        using word_miss [OF True order.refl, of result "result + sz" "bit_at addr"] w [OF _ p] 1 by (simp add: min_def)
      then have "next_index (bit_at addr) result (result + sz) = next_index (bit_at addr) (result + 64) (result + sz)"
        using 1 by (intro next_index_skip) auto
      then show ?thesis using "1.IH" [of "addr ! p"] p 1 True "1.prems" by (simp add: scan_words.simps [of addr p])
    next
      case False
      then show ?thesis using word_hit [OF False order.refl, of result "result + sz" "bit_at addr"] w [OF _ p] 1 p
        by (simp add: scan_words.simps [of addr p])
    qed
  next
    case 2
    then show ?thesis by (simp add: scan_words.simps next_index_none)
  next
    case 3
    then have p: "p < length addr" using "1.prems" by linarith
    then show ?thesis using 3 found_first_next [of sz result result "addr ! p" "bit_at addr"] w [OF _ p]
      by (simp add: scan_words.simps [of addr p])
  qed
qed

lemma scan_four_next:
  assumes "result = 64 * p" "result + sz \<le> 64 * length addr"
  shows "scan_four addr p result sz = Inr (next_index (bit_at addr) result (result + sz))"
  using assms
proof (induction addr p result sz rule: scan_four.induct)
  case (1 addr p result sz)
  have w: "bit (addr ! k) j = bit_at addr (64 * k + j)" if "j < 64" "k < length addr" for j k
    using that bit_at_word [of k addr j] by simp
  show ?case
  proof (cases "4 * 64 \<le> sz")
    case big: True
    then have p: "p + 3 < length addr" using "1.prems" by linarith
    consider "addr ! p \<noteq> 0" | "addr ! p = 0" "(addr ! (p + 1) OR addr ! (p + 2)) OR addr ! (p + 3) \<noteq> 0"
      | "addr ! p = 0" "addr ! (p + 1) = 0" "addr ! (p + 2) = 0" "addr ! (p + 3) = 0"
      by (auto simp: or_eq_0_iff)
    then show ?thesis
    proof cases
      case 1
      then show ?thesis using word_hit [OF 1 order.refl, of result "result + sz" "bit_at addr"] w [of _ p] big p "1.prems"
        by (simp add: scan_four.simps [of addr p])
    next
      case 2
      then show ?thesis using scan_words_next [OF "1.prems"] big p by (simp add: scan_four.simps [of addr p])
    next
      case 3
      have z: "all_in (\<lambda>i. \<not> bit_at addr i) result (result + 256)"
      proof (rule all_inI)
        fix i assume i: "result \<le> i" "i < result + 256"
        have "i div 64 \<in> {p, p + 1, p + 2, p + 3}" using i "1.prems"(1) by auto
        then show "\<not> bit_at addr i" using 3 by (auto simp: bit_at_def)
      qed
      then have "next_index (bit_at addr) result (result + sz) = next_index (bit_at addr) (result + 256) (result + sz)"
        using big by (intro next_index_skip) auto
      then show ?thesis using "1.IH" [of "addr ! p" "addr ! (p + 1)" "addr ! (p + 2)" "addr ! (p + 3)"] p big 3 "1.prems"
        by (simp add: scan_four.simps [of addr p])
    qed
  next
    case False
    then show ?thesis using scan_words_next [OF "1.prems"] by (simp add: scan_four.simps [of addr p])
  qed
qed


lemma next_index_cong:
  assumes "\<And>i. lo \<le> i \<Longrightarrow> i < hi \<Longrightarrow> P i = Q i"
  shows "next_index P lo hi = next_index Q lo hi"
proof -
  have "filter P [lo..<hi] = filter Q [lo..<hi]" by (rule filter_cong) (auto simp: assms)
  then show ?thesis by (simp add: next_index_def)
qed

lemma find_next_bit_next:
  assumes "sz \<le> 64 * length addr"
  shows "find_next_bit addr sz offset = Inr (next_index (bit_at addr) offset sz)"
proof (cases "sz \<le> offset")
  case True
  then show ?thesis by (simp add: find_next_bit_def next_index_none all_in_empty)
next
  case False
  define p base o' where "p = offset div 64" and "base = offset - offset mod 64" and "o' = offset mod 64"
  have b: "base = 64 * p" "offset = base + o'" "o' < 64" by (auto simp: p_def base_def o'_def minus_mod_eq_mult_div)
  have f: "offset div 64 = p" "offset mod 64 = o'" "offset - o' = base" by (simp_all add: p_def base_def o'_def)
  have p: "p < length addr" using False assms b by linarith
  show ?thesis
  proof (cases "o' = 0")
    case True
    then show ?thesis using False b assms scan_four_next [of base p "sz - base" addr]
      by (simp add: find_next_bit_def Let_def f)
  next
    case o: False
    define tmp where "tmp = addr ! p AND push_bit o' (- 1)"
    have t: "bit tmp j \<longleftrightarrow> offset \<le> base + j \<and> bit_at addr (base + j)" if "j < 64" for j
      using that bit_at_word [OF p that] b by (auto simp: tmp_def bit_simps)
    have e: "find_next_bit addr sz offset =
      (if sz - base < 64 then Inr (found_first tmp base (sz - base))
       else if tmp \<noteq> 0 then Inr (found_middle tmp base)
       else scan_four addr (p + 1) (base + 64) (sz - base - 64))"
      using False p o by (simp add: find_next_bit_def Let_def f tmp_def)
    consider "sz - base < 64" | "64 \<le> sz - base" "tmp \<noteq> 0" | "64 \<le> sz - base" "tmp = 0" by linarith
    then show ?thesis
    proof cases
      case 1
      then show ?thesis using e found_first_next [OF 1, of base offset tmp "bit_at addr"] t b False by simp
    next
      case 2
      have "found_middle tmp base = next_index (bit_at addr) offset sz"
        by (rule word_hit [OF 2(2)]) (use t b 2(1) in auto)
      then show ?thesis using e 2 by simp
    next
      case 3
      have "all_in (\<lambda>i. \<not> bit_at addr i) offset (min (base + 64) sz)"
        by (rule word_miss [OF 3(2)]) (use t b 3(1) in auto)
      then have "next_index (bit_at addr) offset sz = next_index (bit_at addr) (base + 64) sz"
        using 3(1) b by (intro next_index_skip) (simp_all add: min_absorb1)
      then show ?thesis using e 3 b assms scan_four_next [of "base + 64" "p + 1" "sz - base - 64" addr] by simp
    qed
  qed
qed

text \<open>The search for a zero bit is the search for a one bit in the complement.\<close>

lemma found_first_zero_eq: "n \<le> 64 \<Longrightarrow> found_first_zero tmp base n = found_first (NOT tmp) base n"
proof -
  assume n: "n \<le> 64"
  have m: "NOT (tmp OR push_bit n (- 1)) = NOT tmp AND drop_bit (64 - n) (- 1)"
    by (rule bit_word_eqI) (use n in \<open>auto simp: bit_simps\<close>)
  have "tmp OR push_bit n (- 1) = - 1 \<longleftrightarrow> NOT (tmp OR push_bit n (- 1)) = 0"
    by (metis bit.double_compl bit.compl_zero)
  then show ?thesis using m by (simp add: found_first_zero_def found_first_def Let_def)
qed

lemma buf_get_map_not: "buf_get (map NOT addr) p = sbind (buf_get addr p) (\<lambda>w. Inr (NOT w))"
  by (simp add: buf_get_def)

lemma scan_zero_words_eq: "scan_zero_words addr p result sz = scan_words (map NOT addr) p result sz"
proof (induction addr p result sz rule: scan_zero_words.induct)
  case (1 addr p result sz)
  show ?case
    by (subst scan_zero_words.simps, subst scan_words.simps)
       (use "1.IH" in \<open>auto simp: buf_get_map_not buf_get_def found_first_zero_eq\<close>)
qed

lemma bit_at_not: "bit_at (map NOT addr) i \<longleftrightarrow> i < 64 * length addr \<and> \<not> bit_at addr i"
  by (auto simp: bit_at_def bit_simps)

lemma find_next_zero_bit_eq: "sz \<le> 64 * length addr \<Longrightarrow> find_next_zero_bit addr sz offset = find_next_bit (map NOT addr) sz offset"
proof -
  assume sz: "sz \<le> 64 * length addr"
  define p base o' where "p = offset div 64" and "base = offset - offset mod 64" and "o' = offset mod 64"
  have b: "base = 64 * p" "offset = base + o'" "o' < 64" by (auto simp: p_def base_def o'_def minus_mod_eq_mult_div)
  have f: "offset div 64 = p" "offset mod 64 = o'" "offset - o' = base" by (simp_all add: p_def base_def o'_def)
  have m: "NOT (w OR drop_bit (64 - o') (- 1)) = NOT w AND push_bit o' (- 1)" for w :: u64
    by (rule bit_word_eqI) (use b(3) in \<open>auto simp: bit_simps\<close>)
  have s: "scan_zero_words addr k (64 * k) n = scan_four (map NOT addr) k (64 * k) n" if "64 * k + n \<le> 64 * length addr" for k n
    using that scan_four_next [of "64 * k" k n "map NOT addr"] scan_words_next [of "64 * k" k n "map NOT addr"]
    by (simp add: scan_zero_words_eq)
  show ?thesis
    using sz s [of p "sz - base"] s [of "p + 1" "sz - base - 64"] b
    by (auto simp: find_next_zero_bit_def find_next_bit_def Let_def f
        buf_get_map_not buf_get_def m found_first_zero_eq add.commute [of "64 * p" 64])
qed

lemma find_next_zero_bit_next:
  assumes "sz \<le> 64 * length addr"
  shows "find_next_zero_bit addr sz offset = Inr (next_index (\<lambda>i. \<not> bit_at addr i) offset sz)"
  using find_next_bit_next [of sz "map NOT addr" offset] assms
  by (simp add: find_next_zero_bit_eq, intro next_index_cong) (simp add: bit_at_not)

definition last_index :: "(nat \<Rightarrow> bool) \<Rightarrow> nat \<Rightarrow> nat" where
  "last_index P hi = (case rev (filter P [0..<hi]) of [] \<Rightarrow> hi | i # _ \<Rightarrow> i)"

lemma last_index_hit: "r < hi \<Longrightarrow> P r \<Longrightarrow> all_in (\<lambda>i. \<not> P i) (Suc r) hi \<Longrightarrow> last_index P hi = r"
proof -
  assume r: "r < hi" "P r" "all_in (\<lambda>i. \<not> P i) (Suc r) hi"
  have "[0..<hi] = [0..<r] @ [r] @ [Suc r..<hi]" using r(1)
    by (metis append_Cons append_Nil le_add1 less_imp_le_nat upt_add_eq_append upt_conv_Cons le_add_diff_inverse plus_nat.add_0)
  moreover have "filter P [Suc r..<hi] = []" using r(3) by (auto simp: filter_empty_conv all_in_def)
  ultimately show ?thesis using r(2) by (simp add: last_index_def)
qed

lemma last_index_none: "all_in (\<lambda>i. \<not> P i) 0 hi \<Longrightarrow> last_index P hi = hi"
  by (auto simp: last_index_def all_in_def filter_empty_conv split: list.split)

lemma word_last:
  assumes t: "tmp \<noteq> (0 :: u64)" and b: "\<And>j. j < 64 \<Longrightarrow> bit tmp j \<longleftrightarrow> 64 * k + j < hi \<and> P (64 * k + j)"
    and n: "all_in (\<lambda>i. \<not> P i) (64 * k + 64) hi"
  shows "k * 64 + 64 - 1 - clz64 tmp = last_index P hi"
proof -
  define c where "c = 63 - clz64 tmp"
  have c: "clz64 tmp < 64" "bit tmp c" "\<forall>i>c. \<not> bit tmp i" using clz64_highest [OF t] by (auto simp: c_def)
  have "c < 64" by (simp add: c_def)
  then have r: "64 * k + c < hi" "P (64 * k + c)" using b [of c] c(2) by auto
  have "\<not> P i" if "Suc (64 * k + c) \<le> i" "i < hi" for i
  proof (cases "i < 64 * k + 64")
    case True
    then show ?thesis using b [of "i - 64 * k"] c(3) that by auto
  qed (use n that in \<open>auto simp: all_in_def\<close>)
  then have "last_index P hi = 64 * k + c" using r by (intro last_index_hit) (auto simp: all_in_def)
  then show ?thesis using c(1) by (simp add: c_def)
qed

lemma last_in_words_last:
  "64 * words \<le> sz \<Longrightarrow> sz \<le> 64 * length addr \<Longrightarrow> all_in (\<lambda>i. \<not> bit_at addr i) (64 * words) sz \<Longrightarrow>
   last_in_words addr sz words = Inr (last_index (bit_at addr) sz)"
proof (induction words)
  case (Suc k)
  have k: "k < length addr" using Suc.prems(1,2) by simp
  show ?case
  proof (cases "addr ! k = 0")
    case True
    have "\<not> bit_at addr i" if "64 * k \<le> i" "i < sz" for i
    proof (cases "i < 64 * Suc k")
      case t: True
      then have "i div 64 = k" using that by auto
      then show ?thesis using True by (simp add: bit_at_def)
    qed (use that Suc.prems(3) in \<open>auto simp: all_in_def\<close>)
    then show ?thesis using Suc k True by (simp add: all_in_def)
  next
    case False
    have "k * 64 + 64 - 1 - clz64 (addr ! k) = last_index (bit_at addr) sz"
      by (rule word_last [OF False]) (use Suc.prems bit_at_word [OF k] in \<open>auto simp: add.commute\<close>)
    then show ?thesis using k False by simp
  qed
qed (simp add: last_index_none)

lemma find_last_bit_last:
  assumes "sz \<le> 64 * length addr"
  shows "find_last_bit addr sz = Inr (last_index (bit_at addr) sz)"
proof (cases "sz mod 64 = 0")
  case True
  then have "64 * (sz div 64) = sz" by auto
  then show ?thesis using True assms last_in_words_last [of "sz div 64" sz addr] by (simp add: find_last_bit_def)
next
  case False
  define k where "k = sz div 64"
  have k2: "64 * k + sz mod 64 = sz" and r: "sz mod 64 < 64" by (simp_all add: k_def)
  have "64 * k < 64 * length addr" using k2 False assms by linarith
  then have k: "k < length addr" "64 * k + sz mod 64 = sz" using k2 by simp_all
  define tmp where "tmp = addr ! k AND drop_bit (64 - sz mod 64) (- 1)"
  have t: "bit tmp j \<longleftrightarrow> 64 * k + j < sz \<and> bit_at addr (64 * k + j)" if "j < 64" for j
    using that bit_at_word [OF k(1) that] low_ones [of "sz mod 64" j] k(2) by (auto simp: tmp_def bit_and_iff)
  have e: "find_last_bit addr sz = (if tmp \<noteq> 0 then Inr (k * 64 + 64 - 1 - clz64 tmp) else last_in_words addr sz k)"
    using False k(1) by (simp add: find_last_bit_def Let_def k_def [symmetric] tmp_def)
  show ?thesis
  proof (cases "tmp = 0")
    case True
    have "all_in (\<lambda>i. \<not> bit_at addr i) (64 * k) sz"
    proof (rule all_inI)
      fix i assume "64 * k \<le> i" "i < sz"
      moreover then have "i - 64 * k < 64" using k2 r by linarith
      ultimately show "\<not> bit_at addr i" using t [of "i - 64 * k"] True by auto
    qed
    then show ?thesis using e True last_in_words_last [of k sz addr] k(2) assms by simp
  next
    case False
    have "all_in (\<lambda>i. \<not> bit_at addr i) (64 * k + 64) sz" using k2 r by (intro all_in_empty) linarith
    then show ?thesis using e False word_last [OF False t] by simp
  qed
qed


section \<open>The bitmap operations work bit by bit\<close>

lemma last_word_mask_bit:
  "j < 64 \<Longrightarrow> bit (BITMAP_LAST_WORD_MASK n) j \<longleftrightarrow> (n mod 64 \<noteq> 0 \<longrightarrow> j < n mod 64)"
proof -
  have "push_bit k (1 :: u64) - 1 = mask k" for k by (simp add: mask_eq_exp_minus_1 push_bit_eq_mult)
  then show "j < 64 \<Longrightarrow> ?thesis" by (auto simp: BITMAP_LAST_WORD_MASK_def bit_simps simp del: push_bit_of_1)
qed

lemma first_word_mask_bit: "j < 64 \<Longrightarrow> bit (BITMAP_FIRST_WORD_MASK n) j \<longleftrightarrow> n mod 64 \<le> j"
  by (simp add: BITMAP_FIRST_WORD_MASK_def bit_simps not_less)

lemma upd_word_in: "k < length bm \<Longrightarrow> upd_word bm k f = Inr (bm[k := f (bm ! k)])"
  by (simp add: upd_word_def buf_put_def)

lemma bit_at_upd:
  "k < length bm \<Longrightarrow> bit_at (bm[k := w]) i \<longleftrightarrow> (if i div 64 = k then bit w (i mod 64) else bit_at bm i)"
  by (simp add: bit_at_def nth_list_update)

text \<open>Updates that act on each bit: \<open>g m b\<close> is the new bit for the mask bit \<open>m\<close> and the old bit \<open>b\<close>.\<close>

definition bitwise :: "(u64 \<Rightarrow> u64 \<Rightarrow> u64) \<Rightarrow> (bool \<Rightarrow> bool \<Rightarrow> bool) \<Rightarrow> bool" where
  "bitwise upd g \<longleftrightarrow> (\<forall>m w j. j < 64 \<longrightarrow> bit (upd m w) j = g (bit m j) (bit w j)) \<and> (\<forall>b. g False b = b)"

lemma bitwise_word:
  assumes "bitwise upd g" "k < length bm" "\<And>j. j < 64 \<Longrightarrow> bit m j \<longleftrightarrow> lo \<le> 64 * k + j \<and> 64 * k + j < hi"
    and "i < 64 * length bm"
  shows "bit_at (bm[k := upd m (bm ! k)]) i = g (i div 64 = k \<and> lo \<le> i \<and> i < hi) (bit_at bm i)"
proof (cases "i div 64 = k")
  case True
  then have i: "i = 64 * k + i mod 64" by auto
  then have "bit m (i mod 64) \<longleftrightarrow> lo \<le> i \<and> i < hi" using assms(3) [of "i mod 64"] by simp
  moreover have "bit_at bm i = bit (bm ! k) (i mod 64)" using True assms(2) by (simp add: bit_at_def)
  ultimately show ?thesis using assms(1) True by (simp add: bit_at_upd [OF assms(2)] bitwise_def)
qed (use assms in \<open>simp add: bit_at_upd [OF assms(2)] bitwise_def\<close>)

lemma bitwise_compose: "bitwise upd g \<Longrightarrow> \<not> (a \<and> b) \<Longrightarrow> g a (g b x) = g (a \<or> b) x"
  by (cases a; cases b) (auto simp: bitwise_def)

lemma range_words_bits:
  assumes "bitwise upd g" "sz = 64 * p + nr" "sz \<le> 64 * length bm"
  shows "\<exists>bm'. range_words upd bm p nr sz = Inr bm' \<and> length bm' = length bm \<and>
    (\<forall>i < 64 * length bm. bit_at bm' i = g (64 * p \<le> i \<and> i < sz) (bit_at bm i))"
  using assms
proof (induction upd bm p nr sz rule: range_words.induct)
  case (1 upd bm p nr sz)
  note g = "1.prems"(1)
  consider "64 \<le> nr" | "nr = 0" | "0 < nr" "nr < 64" by linarith
  then show ?case
  proof cases
    case 1
    then have p: "p < length bm" using "1.prems" by linarith
    define b1 where "b1 = bm[p := upd (- 1) (bm ! p)]"
    obtain bm' where r: "range_words upd b1 (p + 1) (nr - 64) sz = Inr bm'" "length bm' = length bm"
      "\<forall>i < 64 * length bm. bit_at bm' i = g (64 * (p + 1) \<le> i \<and> i < sz) (bit_at b1 i)"
      using "1.IH" [of b1] 1 p "1.prems" by (auto simp: upd_word_in b1_def)
    have "bit_at bm' i = g (64 * p \<le> i \<and> i < sz) (bit_at bm i)" if "i < 64 * length bm" for i
    proof -
      have b: "bit_at b1 i = g (i div 64 = p \<and> 64 * p \<le> i \<and> i < 64 * p + 64) (bit_at bm i)"
        unfolding b1_def by (rule bitwise_word [OF g p]) (use that in auto)
      have "(64 * p \<le> i \<and> i < sz) = ((64 * (p + 1) \<le> i \<and> i < sz) \<or> (i div 64 = p \<and> 64 * p \<le> i \<and> i < 64 * p + 64))"
        using 1 "1.prems"(2) by auto
      then show ?thesis using r(3) that b bitwise_compose [OF g, of "64 * (p + 1) \<le> i \<and> i < sz"] by auto
    qed
    then show ?thesis using r 1 p by (subst range_words.simps) (auto simp: upd_word_in b1_def)
  next
    case 2
    have "g (64 * p \<le> i \<and> i < sz) b = b" for i b using g 2 "1.prems"(2) by (cases "64 * p \<le> i") (simp_all add: bitwise_def)
    then show ?thesis using 2 by (subst range_words.simps) simp
  next
    case 3
    then have p: "p < length bm" using "1.prems" by linarith
    have m: "sz mod 64 = nr" using 3 "1.prems"(2) by simp
    have "bit_at (bm[p := upd (BITMAP_LAST_WORD_MASK sz) (bm ! p)]) i =
        g (i div 64 = p \<and> 64 * p \<le> i \<and> i < sz) (bit_at bm i)" if "i < 64 * length bm" for i
      by (rule bitwise_word [OF g p _ that]) (use 3 m "1.prems"(2) in \<open>auto simp: last_word_mask_bit\<close>)
    moreover have "(i div 64 = p \<and> 64 * p \<le> i \<and> i < sz) = (64 * p \<le> i \<and> i < sz)" for i
      using 3 "1.prems"(2) by auto
    ultimately show ?thesis using 3 p by (subst range_words.simps) (auto simp: upd_word_in)
  qed
qed

lemma bitmap_range_bits:
  assumes g: "bitwise upd g" and s: "start + nr \<le> 64 * length bm"
  shows "\<exists>bm'. bitmap_range upd bm start nr = Inr bm' \<and> length bm' = length bm \<and>
    (\<forall>i < 64 * length bm. bit_at bm' i = g (start \<le> i \<and> i < start + nr) (bit_at bm i))"
proof -
  define p o' where "p = start div 64" and "o' = start mod 64"
  have b: "start = 64 * p + o'" "o' < 64" by (auto simp: p_def o'_def)
  note f = p_def [symmetric] o'_def [symmetric]
  consider "nr = 0" | "0 < nr" "nr < 64 - o'" | "64 - o' \<le> nr" by linarith
  then show ?thesis
  proof cases
    case 1
    have "g (start \<le> i \<and> i < start + nr) b = b" for i b using g 1 by (cases "start \<le> i") (simp_all add: bitwise_def)
    then show ?thesis using 1 b by (simp add: bitmap_range_def Let_def f)
  next
    case 2
    then have p: "p < length bm" using s b by linarith
    have m: "(start + nr) mod 64 = o' + nr" using b 2 by (simp add: add.assoc)
    let ?m = "BITMAP_FIRST_WORD_MASK start AND BITMAP_LAST_WORD_MASK (start + nr)"
    have "bit_at (bm[p := upd ?m (bm ! p)]) i = g (i div 64 = p \<and> start \<le> i \<and> i < start + nr) (bit_at bm i)"
      if "i < 64 * length bm" for i
      by (rule bitwise_word [OF g p _ that]) (use b m 2 in \<open>auto simp: bit_and_iff first_word_mask_bit last_word_mask_bit\<close>)
    moreover have "(i div 64 = p \<and> start \<le> i \<and> i < start + nr) = (start \<le> i \<and> i < start + nr)" for i
      using b 2 by auto
    ultimately show ?thesis using 2 p by (auto simp: bitmap_range_def Let_def f BIT_WORD_def upd_word_in)
  next
    case 3
    then have p: "p < length bm" using s b by linarith
    define b1 where "b1 = bm[p := upd (BITMAP_FIRST_WORD_MASK start) (bm ! p)]"
    obtain bm' where r: "range_words upd b1 (p + 1) (nr - (64 - o')) (start + nr) = Inr bm'" "length bm' = length bm"
      "\<forall>i < 64 * length bm. bit_at bm' i = g (64 * (p + 1) \<le> i \<and> i < start + nr) (bit_at b1 i)"
      using range_words_bits [OF g, of "start + nr" "p + 1" "nr - (64 - o')" b1] b 3 s by (auto simp: b1_def)
    have "bit_at bm' i = g (start \<le> i \<and> i < start + nr) (bit_at bm i)" if "i < 64 * length bm" for i
    proof -
      have e: "bit_at b1 i = g (i div 64 = p \<and> start \<le> i \<and> i < 64 * p + 64) (bit_at bm i)"
        unfolding b1_def by (rule bitwise_word [OF g p _ that]) (use b in \<open>auto simp: first_word_mask_bit\<close>)
      have "(start \<le> i \<and> i < start + nr) =
          ((64 * (p + 1) \<le> i \<and> i < start + nr) \<or> (i div 64 = p \<and> start \<le> i \<and> i < 64 * p + 64))"
        using b 3 by auto
      then show ?thesis using r(3) that e bitwise_compose [OF g, of "64 * (p + 1) \<le> i \<and> i < start + nr"] by auto
    qed
    then show ?thesis using r 3 p by (auto simp: bitmap_range_def Let_def f BIT_WORD_def upd_word_in b1_def)
  qed
qed


lemma zip_words_words:
  assumes "k + n \<le> length dst" "k + n \<le> length bm1" "k + n \<le> length bm2"
  shows "\<exists>dst'. zip_words f dst bm1 bm2 k result n =
      Inr (result \<noteq> 0 \<or> (\<exists>i. k \<le> i \<and> i < k + n \<and> f (bm1 ! i) (bm2 ! i) \<noteq> 0), dst') \<and>
    length dst' = length dst \<and> (\<forall>i. dst' ! i = (if k \<le> i \<and> i < k + n then f (bm1 ! i) (bm2 ! i) else dst ! i))"
  using assms
proof (induction n arbitrary: k dst result)
  case (Suc n)
  let ?w = "f (bm1 ! k) (bm2 ! k)"
  have s: "(k \<le> i \<and> i < k + Suc n) = (i = k \<or> Suc k \<le> i \<and> i < Suc k + n)" for i by auto
  obtain dst' where d: "zip_words f (dst[k := ?w]) bm1 bm2 (Suc k) (result OR ?w) n =
      Inr (result OR ?w \<noteq> 0 \<or> (\<exists>i. Suc k \<le> i \<and> i < Suc k + n \<and> f (bm1 ! i) (bm2 ! i) \<noteq> 0), dst')"
    "length dst' = length dst"
    "\<forall>i. dst' ! i = (if Suc k \<le> i \<and> i < Suc k + n then f (bm1 ! i) (bm2 ! i) else dst[k := ?w] ! i)"
    using Suc.IH [of "Suc k" "dst[k := ?w]" "result OR ?w"] Suc.prems by auto
  have "(result OR ?w \<noteq> 0 \<or> (\<exists>i. Suc k \<le> i \<and> i < Suc k + n \<and> f (bm1 ! i) (bm2 ! i) \<noteq> 0)) =
    (result \<noteq> 0 \<or> (\<exists>i. k \<le> i \<and> i < k + Suc n \<and> f (bm1 ! i) (bm2 ! i) \<noteq> 0))"
    unfolding conj_assoc [symmetric] s by (auto simp: or_eq_0_iff)
  moreover have "\<forall>i. dst' ! i = (if k \<le> i \<and> i < k + Suc n then f (bm1 ! i) (bm2 ! i) else dst ! i)"
    unfolding s using d(3) Suc.prems(1) by (auto simp: nth_list_update)
  ultimately show ?case using d(1,2) Suc.prems by (auto simp: buf_put_def)
qed auto

lemma BITS_TO_LONGS_bounds: "nbits \<le> 64 * BITS_TO_LONGS nbits" "64 * BITS_TO_LONGS nbits < nbits + 64"
proof -
  have "64 * ((nbits + 63) div 64) + (nbits + 63) mod 64 = nbits + 63" by simp
  moreover have "(nbits + 63) mod 64 < 64" by simp
  ultimately show "nbits \<le> 64 * BITS_TO_LONGS nbits" "64 * BITS_TO_LONGS nbits < nbits + 64"
    unfolding BITS_TO_LONGS_def by linarith+
qed

text \<open>Word operations that act bit by bit.\<close>

definition bitwise2 :: "(u64 \<Rightarrow> u64 \<Rightarrow> u64) \<Rightarrow> (bool \<Rightarrow> bool \<Rightarrow> bool) \<Rightarrow> bool" where
  "bitwise2 f g \<longleftrightarrow> (\<forall>x y j. j < 64 \<longrightarrow> bit (f x y) j = g (bit x j) (bit y j))"

lemma zip_words_bits:
  assumes g: "bitwise2 f g" and n: "n \<le> length dst" "n \<le> length bm1" "n \<le> length bm2"
  shows "\<exists>dst'. zip_words f dst bm1 bm2 0 0 n = Inr (\<exists>i < 64 * n. g (bit_at bm1 i) (bit_at bm2 i), dst') \<and>
    length dst' = length dst \<and>
    (\<forall>i. bit_at dst' i = (if i < 64 * n then g (bit_at bm1 i) (bit_at bm2 i) else bit_at dst i))"
proof -
  obtain dst' where d: "zip_words f dst bm1 bm2 0 0 n = Inr (\<exists>i<n. f (bm1 ! i) (bm2 ! i) \<noteq> 0, dst')"
    "length dst' = length dst" "\<forall>i. dst' ! i = (if i < n then f (bm1 ! i) (bm2 ! i) else dst ! i)"
    using zip_words_words [of 0 n dst bm1 bm2 f 0] n by auto
  have b: "bit (f (bm1 ! (i div 64)) (bm2 ! (i div 64))) (i mod 64) = g (bit_at bm1 i) (bit_at bm2 i)" if "i < 64 * n" for i
    using g that n by (simp add: bitwise2_def bit_at_def less_mult_imp_div_less mult.commute)
  have "(\<exists>i<n. f (bm1 ! i) (bm2 ! i) \<noteq> 0) = (\<exists>i < 64 * n. g (bit_at bm1 i) (bit_at bm2 i))"
  proof
    assume "\<exists>i<n. f (bm1 ! i) (bm2 ! i) \<noteq> 0"
    then obtain i j where "i < n" "j < 64" "bit (f (bm1 ! i) (bm2 ! i)) j" by (auto simp: word_eq_bits)
    then show "\<exists>i < 64 * n. g (bit_at bm1 i) (bit_at bm2 i)" using b [of "64 * i + j"]
      by (intro exI [of _ "64 * i + j"]) auto
  next
    assume "\<exists>i < 64 * n. g (bit_at bm1 i) (bit_at bm2 i)"
    then obtain i where i: "i < 64 * n" "bit (f (bm1 ! (i div 64)) (bm2 ! (i div 64))) (i mod 64)" using b by auto
    then have "f (bm1 ! (i div 64)) (bm2 ! (i div 64)) \<noteq> 0" by auto
    then show "\<exists>i<n. f (bm1 ! i) (bm2 ! i) \<noteq> 0" using i(1) by (intro exI [of _ "i div 64"]) auto
  qed
  moreover have "bit_at dst' i = (if i < 64 * n then g (bit_at bm1 i) (bit_at bm2 i) else bit_at dst i)" for i
    using d(2,3) b [of i] n by (auto simp: bit_at_def)
  ultimately show ?thesis using d(1,2) by simp
qed


lemma any_word_ex:
  "(\<And>i. k \<le> i \<Longrightarrow> i < k + n \<Longrightarrow> test i = Inr (Q i)) \<Longrightarrow> any_word test k n = Inr (\<exists>i. k \<le> i \<and> i < k + n \<and> Q i)"
proof (induction n arbitrary: k)
  case (Suc n)
  have "any_word test (Suc k) n = Inr (\<exists>i. Suc k \<le> i \<and> i < Suc k + n \<and> Q i)" using Suc.prems by (intro Suc.IH) auto
  moreover have "(\<exists>i. k \<le> i \<and> i < k + Suc n \<and> Q i) = (Q k \<or> (\<exists>i. Suc k \<le> i \<and> i < Suc k + n \<and> Q i))"
  proof -
    have s: "(k \<le> i \<and> i < k + Suc n) = (i = k \<or> Suc k \<le> i \<and> i < Suc k + n)" for i by auto
    show ?thesis unfolding conj_assoc [symmetric] s by blast
  qed
  ultimately show ?case using Suc.prems [of k] by simp
qed auto

lemma word_ex_bit: "w AND m \<noteq> 0 \<longleftrightarrow> (\<exists>j<64. bit w j \<and> bit m j)" for w m :: u64
  by (auto simp: word_eq_bits bit_and_iff)

lemma whole_words_bits:
  assumes g: "bitwise2 f g" and n: "n \<le> length bm1" "n \<le> length bm2"
  shows "(\<exists>i<n. f (bm1 ! i) (bm2 ! i) \<noteq> 0) = (\<exists>i < 64 * n. g (bit_at bm1 i) (bit_at bm2 i))"
  using zip_words_words [of 0 n bm1 bm1 bm2 f 0] zip_words_bits [OF g n(1) n] n by auto

lemma last_word_bits:
  assumes g: "bitwise2 f g" and n: "n = 64 * k + r" "r < 64" "0 < r" "k < length bm1" "k < length bm2"
  shows "f (bm1 ! k) (bm2 ! k) AND BITMAP_LAST_WORD_MASK n \<noteq> 0 \<longleftrightarrow>
    (\<exists>i. 64 * k \<le> i \<and> i < n \<and> g (bit_at bm1 i) (bit_at bm2 i))"
proof -
  have m: "n mod 64 = r" using n by simp
  have "bit (f (bm1 ! k) (bm2 ! k)) j = g (bit_at bm1 (64 * k + j)) (bit_at bm2 (64 * k + j))" if "j < 64" for j
    using g that n by (simp add: bitwise2_def bit_at_word)
  then have "f (bm1 ! k) (bm2 ! k) AND BITMAP_LAST_WORD_MASK n \<noteq> 0 \<longleftrightarrow>
      (\<exists>j<64. g (bit_at bm1 (64 * k + j)) (bit_at bm2 (64 * k + j)) \<and> j < r)"
    using n(3) by (auto simp: word_ex_bit last_word_mask_bit m)
  also have "\<dots> \<longleftrightarrow> (\<exists>i. 64 * k \<le> i \<and> i < n \<and> g (bit_at bm1 i) (bit_at bm2 i))"
    using n(1,2) by (auto simp: le_iff_add) (use order.strict_trans in blast)
  finally show ?thesis .
qed

lemma some_bit:
  assumes g: "bitwise2 f g" and n: "nbits \<le> 64 * length bm1" "nbits \<le> 64 * length bm2"
  shows "((\<exists>i < nbits div 64. f (bm1 ! i) (bm2 ! i) \<noteq> 0) \<or>
      nbits mod 64 \<noteq> 0 \<and> f (bm1 ! (nbits div 64)) (bm2 ! (nbits div 64)) AND BITMAP_LAST_WORD_MASK nbits \<noteq> 0) =
    (\<exists>i<nbits. g (bit_at bm1 i) (bit_at bm2 i))"
proof -
  define k r where "k = nbits div 64" and "r = nbits mod 64"
  have kr: "nbits = 64 * k + r" "r < 64" by (auto simp: k_def r_def)
  have k: "k \<le> length bm1" "k \<le> length bm2" using n kr by linarith+
  have w: "(\<exists>i<k. f (bm1 ! i) (bm2 ! i) \<noteq> 0) = (\<exists>i < 64 * k. g (bit_at bm1 i) (bit_at bm2 i))"
    by (rule whole_words_bits [OF g k])
  have s: "(\<exists>i<nbits. Q i) = ((\<exists>i < 64 * k. Q i) \<or> (\<exists>i. 64 * k \<le> i \<and> i < nbits \<and> Q i))" for Q
    using kr(1) by (metis add_lessD1 linorder_not_le trans_less_add1)
  show ?thesis
  proof (cases "r = 0")
    case True
    then show ?thesis using w kr by (auto simp: k_def [symmetric] r_def [symmetric])
  next
    case False
    then have "k < length bm1" "k < length bm2" using n kr by linarith+
    then have l: "f (bm1 ! k) (bm2 ! k) AND BITMAP_LAST_WORD_MASK nbits \<noteq> 0 \<longleftrightarrow>
      (\<exists>i. 64 * k \<le> i \<and> i < nbits \<and> g (bit_at bm1 i) (bit_at bm2 i))"
      using last_word_bits [OF g kr(1,2)] False by simp
    show ?thesis unfolding k_def [symmetric] r_def [symmetric] w l s [of "\<lambda>i. g (bit_at bm1 i) (bit_at bm2 i)"]
      using False by simp
  qed
qed

lemma bitwise2_ops:
  "bitwise2 (\<lambda>x y. x AND y) (\<and>)" "bitwise2 (\<lambda>x y. x OR y) (\<or>)" "bitwise2 (\<lambda>x y. x XOR y) (\<noteq>)"
  "bitwise2 (\<lambda>x y. x AND NOT y) (\<lambda>a b. a \<and> \<not> b)" "bitwise2 (\<lambda>x y. NOT x) (\<lambda>a b. \<not> a)" "bitwise2 (\<lambda>x y. x) (\<lambda>a b. a)"
  by (auto simp: bitwise2_def bit_simps)

text \<open>The tests on one word, for bitmaps of at most 64 bits.\<close>

lemma some_bit_small:
  assumes g: "bitwise2 f g" and n: "0 < nbits" "nbits \<le> 64" "bm1 \<noteq> []" "bm2 \<noteq> []"
  shows "f (bm1 ! 0) (bm2 ! 0) AND BITMAP_LAST_WORD_MASK nbits \<noteq> 0 \<longleftrightarrow> (\<exists>i<nbits. g (bit_at bm1 i) (bit_at bm2 i))"
proof (cases "nbits = 64")
  case True
  then have "BITMAP_LAST_WORD_MASK nbits = - 1" by (simp add: BITMAP_LAST_WORD_MASK_def)
  then show ?thesis using whole_words_bits [OF g, of 1 bm1 bm2] n True by (simp add: Suc_le_eq)
next
  case False
  then show ?thesis using last_word_bits [OF g, of nbits 0 nbits bm1 bm2] n by simp
qed

lemma any_word_get:
  assumes "n \<le> length bm1" "n \<le> length bm2"
  shows "any_word (\<lambda>k. sbind (buf_get bm1 k) (\<lambda>w1. sbind (buf_get bm2 k) (\<lambda>w2. Inr (Q w1 w2)))) 0 n = Inr (\<exists>i<n. Q (bm1 ! i) (bm2 ! i))"
    "any_word (\<lambda>k. sbind (buf_get bm1 k) (\<lambda>w1. Inr (R w1))) 0 n = Inr (\<exists>i<n. R (bm1 ! i))"
  using assms any_word_ex [of 0 n _ "\<lambda>i. Q (bm1 ! i) (bm2 ! i)"] any_word_ex [of 0 n _ "\<lambda>i. R (bm1 ! i)"] by simp_all

lemma last_word_in: "nbits \<le> 64 * length bm \<Longrightarrow> nbits mod 64 \<noteq> 0 \<Longrightarrow> nbits div 64 < length bm"
  by (metis div_mult_mod_eq le_neq_implies_less less_mult_imp_div_less mod_mult_self2_is_0 mult.commute)

lemma word_count_in: "nbits \<le> 64 * length bm \<Longrightarrow> nbits div 64 \<le> length bm"
  by (metis div_le_mono nonzero_mult_div_cancel_left zero_neq_numeral)

lemma bitmap_tests:
  assumes n: "0 < nbits" "nbits \<le> 64 * length bm1" "nbits \<le> 64 * length bm2"
  shows "bitmap_empty bm1 nbits = Inr (\<forall>i<nbits. \<not> bit_at bm1 i)"
    "bitmap_full bm1 nbits = Inr (\<forall>i<nbits. bit_at bm1 i)"
    "bitmap_equal bm1 bm2 nbits = Inr (\<forall>i<nbits. bit_at bm1 i = bit_at bm2 i)"
    "bitmap_intersects bm1 bm2 nbits = Inr (\<exists>i<nbits. bit_at bm1 i \<and> bit_at bm2 i)"
proof -
  have e: "bm1 \<noteq> []" "bm2 \<noteq> []" using n by auto
  note w = word_count_in [OF n(2)] word_count_in [OF n(3)]
  note l = last_word_in [OF n(2)] last_word_in [OF n(3)]
  have x: "(w1 XOR w2 = 0) = (w1 = w2)" for w1 w2 :: u64 by (auto simp: word_eq_bits bit_xor_iff)
  show "bitmap_empty bm1 nbits = Inr (\<forall>i<nbits. \<not> bit_at bm1 i)"
    using some_bit [OF bitwise2_ops(6) n(2,2)] some_bit_small [OF bitwise2_ops(6) n(1) _ e(1,1)] l e any_word_get(2) [OF w(1,1)]
    by (auto simp: bitmap_empty_def slow_bitmap_empty_def small_nbits_def)
  show "bitmap_full bm1 nbits = Inr (\<forall>i<nbits. bit_at bm1 i)"
    using some_bit [OF bitwise2_ops(5) n(2,2)] some_bit_small [OF bitwise2_ops(5) n(1) _ e(1,1)] l e any_word_get(2) [OF w(1,1)]
    by (auto simp: bitmap_full_def slow_bitmap_full_def small_nbits_def)
  show "bitmap_equal bm1 bm2 nbits = Inr (\<forall>i<nbits. bit_at bm1 i = bit_at bm2 i)"
    using some_bit [OF bitwise2_ops(3) n(2,3)] some_bit_small [OF bitwise2_ops(3) n(1) _ e] l e any_word_get(1) [OF w]
    by (auto simp: bitmap_equal_def slow_bitmap_equal_def small_nbits_def x)
  show "bitmap_intersects bm1 bm2 nbits = Inr (\<exists>i<nbits. bit_at bm1 i \<and> bit_at bm2 i)"
    using some_bit [OF bitwise2_ops(1) n(2,3)] some_bit_small [OF bitwise2_ops(1) n(1) _ e] l e any_word_get(1) [OF w]
    by (auto simp: bitmap_intersects_def slow_bitmap_intersects_def small_nbits_def)
qed


lemma bitmap_zip:
  assumes "0 < nbits"
  shows "bitmap_and dst bm1 bm2 nbits = zip_words (\<lambda>x y. x AND y) dst bm1 bm2 0 0 (BITS_TO_LONGS nbits)"
    "bitmap_or dst bm1 bm2 nbits = sbind (zip_words (\<lambda>x y. x OR y) dst bm1 bm2 0 0 (BITS_TO_LONGS nbits)) (\<lambda>(_, d). Inr d)"
    "bitmap_xor dst bm1 bm2 nbits = sbind (zip_words (\<lambda>x y. x XOR y) dst bm1 bm2 0 0 (BITS_TO_LONGS nbits)) (\<lambda>(_, d). Inr d)"
    "bitmap_andnot dst bm1 bm2 nbits = zip_words (\<lambda>x y. x AND NOT y) dst bm1 bm2 0 0 (BITS_TO_LONGS nbits)"
proof -
  have "BITS_TO_LONGS nbits = 1" if "small_nbits nbits"
    using that assms BITS_TO_LONGS_bounds [of nbits] by (simp add: small_nbits_def)
  then have s: "zip_words f dst bm1 bm2 0 0 (BITS_TO_LONGS nbits) = small_op f dst bm1 bm2" if "small_nbits nbits" for f
    using that by (simp add: small_op_def)
  show "bitmap_and dst bm1 bm2 nbits = zip_words (\<lambda>x y. x AND y) dst bm1 bm2 0 0 (BITS_TO_LONGS nbits)"
    "bitmap_or dst bm1 bm2 nbits = sbind (zip_words (\<lambda>x y. x OR y) dst bm1 bm2 0 0 (BITS_TO_LONGS nbits)) (\<lambda>(_, d). Inr d)"
    "bitmap_xor dst bm1 bm2 nbits = sbind (zip_words (\<lambda>x y. x XOR y) dst bm1 bm2 0 0 (BITS_TO_LONGS nbits)) (\<lambda>(_, d). Inr d)"
    "bitmap_andnot dst bm1 bm2 nbits = zip_words (\<lambda>x y. x AND NOT y) dst bm1 bm2 0 0 (BITS_TO_LONGS nbits)"
    by (simp_all add: s bitmap_and_def slow_bitmap_and_def bitmap_or_def slow_bitmap_or_def
        bitmap_xor_def slow_bitmap_xor_def bitmap_andnot_def slow_bitmap_andnot_def)
qed

lemma BITS_TO_LONGS_in: "nbits \<le> 64 * length bm \<Longrightarrow> BITS_TO_LONGS nbits \<le> length bm"
  using BITS_TO_LONGS_bounds(2) [of nbits] by linarith

lemma last_word_bit_at:
  assumes "nbits mod 64 \<noteq> 0" "nbits div 64 < length dst" "nbits div 64 < length bm"
  shows "bit_at (dst[nbits div 64 := NOT (bm ! (nbits div 64)) AND BITMAP_LAST_WORD_MASK nbits]) i =
    (if i div 64 = nbits div 64 then i < nbits \<and> \<not> bit_at bm i else bit_at dst i)"
proof -
  have "i mod 64 < nbits mod 64 \<longleftrightarrow> i < nbits" if "i div 64 = nbits div 64"
    using that by (metis add_less_cancel_left div_mult_mod_eq)
  then show ?thesis using assms
    by (auto simp: bit_at_upd bit_and_iff bit_not_iff last_word_mask_bit bit_at_def)
qed

lemma bitmap_complement_bits:
  assumes n: "0 < nbits" "nbits \<le> 64 * length dst" "nbits \<le> 64 * length bm"
  shows "\<exists>dst'. bitmap_complement dst bm nbits = Inr dst' \<and> length dst' = length dst \<and>
    (\<forall>i<nbits. bit_at dst' i = (\<not> bit_at bm i))"
proof -
  define k where "k = nbits div 64"
  obtain d b where d: "zip_words (\<lambda>x y. NOT x) dst bm bm 0 0 k = Inr (b, d)" "length d = length dst"
    "\<forall>i. bit_at d i = (if i < 64 * k then \<not> bit_at bm i else bit_at dst i)"
    using zip_words_bits [OF bitwise2_ops(5), of k dst bm bm] word_count_in n by (auto simp: k_def)
  have in_k: "i div 64 = k" if "i < nbits" "\<not> i < 64 * k" for i
    using that div_le_mono [of i nbits 64] by (auto simp: k_def div_le_mono)
  have slow: "\<exists>dst'. slow_bitmap_complement dst bm nbits = Inr dst' \<and> length dst' = length dst \<and>
    (\<forall>i<nbits. bit_at dst' i = (\<not> bit_at bm i))"
  proof (cases "nbits mod 64 = 0")
    case True
    then have "nbits = 64 * k" by (auto simp: k_def)
    then show ?thesis using d True by (simp add: slow_bitmap_complement_def k_def [symmetric])
  next
    case False
    have l: "nbits div 64 < length d" "nbits div 64 < length bm" using last_word_in n False d(2) by auto
    then have "slow_bitmap_complement dst bm nbits =
      Inr (d[nbits div 64 := NOT (bm ! (nbits div 64)) AND BITMAP_LAST_WORD_MASK nbits])"
      using d False by (simp add: slow_bitmap_complement_def k_def [symmetric] buf_put_def)
    then show ?thesis using last_word_bit_at [OF False l] d in_k by (auto simp: k_def)
  qed
  show ?thesis
  proof (cases "small_nbits nbits")
    case True
    have e: "dst \<noteq> []" "bm \<noteq> []" using n by auto
    have "bit_at (dst[0 := NOT (bm ! 0) AND BITMAP_LAST_WORD_MASK nbits]) i = (\<not> bit_at bm i)" if "i < nbits" for i
      using that True e by (auto simp: small_nbits_def bit_at_upd bit_and_iff bit_not_iff last_word_mask_bit bit_at_def mod_if)
    then show ?thesis using True e by (simp add: bitmap_complement_def buf_put_def)
  qed (use slow in \<open>simp add: bitmap_complement_def\<close>)
qed

text \<open>Rounding up to a multiple of a power of two, where the sum does not wrap.\<close>

definition align_up :: "nat \<Rightarrow> nat \<Rightarrow> nat" where
  "align_up x a = (x + (2 ^ a - 1)) div 2 ^ a * 2 ^ a"

lemma ALIGN_MASK_eq:
  assumes "x + 2 ^ a \<le> 2 ^ 64"
  shows "ALIGN_MASK x (2 ^ a - 1) = align_up x a"
proof -
  have "x + (2 ^ a - 1) < x + 2 ^ a" by simp
  also have "\<dots> \<le> 2 ^ 64" by (rule assms)
  finally have "(x + (2 ^ a - 1)) mod 2 ^ 64 = x + (2 ^ a - 1)" by (rule mod_less)
  moreover have "(x + (2 ^ a - 1)) AND (2 ^ a - 1) = (x + (2 ^ a - 1)) mod 2 ^ a"
    by (simp add: take_bit_eq_mod [symmetric] take_bit_eq_mask mask_eq_exp_minus_1)
  ultimately show ?thesis unfolding ALIGN_MASK_def align_up_def Let_def by (simp only: minus_mod_eq_div_mult)
qed

lemma align_up_least:
  "x \<le> align_up x a" "2 ^ a dvd align_up x a" "2 ^ a dvd r \<Longrightarrow> x \<le> r \<Longrightarrow> align_up x a \<le> r"
proof -
  have p: "(0::nat) < 2 ^ a" by simp
  show "x \<le> align_up x a" unfolding align_up_def
    using div_mult_mod_eq [of "x + (2 ^ a - 1)" "2 ^ a"] mod_less_divisor [OF p, of "x + (2 ^ a - 1)"] by linarith
  show "2 ^ a dvd align_up x a" unfolding align_up_def by simp
  assume r: "2 ^ a dvd r" "x \<le> r"
  then obtain q where q: "r = 2 ^ a * q" by auto
  have "(x + (2 ^ a - 1)) div 2 ^ a \<le> (r + (2 ^ a - 1)) div 2 ^ a" using r(2) by (intro div_le_mono) simp
  also have "\<dots> = q" unfolding q by (simp only: div_mult_self4 p [THEN less_imp_neq, THEN not_sym] add.commute [of "2 ^ a * q"] div_mult_self2 not_False_eq_True) simp
  finally show "align_up x a \<le> r" unfolding align_up_def q by simp
qed

lemma align_up_below: "align_up x a < x + 2 ^ a"
proof -
  have "align_up x a \<le> x + (2 ^ a - 1)" unfolding align_up_def by (rule div_times_less_eq_dividend)
  also have "\<dots> < x + 2 ^ a" by simp
  finally show ?thesis .
qed

text \<open>A free area: \<open>nr\<close> clear bits from an aligned position \<open>r\<close> on, below \<open>sz\<close>.\<close>

definition free_area :: "bitmap \<Rightarrow> nat \<Rightarrow> nat \<Rightarrow> nat \<Rightarrow> nat \<Rightarrow> nat \<Rightarrow> bool" where
  "free_area bm sz start nr a r \<longleftrightarrow> start \<le> r \<and> 2 ^ a dvd r \<and> r + nr \<le> sz \<and> (\<forall>i. r \<le> i \<and> i < r + nr \<longrightarrow> \<not> bit_at bm i)"

text \<open>What the search for an area needs of the searches for one bit.\<close>

locale bit_search =
  fixes next_zero next_one :: "bitmap \<Rightarrow> nat \<Rightarrow> nat \<Rightarrow> c_error + nat"
  assumes next_zero: "sz \<le> 64 * length bm \<Longrightarrow> next_zero bm sz start = Inr (next_index (\<lambda>i. \<not> bit_at bm i) start sz)"
    and next_one: "sz \<le> 64 * length bm \<Longrightarrow> next_one bm sz start = Inr (next_index (bit_at bm) start sz)"
begin

lemma area_after_zero:
  assumes "0 < nr" "start \<le> sz" "free_area bm sz start nr a r"
  shows "align_up (next_index (\<lambda>i. \<not> bit_at bm i) start sz) a \<le> r"
proof -
  have "start \<le> r" "r < sz" "\<not> bit_at bm r" "2 ^ a dvd r" using assms by (auto simp: free_area_def)
  moreover from this next_index_cases [OF assms(2), of "\<lambda>i. \<not> bit_at bm i"]
  have "next_index (\<lambda>i. \<not> bit_at bm i) start sz \<le> r" by (auto simp: all_in_def not_le)
  ultimately show ?thesis by (intro align_up_least)
qed

lemma zero_area_found:
  assumes "sz < start + fuel" "0 < fuel" "0 < nr" "sz \<le> 64 * length bm" "sz + nr + 2 ^ a \<le> 2 ^ 64"
  shows "\<exists>r. zero_area_loop next_zero next_one fuel bm sz start nr (2 ^ a - 1) = Inr r \<and>
    (if r \<le> sz then free_area bm sz start nr a r \<and> (\<forall>r'. free_area bm sz start nr a r' \<longrightarrow> r \<le> r')
     else \<not> (\<exists>r'. free_area bm sz start nr a r'))"
  using assms
proof (induction fuel arbitrary: start)
  case (Suc fuel)
  define k where "k = align_up (next_index (\<lambda>i. \<not> bit_at bm i) start sz) a"
  have bound: "k \<le> r" if "free_area bm sz start nr a r" for r
    using area_after_zero [OF Suc.prems(3) _ that] that by (auto simp: k_def free_area_def)
  have "next_index (\<lambda>i. \<not> bit_at bm i) start sz \<le> sz"
    using next_index_cases [of start sz "\<lambda>i. \<not> bit_at bm i"] by (cases "start \<le> sz") (auto simp: next_index_def)
  then have i: "next_index (\<lambda>i. \<not> bit_at bm i) start sz + 2 ^ a \<le> 2 ^ 64" "k + nr < 2 ^ 64"
    using Suc.prems(5) align_up_below [of "next_index (\<lambda>i. \<not> bit_at bm i) start sz" a] unfolding k_def by linarith+
  have nowrap: "ALIGN_MASK (next_index (\<lambda>i. \<not> bit_at bm i) start sz) (2 ^ a - 1) = k" "(k + nr) mod 2 ^ 64 = k + nr"
    unfolding k_def by (rule ALIGN_MASK_eq [OF i(1)]) (rule mod_less [OF i(2) [unfolded k_def]])
  have round: "zero_area_loop next_zero next_one (Suc fuel) bm sz start nr (2 ^ a - 1) =
    (if sz < k + nr then Inr (k + nr)
     else if next_index (bit_at bm) k (k + nr) < k + nr
     then zero_area_loop next_zero next_one fuel bm sz (next_index (bit_at bm) k (k + nr) + 1) nr (2 ^ a - 1) else Inr k)"
    using Suc.prems(4) by (simp add: next_zero next_one Let_def nowrap [simplified])
  show ?case
  proof (cases "sz < k + nr")
    case True
    then have "\<not> free_area bm sz start nr a r" for r using bound [of r] by (auto simp: free_area_def)
    then show ?thesis using round True by simp
  next
    case False
    define i where "i = next_index (bit_at bm) k (k + nr)"
    have st: "start \<le> next_index (\<lambda>i. \<not> bit_at bm i) start sz" if "start \<le> sz"
      using next_index_cases [OF that, of "\<lambda>i. \<not> bit_at bm i"] that by auto
    have le: "next_index (\<lambda>i. \<not> bit_at bm i) start sz \<le> k" unfolding k_def by (rule align_up_least)
    have past: "next_index (\<lambda>i. \<not> bit_at bm i) start sz = sz" if "sz < start"
      using that by (simp add: next_index_def)
    have "start \<le> k" using st past le False Suc.prems(3) by (cases "start \<le> sz") auto
    moreover have "2 ^ a dvd k" unfolding k_def by (rule align_up_least)
    ultimately have k: "start \<le> k" "2 ^ a dvd k" by auto
    show ?thesis
    proof (cases "i < k + nr")
      case True
      then have i: "k \<le> i" "bit_at bm i" using next_index_cases [of k "k + nr" "bit_at bm"] by (auto simp: i_def)
      have "i < r" if "free_area bm sz start nr a r" for r
      proof (rule ccontr)
        assume "\<not> i < r"
        then have "r \<le> i" "i < r + nr" using bound [OF that] True by auto
        then show False using that i(2) by (simp add: free_area_def)
      qed
      then have area: "free_area bm sz start nr a r \<longleftrightarrow> free_area bm sz (i + 1) nr a r" for r
        using i(1) k(1) by (auto simp: free_area_def Suc_le_eq)
      have step: "zero_area_loop next_zero next_one (Suc fuel) bm sz start nr (2 ^ a - 1) =
          zero_area_loop next_zero next_one fuel bm sz (i + 1) nr (2 ^ a - 1)"
        using round False True unfolding i_def by argo
      have fuel: "sz < i + 1 + fuel" "0 < fuel" using Suc.prems(1) False True k(1) i(1) by linarith+
      show ?thesis unfolding area step by (rule Suc.IH [OF fuel Suc.prems(3-5)])
    next
      case False
      then have "\<forall>j. k \<le> j \<and> j < k + nr \<longrightarrow> \<not> bit_at bm j"
        using next_index_cases [of k "k + nr" "bit_at bm"] by (auto simp: i_def all_in_def)
      then have "free_area bm sz start nr a k" using k \<open>\<not> sz < k + nr\<close> by (simp add: free_area_def)
      then show ?thesis using round False \<open>\<not> sz < k + nr\<close> bound by (auto simp: i_def [symmetric])
    qed
  qed
qed simp

end

interpretation words: bit_search find_next_zero_bit find_next_bit
  by unfold_locales (rule find_next_zero_bit_next find_next_bit_next; assumption)+

lemma single_bit: "bit (BIT_MASK nr) j \<longleftrightarrow> j = nr mod 64"
proof -
  have "nr mod 64 < LENGTH(64)" by simp
  then show ?thesis by (auto simp: BIT_MASK_def bit_simps)
qed

lemma bitwise_ops:
  "bitwise (\<lambda>mask w. w OR mask) (\<or>)" "bitwise (\<lambda>mask w. w AND NOT mask) (\<lambda>a b. \<not> a \<and> b)" "bitwise (\<lambda>mask w. w XOR mask) (\<noteq>)"
  by (auto simp: bitwise_def bit_simps)

lemma single_bit_at:
  assumes "nr div 64 < length addr" "bitwise upd g"
  shows "bit_at (addr[nr div 64 := upd (BIT_MASK nr) (addr ! (nr div 64))]) i = g (i = nr) (bit_at addr i)"
proof -
  have "bit (BIT_MASK nr) j \<longleftrightarrow> nr \<le> 64 * (nr div 64) + j \<and> 64 * (nr div 64) + j < Suc nr" if "j < 64" for j
    using mult_div_mod_eq [of 64 nr] unfolding single_bit by linarith
  moreover have "(i div 64 = nr div 64 \<and> nr \<le> i \<and> i < Suc nr) = (i = nr)" by auto
  moreover have "i < 64 * length addr" if "i div 64 = nr div 64" using that assms(1) by auto
  moreover have "bit_at (addr[nr div 64 := w]) i = bit_at addr i" if "i div 64 \<noteq> nr div 64" for w
    using that by (simp add: bit_at_upd [OF assms(1)])
  ultimately show ?thesis using bitwise_word [OF assms(2,1), of "BIT_MASK nr" nr "Suc nr" i] assms(2)
    by (cases "i div 64 = nr div 64") (auto simp: bitwise_def)
qed

section \<open>Properties\<close>

text \<open>
  C22: The single bit operations of bitops.h act on the one bit they name and on no other, and test_bit and the
  test_and operations return its old value, for every bit number inside the array.
\<close>

theorem bit_operations:
  assumes nr: "nr < 64 * length addr"
  shows "test_bit nr addr = Inr (bit_at addr nr) \<and>
    (\<exists>a. test_and_set_bit nr addr = Inr (bit_at addr nr, a) \<and> set_bit_long nr addr = Inr a \<and>
      (\<forall>i. bit_at a i = (i = nr \<or> bit_at addr i))) \<and>
    (\<exists>a. test_and_clear_bit nr addr = Inr (bit_at addr nr, a) \<and> clear_bit nr addr = Inr a \<and>
      (\<forall>i. bit_at a i = (i \<noteq> nr \<and> bit_at addr i))) \<and>
    (\<exists>a. test_and_change_bit nr addr = Inr (bit_at addr nr, a) \<and> change_bit nr addr = Inr a \<and>
      (\<forall>i. bit_at a i = ((i = nr) \<noteq> bit_at addr i)))"
proof -
  have k: "nr div 64 < length addr" using nr by auto
  note b = single_bit_at [OF k bitwise_ops(1)] single_bit_at [OF k bitwise_ops(2)] single_bit_at [OF k bitwise_ops(3)]
  have old: "addr ! (nr div 64) AND BIT_MASK nr \<noteq> 0 \<longleftrightarrow> bit_at addr nr"
    using k by (auto simp: word_ex_bit single_bit bit_at_def)
  have "1 AND drop_bit (nr mod 64) (addr ! (nr div 64)) \<noteq> 0 \<longleftrightarrow> bit_at addr nr"
    using k by (simp add: word_ex_bit and.commute [of 1] bit_simps bit_at_def)
  then show ?thesis using k b old
    by (auto simp: test_bit_def test_and_set_bit_def set_bit_long_def test_and_clear_bit_def clear_bit_def
        test_and_change_bit_def change_bit_def BIT_WORD_def upd_word_in buf_put_def)
qed

theorem bit_operations_witness: "test_bit 65 [0, 2] = Inr (bit_at [0, 2] 65)"
  using bit_operations [of 65 "[0, 2]"] by simp

text \<open>
  C17: find_next_bit and find_next_zero_bit return the first position from offset on, below the size, whose bit is
  set (clear), or the size when there is none; find_first_bit and
  find_first_zero_bit start at 0; find_last_bit returns the last set position, or the size.  The
  scan by four words, the masks of the first and the last word and the tail cases all agree with the search
  one bit at a time.
\<close>

theorem bit_searches:
  assumes "sz \<le> 64 * length addr"
  shows "find_next_bit addr sz offset = Inr (next_index (bit_at addr) offset sz) \<and>
    find_first_bit addr sz = Inr (next_index (bit_at addr) 0 sz) \<and>
    find_first_zero_bit addr sz = Inr (next_index (\<lambda>i. \<not> bit_at addr i) 0 sz) \<and>
    find_next_zero_bit addr sz offset = Inr (next_index (\<lambda>i. \<not> bit_at addr i) offset sz) \<and>
    find_last_bit addr sz = Inr (last_index (bit_at addr) sz)"
  using assms
  by (simp add: find_first_bit_def find_first_zero_bit_def find_next_bit_next find_next_zero_bit_next find_last_bit_last)

theorem bit_searches_witness:
  "find_next_bit [0, 5] 128 65 = Inr (next_index (bit_at [0, 5]) 65 128)"
  using bit_searches [of 128 "[0, 5]" 65] by simp

text \<open>
  C19: bitmap_set sets and bitmap_clear clears exactly the bits from start to start + nr, and neither leaves
  the array when the range is inside it.
\<close>

theorem bitmap_set_clear_range:
  assumes "start + nr \<le> 64 * length bm"
  shows "(\<exists>bm'. bitmap_set bm start nr = Inr bm' \<and> length bm' = length bm \<and>
      (\<forall>i < 64 * length bm. bit_at bm' i = (start \<le> i \<and> i < start + nr \<or> bit_at bm i))) \<and>
    (\<exists>bm'. bitmap_clear bm start nr = Inr bm' \<and> length bm' = length bm \<and>
      (\<forall>i < 64 * length bm. bit_at bm' i = (\<not> (start \<le> i \<and> i < start + nr) \<and> bit_at bm i)))"
proof -
  from bitmap_range_bits [OF bitwise_ops(1) assms] bitmap_range_bits [OF bitwise_ops(2) assms]
  show ?thesis by (auto simp: bitmap_set_def bitmap_clear_def)
qed

theorem bitmap_set_clear_range_witness:
  "\<exists>bm'. bitmap_set [0, 0, 0] 60 100 = Inr bm' \<and> (\<forall>i<192. bit_at bm' i = (60 \<le> i \<and> i < 160 \<or> bit_at [0, 0, 0] i))"
  using bitmap_set_clear_range [of 60 100 "[0, 0, 0]"] by auto

text \<open>
  C20: The operations on whole bitmaps compute and, or, xor, and-not and complement on every bit below nbits, by
  the path for one word as by the loop over words.
\<close>

theorem bitmap_logic:
  assumes n: "0 < nbits" "nbits \<le> 64 * length dst" "nbits \<le> 64 * length bm1" "nbits \<le> 64 * length bm2"
  shows "(\<exists>b d. bitmap_and dst bm1 bm2 nbits = Inr (b, d) \<and> (\<forall>i<nbits. bit_at d i = (bit_at bm1 i \<and> bit_at bm2 i))) \<and>
    (\<exists>d. bitmap_or dst bm1 bm2 nbits = Inr d \<and> (\<forall>i<nbits. bit_at d i = (bit_at bm1 i \<or> bit_at bm2 i))) \<and>
    (\<exists>d. bitmap_xor dst bm1 bm2 nbits = Inr d \<and> (\<forall>i<nbits. bit_at d i = (bit_at bm1 i \<noteq> bit_at bm2 i))) \<and>
    (\<exists>b d. bitmap_andnot dst bm1 bm2 nbits = Inr (b, d) \<and> (\<forall>i<nbits. bit_at d i = (bit_at bm1 i \<and> \<not> bit_at bm2 i))) \<and>
    (\<exists>d. bitmap_complement dst bm1 nbits = Inr d \<and> (\<forall>i<nbits. bit_at d i = (\<not> bit_at bm1 i)))"
proof -
  have z: "\<exists>b d. zip_words f dst bm1 bm2 0 0 (BITS_TO_LONGS nbits) = Inr (b, d) \<and>
      (\<forall>i<nbits. bit_at d i = g (bit_at bm1 i) (bit_at bm2 i))" if "bitwise2 f g" for f g
  proof -
    have "i < 64 * BITS_TO_LONGS nbits" if "i < nbits" for i using that BITS_TO_LONGS_bounds(1) [of nbits] by simp
    then show ?thesis using zip_words_bits [OF that BITS_TO_LONGS_in [OF n(2)] BITS_TO_LONGS_in [OF n(3)] BITS_TO_LONGS_in [OF n(4)]]
      by auto
  qed
  from z [OF bitwise2_ops(1)] z [OF bitwise2_ops(2)] z [OF bitwise2_ops(3)] z [OF bitwise2_ops(4)]
    bitmap_complement_bits [OF n(1-3)]
  show ?thesis unfolding bitmap_zip [OF n(1)] by (auto simp del: zip_words.simps)
qed

theorem bitmap_logic_witness: "\<exists>d. bitmap_or [0, 0] [1, 2] [4, 8] 70 = Inr d \<and> (\<forall>i<70. bit_at d i = (bit_at [1, 2] i \<or> bit_at [4, 8] i))"
  using bitmap_logic [of 70 "[0, 0]" "[1, 2]" "[4, 8]"] by simp

text \<open>
  C21: For a positive number of bits the tests on whole bitmaps look at the bits below nbits only: the unused
  bits of the last word have no influence on them.
\<close>

theorem bitmap_tests_used_bits:
  assumes "0 < nbits" "nbits \<le> 64 * length bm1" "nbits \<le> 64 * length bm2"
  shows "bitmap_empty bm1 nbits = Inr (\<forall>i<nbits. \<not> bit_at bm1 i) \<and>
    bitmap_full bm1 nbits = Inr (\<forall>i<nbits. bit_at bm1 i) \<and>
    bitmap_equal bm1 bm2 nbits = Inr (\<forall>i<nbits. bit_at bm1 i = bit_at bm2 i) \<and>
    bitmap_intersects bm1 bm2 nbits = Inr (\<exists>i<nbits. bit_at bm1 i \<and> bit_at bm2 i)"
  using bitmap_tests [OF assms] by simp

theorem bitmap_tests_used_bits_witness: "bitmap_empty [0, 64] 70 = Inr (\<forall>i<70. \<not> bit_at [0, 64] i)"
  using bitmap_tests_used_bits [of 70 "[0, 64]" "[0, 64]"] by simp

text \<open>
  C23: The result that bitmap_and and bitmap_andnot return counts the unused bits of the last word, against the rule
  stated at the head of bitmap.c: it is true when some bit of the words that hold the bitmap is in the result, where
  bitmap_intersects, for the same bitmaps, looks at the bits below nbits only.
\<close>

theorem bitmap_and_counts_unused_bits:
  assumes n: "0 < nbits" "nbits \<le> 64 * length dst" "nbits \<le> 64 * length bm1" "nbits \<le> 64 * length bm2"
  shows "\<exists>d1 d2. bitmap_and dst bm1 bm2 nbits = Inr (\<exists>i < 64 * BITS_TO_LONGS nbits. bit_at bm1 i \<and> bit_at bm2 i, d1) \<and>
    bitmap_andnot dst bm1 bm2 nbits = Inr (\<exists>i < 64 * BITS_TO_LONGS nbits. bit_at bm1 i \<and> \<not> bit_at bm2 i, d2) \<and>
    bitmap_intersects bm1 bm2 nbits = Inr (\<exists>i < nbits. bit_at bm1 i \<and> bit_at bm2 i)"
proof -
  note l = BITS_TO_LONGS_in [OF n(2)] BITS_TO_LONGS_in [OF n(3)] BITS_TO_LONGS_in [OF n(4)]
  obtain d1 where "bitmap_and dst bm1 bm2 nbits = Inr (\<exists>i < 64 * BITS_TO_LONGS nbits. bit_at bm1 i \<and> bit_at bm2 i, d1)"
    unfolding bitmap_zip [OF n(1)] using zip_words_bits [OF bitwise2_ops(1) l] by blast
  moreover obtain d2 where "bitmap_andnot dst bm1 bm2 nbits = Inr (\<exists>i < 64 * BITS_TO_LONGS nbits. bit_at bm1 i \<and> \<not> bit_at bm2 i, d2)"
    unfolding bitmap_zip [OF n(1)] using zip_words_bits [OF bitwise2_ops(4) l] by blast
  ultimately show ?thesis using bitmap_tests [OF n(1,3,4)] by blast
qed

text \<open>Two empty bitmaps of one bit, whose unused bit 1 is set, are reported to have a common bit.\<close>

theorem bitmap_and_counts_unused_bits_witness:
  "\<exists>d. bitmap_and [0] [2] [2] 1 = Inr (True, d) \<and> bitmap_intersects [2] [2] 1 = Inr False"
proof -
  have b: "bit_at [2] i \<longleftrightarrow> i = 1" for i by (auto simp: bit_at_def bit_simps bit_numeral_rec split: nat.splits)
  have "BITS_TO_LONGS 1 = 1" by (simp add: BITS_TO_LONGS_def)
  then show ?thesis
    using bitmap_and_counts_unused_bits [of 1 "[0]" "[2]" "[2]"] by (auto simp: b)
qed

text \<open>
  C18: As long as the size, the length of the area and the alignment together stay below 2 to the 64,
  bitmap_find_next_zero_area returns: the first aligned position from start on that is followed by
  nr clear bits below the size, or a number above the size when there is no such position.
\<close>

theorem zero_area_first:
  assumes "0 < nr" "sz \<le> 64 * length bm" "sz + nr + 2 ^ a \<le> 2 ^ 64"
  shows "\<exists>r. bitmap_find_next_zero_area bm sz start nr (2 ^ a - 1) = Inr r \<and>
    (if r \<le> sz then free_area bm sz start nr a r \<and> (\<forall>r'. free_area bm sz start nr a r' \<longrightarrow> r \<le> r')
     else \<not> (\<exists>r'. free_area bm sz start nr a r'))"
  unfolding bitmap_find_next_zero_area_def using assms by (intro words.zero_area_found) auto

theorem zero_area_first_witness: "bitmap_find_next_zero_area [7] 64 0 4 3 = Inr 4"
proof -
  obtain r where r: "bitmap_find_next_zero_area [7] 64 0 4 3 = Inr r"
      "if r \<le> 64 then free_area [7] 64 0 4 2 r \<and> (\<forall>r'. free_area [7] 64 0 4 2 r' \<longrightarrow> r \<le> r') else \<not> (\<exists>r'. free_area [7] 64 0 4 2 r')"
    using zero_area_first [of 4 64 "[7]" 2 0] by auto
  have "\<not> bit_at [7] i" if "4 \<le> i" "i < 8" for i
  proof -
    have "i = 4 \<or> i = 5 \<or> i = 6 \<or> i = 7" using that by arith
    then show ?thesis by (auto simp: bit_at_def bit_numeral_rec)
  qed
  then have "free_area [7] 64 0 4 2 4" by (simp add: free_area_def)
  then have le: "r \<le> 4" "free_area [7] 64 0 4 2 r" using r(2) by (auto split: if_splits)
  have "bit_at [7] 0" by (simp add: bit_at_def)
  then have "r \<noteq> 0" "4 dvd r" using le(2) by (auto simp: free_area_def mod_eq_0_iff_dvd dest: spec [of _ 0])
  then have "r = 4" using le(1) by (auto simp: dvd_def)
  then show ?thesis using r(1) by simp
qed

text \<open>
  A length that makes the end of the area wrap is not refused: the first clear bit is returned, although the area
  cannot be there.
\<close>

lemma zero_area_wraps:
  assumes sz: "sz \<le> 64 * length bm" and k: "k = next_index (\<lambda>i. \<not> bit_at bm i) start sz" "k < 2 ^ 64"
    and nr: "nr < 2 ^ 64" "2 ^ 64 \<le> k + nr" "k + nr - 2 ^ 64 \<le> sz"
  shows "bitmap_find_next_zero_area bm sz start nr 0 = Inr k"
proof -
  define fin where "fin = k + nr - 2 ^ 64"
  have "(k + nr) mod 2 ^ 64 = fin"
    using nr k(2) by (simp add: fin_def mod_if [of "k + nr"])
  moreover have "ALIGN_MASK k 0 = k" using k(2) by (simp add: ALIGN_MASK_def)
  moreover have "find_next_bit bm fin k = Inr fin"
    using find_next_bit_next [of fin bm k] sz nr k(2) by (simp add: fin_def next_index_def)
  moreover have "fin \<le> sz" using nr(3) by (simp add: fin_def)
  ultimately show ?thesis
    using find_next_zero_bit_next [OF sz, of start]
    by (simp add: bitmap_find_next_zero_area_def k(1) [symmetric] Let_def)
qed

end
