(* ===== verification/Byte_Fifo.thy ===== *)
theory Byte_Fifo
  imports Prelude
begin

text \<open>
  The byte FIFO of \<open>util/fifo8.c\<close>: a ring in an array of \<open>capacity\<close> bytes with 32 bit indices.  The
  fields of \<open>Fifo8\<close> keep their width; the memory that \<open>g_new\<close> returns is an argument of \<open>fifo8_create\<close>.
\<close>

section \<open>Operations\<close>

record Fifo8 =
  fifo_data :: "u8 list"
  fifo_capacity :: u32
  fifo_head :: u32
  fifo_num :: u32

definition c_umod :: "u32 \<Rightarrow> u32 \<Rightarrow> c_error + u32" where
  "c_umod x y = (if y = 0 then Inl Div_by_zero else Inr (x mod y))"

definition c_memcpy :: "'a list \<Rightarrow> nat \<Rightarrow> 'a list \<Rightarrow> nat \<Rightarrow> nat \<Rightarrow> c_error + 'a list" where
  "c_memcpy dst off src soff n =
     (if soff + n \<le> length src then buf_write dst off (take n (drop soff src)) else Inl Out_of_bounds)"

definition fifo8_create :: "u8 list \<Rightarrow> u32 \<Rightarrow> Fifo8" where
  "fifo8_create mem cap = \<lparr> fifo_data = mem, fifo_capacity = cap, fifo_head = 0, fifo_num = 0 \<rparr>"

definition fifo8_destroy :: "Fifo8 \<Rightarrow> Fifo8" where
  "fifo8_destroy f = f\<lparr> fifo_data := [] \<rparr>"

definition fifo8_push :: "Fifo8 \<Rightarrow> u8 \<Rightarrow> c_error + Fifo8" where
  "fifo8_push f d =
     (if fifo_num f = fifo_capacity f then Inl Aborted
      else sbind (c_umod (fifo_head f + fifo_num f) (fifo_capacity f)) (\<lambda>i.
           sbind (buf_put (fifo_data f) (unat i) d) (\<lambda>data'.
             Inr (f\<lparr> fifo_data := data', fifo_num := fifo_num f + 1 \<rparr>))))"

definition fifo8_push_all :: "Fifo8 \<Rightarrow> u8 list \<Rightarrow> u32 \<Rightarrow> c_error + Fifo8" where
  "fifo8_push_all f src n =
     (if fifo_num f + n > fifo_capacity f then Inl Aborted
      else sbind (c_umod (fifo_head f + fifo_num f) (fifo_capacity f)) (\<lambda>start.
           sbind (if start + n \<le> fifo_capacity f
                  then c_memcpy (fifo_data f) (unat start) src 0 (unat n)
                  else let avail = fifo_capacity f - start
                       in sbind (c_memcpy (fifo_data f) (unat start) src 0 (unat avail)) (\<lambda>data'.
                            c_memcpy data' 0 src (unat avail) (unat (n - avail)))) (\<lambda>data'.
             Inr (f\<lparr> fifo_data := data', fifo_num := fifo_num f + n \<rparr>))))"

definition fifo8_pop :: "Fifo8 \<Rightarrow> c_error + u8 \<times> Fifo8" where
  "fifo8_pop f =
     (if fifo_num f = 0 then Inl Aborted
      else sbind (buf_get (fifo_data f) (unat (fifo_head f))) (\<lambda>ret.
           sbind (c_umod (fifo_head f + 1) (fifo_capacity f)) (\<lambda>head'.
             Inr (ret, f\<lparr> fifo_head := head', fifo_num := fifo_num f - 1 \<rparr>))))"

text \<open>\<open>fifo8_pop_buf\<close> returns a pointer into the array: its offset, with the number of bytes behind it.\<close>

definition fifo8_pop_buf :: "Fifo8 \<Rightarrow> u32 \<Rightarrow> c_error + nat \<times> u32 \<times> Fifo8" where
  "fifo8_pop_buf f max_n =
     (if max_n = 0 \<or> max_n > fifo_num f then Inl Aborted
      else let n = min (fifo_capacity f - fifo_head f) max_n
           in sbind (c_umod (fifo_head f + n) (fifo_capacity f)) (\<lambda>head'.
                Inr (unat (fifo_head f), n, f\<lparr> fifo_head := head', fifo_num := fifo_num f - n \<rparr>)))"

definition fifo8_reset :: "Fifo8 \<Rightarrow> Fifo8" where
  "fifo8_reset f = f\<lparr> fifo_num := 0, fifo_head := 0 \<rparr>"

definition fifo8_is_empty :: "Fifo8 \<Rightarrow> bool" where
  "fifo8_is_empty f \<longleftrightarrow> fifo_num f = 0"

definition fifo8_is_full :: "Fifo8 \<Rightarrow> bool" where
  "fifo8_is_full f \<longleftrightarrow> fifo_num f = fifo_capacity f"

definition fifo8_num_free :: "Fifo8 \<Rightarrow> u32" where
  "fifo8_num_free f = fifo_capacity f - fifo_num f"

definition fifo8_num_used :: "Fifo8 \<Rightarrow> u32" where
  "fifo8_num_used f = fifo_num f"

section \<open>The queue a FIFO holds\<close>

text \<open>
  The indices stay inside the array, and the array is at most half the range of the indices, so that the sums of
  two indices in the code do not wrap around.
\<close>

definition fifo_ok :: "Fifo8 \<Rightarrow> bool" where
  "fifo_ok f \<longleftrightarrow> length (fifo_data f) = unat (fifo_capacity f) \<and> 0 < fifo_capacity f \<and> unat (fifo_capacity f) \<le> 2 ^ 31 \<and>
     fifo_head f < fifo_capacity f \<and> fifo_num f \<le> fifo_capacity f"

definition fifo_bytes :: "Fifo8 \<Rightarrow> u8 list" where
  "fifo_bytes f = map (\<lambda>i. fifo_data f ! ((unat (fifo_head f) + i) mod length (fifo_data f))) [0..<unat (fifo_num f)]"

definition fifo_room :: "Fifo8 \<Rightarrow> nat" where
  "fifo_room f = unat (fifo_capacity f)"

text \<open>Commands of a client, and what they do to a bounded queue.\<close>

datatype fifo_cmd = Push u8 | Pop | Reset

fun queue_cmd :: "nat \<Rightarrow> fifo_cmd \<Rightarrow> u8 list \<Rightarrow> c_error + u8 list \<times> u8 list" where
  "queue_cmd room (Push d) q = (if length q < room then Inr ([], q @ [d]) else Inl Aborted)"
| "queue_cmd room Pop [] = Inl Aborted"
| "queue_cmd room Pop (d # q) = Inr ([d], q)"
| "queue_cmd room Reset q = Inr ([], [])"

fun run_cmds :: "(fifo_cmd \<Rightarrow> 's \<Rightarrow> c_error + u8 list \<times> 's) \<Rightarrow> fifo_cmd list \<Rightarrow> 's \<Rightarrow> c_error + u8 list \<times> 's" where
  "run_cmds exec [] s = Inr ([], s)"
| "run_cmds exec (c # cs) s = sbind (exec c s) (\<lambda>(out, s'). sbind (run_cmds exec cs s') (\<lambda>(outs, s''). Inr (out @ outs, s'')))"

fun fifo8_cmd :: "fifo_cmd \<Rightarrow> Fifo8 \<Rightarrow> c_error + u8 list \<times> Fifo8" where
  "fifo8_cmd (Push d) f = sbind (fifo8_push f d) (\<lambda>f'. Inr ([], f'))"
| "fifo8_cmd Pop f = sbind (fifo8_pop f) (\<lambda>(d, f'). Inr ([d], f'))"
| "fifo8_cmd Reset f = Inr ([], fifo8_reset f)"

fun push_each :: "('s \<Rightarrow> u8 \<Rightarrow> c_error + 's) \<Rightarrow> 's \<Rightarrow> u8 list \<Rightarrow> c_error + 's" where
  "push_each push s [] = Inr s"
| "push_each push s (d # ds) = sbind (push s d) (\<lambda>s'. push_each push s' ds)"

fun pop_each :: "('s \<Rightarrow> c_error + u8 \<times> 's) \<Rightarrow> 's \<Rightarrow> nat \<Rightarrow> c_error + u8 list \<times> 's" where
  "pop_each pop s 0 = Inr ([], s)"
| "pop_each pop s (Suc n) = sbind (pop s) (\<lambda>(d, s'). sbind (pop_each pop s' n) (\<lambda>(ds, s''). Inr (d # ds, s'')))"

lemma fifo_okD:
  assumes "fifo_ok f"
  shows "length (fifo_data f) = unat (fifo_capacity f)" "fifo_capacity f \<noteq> 0" "unat (fifo_capacity f) \<le> 2147483648"
    "unat (fifo_head f) < unat (fifo_capacity f)" "unat (fifo_num f) \<le> unat (fifo_capacity f)" "0 < unat (fifo_capacity f)"
  using assms by (auto simp: fifo_ok_def word_less_nat_alt word_le_nat_alt)

lemma unat_add_small: "unat x + unat y < 4294967296 \<Longrightarrow> unat (x + y) = unat x + unat y" for x y :: u32
  by (simp add: unat_word_ariths)

lemma fifo_index:
  assumes "fifo_ok f" "unat n \<le> 2147483648" "unat n \<le> unat (fifo_capacity f)"
  shows "unat ((fifo_head f + n) mod fifo_capacity f) = (unat (fifo_head f) + unat n) mod unat (fifo_capacity f)"
  using fifo_okD [OF assms(1)] assms(2,3) by (simp add: unat_mod unat_add_small)

lemma ring_inj:
  assumes "(h + i) mod N = (h + j) mod N" "i < N" "j < (N :: nat)"
  shows "i = j"
proof -
  have aux: "i = j" if "i \<le> j" "(h + j) mod N = (h + i) mod N" "j < N" for i j
    using that mod_eq_dvd_iff_nat [of "h + i" "h + j" N] by (auto dest: dvd_imp_le)
  show ?thesis using aux [of i j] aux [of j i] assms by (cases "i \<le> j") auto
qed

text \<open>An operation that writes \<open>n\<close> bytes behind the queue and counts them appends them to the queue.\<close>

lemma fifo_append:
  assumes ok: "fifo_ok f" and n: "unat (fifo_num f) + length ds \<le> unat (fifo_capacity f)"
    and len: "length data' = length (fifo_data f)" and num: "unat num' = unat (fifo_num f) + length ds"
    and new: "\<And>j. j < length ds \<Longrightarrow> data' ! ((unat (fifo_head f) + unat (fifo_num f) + j) mod unat (fifo_capacity f)) = ds ! j"
    and old: "\<And>k. k < unat (fifo_capacity f) \<Longrightarrow>
      (\<And>j. j < length ds \<Longrightarrow> (unat (fifo_head f) + unat (fifo_num f) + j) mod unat (fifo_capacity f) \<noteq> k) \<Longrightarrow> data' ! k = fifo_data f ! k"
  shows "fifo_bytes (f\<lparr> fifo_data := data', fifo_num := num' \<rparr>) = fifo_bytes f @ ds"
    and "fifo_ok (f\<lparr> fifo_data := data', fifo_num := num' \<rparr>)"
proof -
  note D = fifo_okD [OF ok]
  define h k N where "h = unat (fifo_head f)" and "k = unat (fifo_num f)" and "N = unat (fifo_capacity f)"
  have "data' ! ((h + i) mod N) = fifo_data f ! ((h + i) mod N)" if "i < k" for i
  proof -
    have "(h + k + j) mod N \<noteq> (h + i) mod N" if j: "j < length ds" for j
      using ring_inj [of h "k + j" N i] that \<open>i < k\<close> n by (auto simp: add.assoc k_def N_def)
    then show ?thesis using old [of "(h + i) mod N"] D(6) by (simp add: h_def k_def N_def)
  qed
  moreover have "data' ! ((h + (k + j)) mod N) = ds ! j" if "j < length ds" for j
    using new [OF that] by (simp add: h_def k_def N_def add.assoc)
  ultimately show "fifo_bytes (f\<lparr> fifo_data := data', fifo_num := num' \<rparr>) = fifo_bytes f @ ds"
    unfolding fifo_bytes_def using D(1) len num
    by (intro nth_equalityI) (auto simp: nth_append h_def k_def N_def not_less dest: le_Suc_ex)
  show "fifo_ok (f\<lparr> fifo_data := data', fifo_num := num' \<rparr>)"
    using ok n len num by (auto simp: fifo_ok_def word_le_nat_alt)
qed

lemma fifo_bytes_length [simp]: "length (fifo_bytes f) = unat (fifo_num f)"
  by (simp add: fifo_bytes_def)

lemma fifo8_push_spec:
  assumes ok: "fifo_ok f"
  shows "length (fifo_bytes f) < fifo_room f \<Longrightarrow>
      \<exists>f'. fifo8_push f d = Inr f' \<and> fifo_ok f' \<and> fifo_bytes f' = fifo_bytes f @ [d] \<and> fifo_room f' = fifo_room f"
    and "length (fifo_bytes f) = fifo_room f \<Longrightarrow> fifo8_push f d = Inl Aborted"
proof -
  note D = fifo_okD [OF ok]
  define i where "i = (unat (fifo_head f) + unat (fifo_num f)) mod unat (fifo_capacity f)"
  have i: "unat ((fifo_head f + fifo_num f) mod fifo_capacity f) = i" "i < length (fifo_data f)"
    using fifo_index [OF ok, of "fifo_num f"] D by (auto simp: i_def)
  show "length (fifo_bytes f) = fifo_room f \<Longrightarrow> fifo8_push f d = Inl Aborted"
    by (simp add: fifo8_push_def fifo_room_def word_unat_eq_iff)
  assume lt: "length (fifo_bytes f) < fifo_room f"
  then have "fifo8_push f d = Inr (f\<lparr> fifo_data := (fifo_data f)[i := d], fifo_num := fifo_num f + 1 \<rparr>)"
    using i D(2) by (auto simp: fifo8_push_def c_umod_def buf_put_def fifo_room_def)
  moreover have num: "unat (fifo_num f + 1) = unat (fifo_num f) + length [d]"
    using lt D(3) by (simp add: fifo_room_def unat_add_small)
  have "fifo_bytes (f\<lparr> fifo_data := (fifo_data f)[i := d], fifo_num := fifo_num f + 1 \<rparr>) = fifo_bytes f @ [d]"
    "fifo_ok (f\<lparr> fifo_data := (fifo_data f)[i := d], fifo_num := fifo_num f + 1 \<rparr>)"
    using fifo_append [OF ok _ _ num, of "(fifo_data f)[i := d]"] lt i by (auto simp: i_def fifo_room_def)
  ultimately show "\<exists>f'. fifo8_push f d = Inr f' \<and> fifo_ok f' \<and> fifo_bytes f' = fifo_bytes f @ [d] \<and> fifo_room f' = fifo_room f"
    by (auto simp: fifo_room_def)
qed

text \<open>Moving the head over \<open>n\<close> bytes drops them from the queue.\<close>

lemma fifo_drop:
  assumes ok: "fifo_ok f" and n: "n \<le> fifo_num f"
  defines "f' \<equiv> f\<lparr> fifo_head := (fifo_head f + n) mod fifo_capacity f, fifo_num := fifo_num f - n \<rparr>"
  shows "fifo_ok f'" "fifo_bytes f' = drop (unat n) (fifo_bytes f)" "fifo_room f' = fifo_room f"
proof -
  note D = fifo_okD [OF ok]
  have n': "unat n \<le> unat (fifo_num f)" "unat (fifo_num f - n) = unat (fifo_num f) - unat n"
    using n by (auto simp: word_le_nat_alt unat_sub)
  have h: "unat ((fifo_head f + n) mod fifo_capacity f) = (unat (fifo_head f) + unat n) mod unat (fifo_capacity f)"
    using fifo_index [OF ok, of n] n' D by simp
  then show "fifo_ok f'" using ok n' D by (auto simp: f'_def fifo_ok_def word_le_nat_alt word_less_nat_alt)
  show "fifo_bytes f' = drop (unat n) (fifo_bytes f)"
    using h n' D(1) by (intro nth_equalityI) (auto simp: f'_def fifo_bytes_def mod_add_left_eq add.assoc)
  show "fifo_room f' = fifo_room f" by (simp add: f'_def fifo_room_def)
qed

lemma fifo_first: "i < length (fifo_bytes f) \<Longrightarrow> fifo_ok f \<Longrightarrow> unat (fifo_head f) + i < unat (fifo_capacity f) \<Longrightarrow>
  fifo_bytes f ! i = fifo_data f ! (unat (fifo_head f) + i)"
  using fifo_okD [of f] by (simp add: fifo_bytes_def)

lemma fifo8_pop_spec:
  assumes ok: "fifo_ok f"
  shows "fifo_bytes f = [] \<Longrightarrow> fifo8_pop f = Inl Aborted"
    and "fifo_bytes f = d # q \<Longrightarrow> \<exists>f'. fifo8_pop f = Inr (d, f') \<and> fifo_ok f' \<and> fifo_bytes f' = q \<and> fifo_room f' = fifo_room f"
proof -
  note D = fifo_okD [OF ok]
  have "fifo_bytes f = [] \<longleftrightarrow> fifo_num f = 0" by (simp add: fifo_bytes_def unat_eq_zero)
  then show "fifo_bytes f = [] \<Longrightarrow> fifo8_pop f = Inl Aborted" by (simp add: fifo8_pop_def)
  assume q: "fifo_bytes f = d # q"
  then have "unat (fifo_num f) = Suc (length q)" using fifo_bytes_length [of f] by simp
  then have n: "1 \<le> fifo_num f" "fifo_num f \<noteq> 0" by (auto simp: word_le_nat_alt)
  have "d = fifo_data f ! unat (fifo_head f)" using fifo_first [OF _ ok, of 0] q D by simp
  then show "\<exists>f'. fifo8_pop f = Inr (d, f') \<and> fifo_ok f' \<and> fifo_bytes f' = q \<and> fifo_room f' = fifo_room f"
    using n D q fifo_drop [OF ok n(1)] by (auto simp: fifo8_pop_def c_umod_def)
qed

lemma fifo8_pop_buf_spec:
  assumes ok: "fifo_ok f" and n: "0 < max_n" "max_n \<le> fifo_num f"
  shows "\<exists>off k f'. fifo8_pop_buf f max_n = Inr (off, k, f') \<and> 0 < k \<and> k \<le> max_n \<and> fifo_ok f' \<and>
    off + unat k \<le> length (fifo_data f) \<and> take (unat k) (drop off (fifo_data f')) @ fifo_bytes f' = fifo_bytes f"
proof -
  note D = fifo_okD [OF ok]
  define k where "k = min (fifo_capacity f - fifo_head f) max_n"
  have "unat (fifo_capacity f - fifo_head f) = unat (fifo_capacity f) - unat (fifo_head f)"
    using D(4) by (simp add: unat_sub word_le_nat_alt)
  moreover have "k \<le> fifo_capacity f - fifo_head f" "k \<le> max_n" "0 < k"
    using n D(4) by (auto simp: k_def min_def word_less_nat_alt calculation)
  ultimately have k: "0 < k" "k \<le> max_n" "k \<le> fifo_num f" "unat (fifo_head f) + unat k \<le> unat (fifo_capacity f)"
    using n D(4) by (auto simp: word_le_nat_alt)
  then have le: "unat k \<le> unat (fifo_num f)" by (simp add: word_le_nat_alt)
  have "take (unat k) (fifo_bytes f) = take (unat k) (drop (unat (fifo_head f)) (fifo_data f))"
    using le k(4) D(1) fifo_first [OF _ ok] by (intro nth_equalityI) auto
  then have "take (unat k) (drop (unat (fifo_head f)) (fifo_data f)) @ drop (unat k) (fifo_bytes f) = fifo_bytes f"
    by (metis append_take_drop_id)
  then show ?thesis using fifo_drop [OF ok k(3)] k n D(1,2)
    by (auto simp: fifo8_pop_buf_def c_umod_def k_def [symmetric] not_less Let_def)
qed

lemma ring_write:
  assumes s: "s < length data" "n \<le> length data" "n \<le> length src"
  defines "N \<equiv> length data"
  shows "\<exists>data'. (if s + n \<le> N then c_memcpy data s src 0 n
      else sbind (c_memcpy data s src 0 (N - s)) (\<lambda>data'. c_memcpy data' 0 src (N - s) (n - (N - s)))) = Inr data' \<and>
    length data' = N \<and> (\<forall>j<n. data' ! ((s + j) mod N) = src ! j) \<and>
    (\<forall>k<N. (\<forall>j<n. (s + j) mod N \<noteq> k) \<longrightarrow> data' ! k = data ! k)"
proof (cases "s + n \<le> N")
  case True
  define data' where "data' = take s data @ take n src @ drop (s + n) data"
  have "data' ! k = data ! k" if "k < N" "\<forall>j<n. (s + j) mod N \<noteq> k" for k
  proof (cases "s \<le> k \<and> k < s + n")
    case True
    then have "(s + (k - s)) mod N \<noteq> k" using that(2) by (metis less_diff_conv2 add.commute)
    then show ?thesis using True that(1) by simp
  qed (use True s in \<open>auto simp: data'_def nth_append N_def\<close>)
  moreover have "data' ! ((s + j) mod N) = src ! j" if "j < n" for j
    using that s True by (simp add: data'_def nth_append)
  ultimately show ?thesis using True s by (auto simp: c_memcpy_def data'_def N_def)
next
  case False
  define a where "a = N - s"
  define data' where "data' = drop a (take n src) @ drop (n - a) (take s data @ take a src)"
  have a: "a \<le> n" "n - a \<le> s" "s + a = N" using False s by (auto simp: a_def N_def)
  have l: "length data' = N" using a s by (auto simp: data'_def N_def)
  have e: "k + a - length data = k - s" for k using a(3) by (simp add: N_def)
  have nth: "data' ! k = (if k < n - a then src ! (a + k) else if k < s then data ! k else src ! (k - s))" if "k < N" for k
    using that a s e [of k] by (auto simp: data'_def nth_append N_def)
  have wrap: "(s + j) mod N = j - a" if "a \<le> j" "j < n" for j
  proof -
    have "s + j = N + (j - a)" "j - a < N" using that a s(2) by (auto simp: N_def)
    then show ?thesis by simp
  qed
  have "data' ! ((s + j) mod N) = src ! j" if "j < n" for j
  proof (cases "j < a")
    case True
    then show ?thesis using nth [of "s + j"] a by simp
  next
    case False
    then have "(s + j) mod N = j - a" using wrap that by simp
    moreover have "j - a < n - a" "a + (j - a) = j" "j - a < N" using False that a by auto
    ultimately show ?thesis using nth [of "j - a"] by simp
  qed
  moreover have "data' ! k = data ! k" if "k < N" "\<forall>j<n. (s + j) mod N \<noteq> k" for k
  proof -
    have "\<not> k < n - a" using that(2) wrap [of "k + a"] by (auto simp: less_diff_conv)
    moreover have "k < s"
    proof (rule ccontr)
      assume "\<not> k < s"
      then have "(s + (k - s)) mod N = k" "k - s < n" using that(1) a by auto
      then show False using that(2) by blast
    qed
    ultimately show ?thesis using nth [OF that(1)] by auto
  qed
  moreover have "(if s + n \<le> N then c_memcpy data s src 0 n
      else sbind (c_memcpy data s src 0 (N - s)) (\<lambda>data'. c_memcpy data' 0 src (N - s) (n - (N - s)))) = Inr data'"
  proof -
    have "n + s - length data = n - a" "length data - s = a" using a by (auto simp: N_def)
    then show ?thesis using False a s by (simp add: c_memcpy_def data'_def N_def drop_take)
  qed
  ultimately show ?thesis using l by blast
qed

lemma fifo8_push_all_spec:
  assumes ok: "fifo_ok f" and n: "unat (fifo_num f) + unat n \<le> unat (fifo_capacity f)" "unat n \<le> length src"
  shows "\<exists>f'. fifo8_push_all f src n = Inr f' \<and> fifo_ok f' \<and> fifo_bytes f' = fifo_bytes f @ take (unat n) src \<and>
    fifo_room f' = fifo_room f"
proof -
  note D = fifo_okD [OF ok]
  define s where "s = (fifo_head f + fifo_num f) mod fifo_capacity f"
  have us: "unat s = (unat (fifo_head f) + unat (fifo_num f)) mod unat (fifo_capacity f)"
    using fifo_index [OF ok, of "fifo_num f"] D by (simp add: s_def)
  have s: "unat s < unat (fifo_capacity f)" using us D by simp
  have num: "unat (fifo_num f + n) = unat (fifo_num f) + length (take (unat n) src)"
    using n D by (simp add: unat_add_small)
  have words: "unat (s + n) = unat s + unat n" "unat (fifo_capacity f - s) = unat (fifo_capacity f) - unat s"
    using s n D by (auto simp: unat_add_small unat_sub word_le_nat_alt)
  have rest: "unat (n - (fifo_capacity f - s)) = unat n - (unat (fifo_capacity f) - unat s)" if "\<not> s + n \<le> fifo_capacity f"
    using that words by (simp add: unat_sub word_le_nat_alt)
  have le: "(s + n \<le> fifo_capacity f) = (unat s + unat n \<le> unat (fifo_capacity f))"
    using words by (simp add: word_le_nat_alt)
  have "(if s + n \<le> fifo_capacity f then c_memcpy (fifo_data f) (unat s) src 0 (unat n)
      else let avail = fifo_capacity f - s
           in sbind (c_memcpy (fifo_data f) (unat s) src 0 (unat avail)) (\<lambda>data'.
                c_memcpy data' 0 src (unat avail) (unat (n - avail)))) =
    (if unat s + unat n \<le> unat (fifo_capacity f) then c_memcpy (fifo_data f) (unat s) src 0 (unat n)
      else sbind (c_memcpy (fifo_data f) (unat s) src 0 (unat (fifo_capacity f) - unat s)) (\<lambda>data'.
        c_memcpy data' 0 src (unat (fifo_capacity f) - unat s) (unat n - (unat (fifo_capacity f) - unat s))))"
    by (cases "s + n \<le> fifo_capacity f") (simp_all add: le [symmetric] words(2) rest Let_def)
  then obtain data' where d: "(if s + n \<le> fifo_capacity f then c_memcpy (fifo_data f) (unat s) src 0 (unat n)
      else let avail = fifo_capacity f - s
           in sbind (c_memcpy (fifo_data f) (unat s) src 0 (unat avail)) (\<lambda>data'.
                c_memcpy data' 0 src (unat avail) (unat (n - avail)))) = Inr data'"
    "length data' = unat (fifo_capacity f)" "\<forall>j < unat n. data' ! ((unat s + j) mod unat (fifo_capacity f)) = src ! j"
    "\<forall>k < unat (fifo_capacity f). (\<forall>j < unat n. (unat s + j) mod unat (fifo_capacity f) \<noteq> k) \<longrightarrow> data' ! k = fifo_data f ! k"
    using ring_write [of "unat s" "fifo_data f" "unat n" src] s n unfolding D(1) by (metis add_leE)
  have "fifo8_push_all f src n = Inr (f\<lparr> fifo_data := data', fifo_num := fifo_num f + n \<rparr>)"
    using d(1) num n D(2) by (simp add: fifo8_push_all_def c_umod_def s_def [symmetric] word_less_nat_alt not_less)
  moreover have "fifo_bytes (f\<lparr> fifo_data := data', fifo_num := fifo_num f + n \<rparr>) = fifo_bytes f @ take (unat n) src"
    "fifo_ok (f\<lparr> fifo_data := data', fifo_num := fifo_num f + n \<rparr>)"
    using fifo_append [OF ok _ _ num, of data'] d(2-4) n D(1) by (auto simp: us mod_add_left_eq)
  ultimately show ?thesis by (auto simp: fifo_room_def)
qed

lemma c_memcpy_out: "length dst < off + n \<Longrightarrow> c_memcpy dst off src soff n = Inl Out_of_bounds"
  by (simp add: c_memcpy_def buf_write_def)

lemma c_memcpy_cases: "c_memcpy dst off src soff n = Inl Out_of_bounds \<or> (\<exists>dst'. c_memcpy dst off src soff n = Inr dst' \<and> length dst' = length dst)"
  by (auto simp: c_memcpy_def buf_write_def)

section \<open>The interface of a queue\<close>

text \<open>
  What a client needs of a bounded queue of bytes: \<open>push\<close> appends and \<open>pop\<close> takes from the front, both
  abort at the ends, and neither changes the room.
\<close>

locale byte_queue =
  fixes ok :: "'s \<Rightarrow> bool" and bytes :: "'s \<Rightarrow> u8 list" and room :: "'s \<Rightarrow> nat"
    and push :: "'s \<Rightarrow> u8 \<Rightarrow> c_error + 's" and pop :: "'s \<Rightarrow> c_error + u8 \<times> 's"
  assumes bounded: "ok s \<Longrightarrow> length (bytes s) \<le> room s"
    and push_room: "ok s \<Longrightarrow> length (bytes s) < room s \<Longrightarrow> \<exists>s'. push s d = Inr s' \<and> ok s' \<and> bytes s' = bytes s @ [d] \<and> room s' = room s"
    and push_full: "ok s \<Longrightarrow> length (bytes s) = room s \<Longrightarrow> push s d = Inl Aborted"
    and pop_some: "ok s \<Longrightarrow> bytes s = d # q \<Longrightarrow> \<exists>s'. pop s = Inr (d, s') \<and> ok s' \<and> bytes s' = q \<and> room s' = room s"
    and pop_empty: "ok s \<Longrightarrow> bytes s = [] \<Longrightarrow> pop s = Inl Aborted"
begin

lemma push_each_appends:
  "ok s \<Longrightarrow> length (bytes s) + length ds \<le> room s \<Longrightarrow>
   \<exists>s'. push_each push s ds = Inr s' \<and> ok s' \<and> bytes s' = bytes s @ ds \<and> room s' = room s"
proof (induction ds arbitrary: s)
  case (Cons d ds)
  then obtain s' where s': "push s d = Inr s'" "ok s'" "bytes s' = bytes s @ [d]" "room s' = room s"
    using push_room [of s d] by auto
  then obtain s'' where "push_each push s' ds = Inr s''" "ok s''" "bytes s'' = bytes s' @ ds" "room s'' = room s'"
    using Cons.IH [of s'] Cons.prems by auto
  then show ?case using s' by auto
qed simp

lemma pop_each_front:
  "ok s \<Longrightarrow> bytes s = ds @ q \<Longrightarrow> \<exists>s'. pop_each pop s (length ds) = Inr (ds, s') \<and> ok s' \<and> bytes s' = q \<and> room s' = room s"
proof (induction ds arbitrary: s)
  case (Cons d ds)
  then obtain s' where s': "pop s = Inr (d, s')" "ok s'" "bytes s' = ds @ q" "room s' = room s"
    using pop_some [of s d "ds @ q"] by auto
  then obtain s'' where "pop_each pop s' (length ds) = Inr (ds, s'')" "ok s''" "bytes s'' = q" "room s'' = room s'"
    using Cons.IH [of s'] by auto
  then show ?case using s' by auto
qed simp

lemma fifo_order:
  assumes "ok s" "bytes s = []" "length ds \<le> room s"
  shows "\<exists>s1 s2. push_each push s ds = Inr s1 \<and> pop_each pop s1 (length ds) = Inr (ds, s2) \<and> bytes s2 = []"
  using push_each_appends [of s ds] pop_each_front [of _ ds "[]"] assms by fastforce

lemma cmd_refines:
  assumes exec: "\<And>d. exec (Push d) s = sbind (push s d) (\<lambda>s'. Inr ([], s'))" "exec Pop s = sbind (pop s) (\<lambda>(d, s'). Inr ([d], s'))"
    "exec Reset s = Inr ([], reset s)" "ok s \<Longrightarrow> ok (reset s) \<and> bytes (reset s) = [] \<and> room (reset s) = room s"
    and ok: "ok s"
  shows "case exec c s of Inl e \<Rightarrow> queue_cmd (room s) c (bytes s) = Inl e
    | Inr (out, s') \<Rightarrow> queue_cmd (room s) c (bytes s) = Inr (out, bytes s') \<and> ok s' \<and> room s' = room s"
proof (cases c)
  case (Push d)
  then show ?thesis using push_room [OF ok, of d] push_full [OF ok, of d] bounded [OF ok] exec(1)
    by (cases "length (bytes s) < room s") auto
next
  case Pop
  then show ?thesis using pop_some [OF ok] pop_empty [OF ok] exec(2) by (cases "bytes s") fastforce+
qed (use exec(3,4) ok in auto)

end

lemma fifo8_reset_spec: "fifo_ok f \<Longrightarrow> fifo_ok (fifo8_reset f) \<and> fifo_bytes (fifo8_reset f) = [] \<and> fifo_room (fifo8_reset f) = fifo_room f"
  by (auto simp: fifo_ok_def fifo8_reset_def fifo_bytes_def fifo_room_def)

interpretation fq: byte_queue fifo_ok fifo_bytes fifo_room fifo8_push fifo8_pop
proof unfold_locales
  show "fifo_ok s \<Longrightarrow> length (fifo_bytes s) \<le> fifo_room s" for s using fifo_okD [of s] by (simp add: fifo_room_def)
qed (auto simp: fifo8_push_spec fifo8_pop_spec)

lemma fifo8_cmd_refines:
  assumes "fifo_ok f"
  shows "case fifo8_cmd c f of Inl e \<Rightarrow> queue_cmd (fifo_room f) c (fifo_bytes f) = Inl e
    | Inr (out, f') \<Rightarrow> queue_cmd (fifo_room f) c (fifo_bytes f) = Inr (out, fifo_bytes f') \<and> fifo_ok f' \<and> fifo_room f' = fifo_room f"
  by (rule fq.cmd_refines [where reset = fifo8_reset]) (use assms fifo8_reset_spec in auto)

section \<open>Properties\<close>

text \<open>
  C24: Any sequence of pushes, pops and resets on a FIFO gives the bytes, and fails where, the same sequence on a
  bounded queue does, and leaves a well formed FIFO that holds the queue's bytes.
\<close>

theorem fifo8_refines_queue:
  assumes "fifo_ok f"
  shows "case run_cmds fifo8_cmd cs f of
      Inl e \<Rightarrow> run_cmds (queue_cmd (fifo_room f)) cs (fifo_bytes f) = Inl e
    | Inr (out, f') \<Rightarrow> run_cmds (queue_cmd (fifo_room f)) cs (fifo_bytes f) = Inr (out, fifo_bytes f') \<and> fifo_ok f'"
  using assms
proof (induction cs arbitrary: f)
  case (Cons c cs)
  show ?case
  proof (cases "fifo8_cmd c f")
    case (Inl e)
    then show ?thesis using fifo8_cmd_refines [OF Cons.prems, of c] by simp
  next
    case (Inr r)
    then obtain out f' where r: "fifo8_cmd c f = Inr (out, f')" by (cases r) auto
    then show ?thesis using fifo8_cmd_refines [OF Cons.prems, of c] Cons.IH [of f'] by (auto split: sum.splits prod.splits)
  qed
qed simp

text \<open>
  C25: fifo8_push_all, which copies in at most two pieces around the end of the array, does what pushing the
  bytes one at a time does, whenever they fit.
\<close>

theorem fifo8_push_all_each:
  assumes "fifo_ok f" "unat (fifo_num f) + unat n \<le> unat (fifo_capacity f)" "unat n \<le> length src"
  shows "\<exists>f1 f2. fifo8_push_all f src n = Inr f1 \<and> push_each fifo8_push f (take (unat n) src) = Inr f2 \<and>
    fifo_bytes f1 = fifo_bytes f2 \<and> fifo_bytes f1 = fifo_bytes f @ take (unat n) src"
  using fifo8_push_all_spec [OF assms] fq.push_each_appends [OF assms(1), of "take (unat n) src"] assms(2,3)
  by (auto simp: fifo_room_def)

text \<open>
  C26: What fifo8_pop_buf points to are the first bytes of the queue, at least one and at most as many as asked for, in
  the array without a wrap around its end; the queue keeps the others.
\<close>

theorem fifo8_pop_buf_prefix:
  assumes "fifo_ok f" "0 < max_n" "max_n \<le> fifo_num f"
  shows "\<exists>off k f'. fifo8_pop_buf f max_n = Inr (off, k, f') \<and> 0 < k \<and> k \<le> max_n \<and> fifo_ok f' \<and>
    off + unat k \<le> length (fifo_data f) \<and> take (unat k) (drop off (fifo_data f')) @ fifo_bytes f' = fifo_bytes f"
  by (rule fifo8_pop_buf_spec [OF assms])

text \<open>
  C27: The test of fifo8_push_all for room is made in 32 bits: a count that wraps the sum around passes it, and the copy
  leaves the array instead of the abort.
\<close>

theorem fifo8_push_all_wraps:
  assumes "fifo_ok f" "fifo_capacity f \<le> 0x40000000" "0 < fifo_num f" "length src = unat (- fifo_num f)"
  shows "fifo8_push_all f src (- fifo_num f) = Inl Out_of_bounds"
proof -
  note D = fifo_okD [OF assms(1)]
  define n s where "n = - fifo_num f" and "s = (fifo_head f + fifo_num f) mod fifo_capacity f"
  have c: "unat (fifo_capacity f) \<le> 1073741824" using assms(2) by (simp add: word_le_nat_alt)
  then have n: "unat n \<ge> 3221225472" "n \<noteq> 0" 
    using assms(3) D(5) unat_sub_if_size [of 0 "fifo_num f"] by (auto simp: n_def word_size word_less_nat_alt)
  have s: "unat (fifo_capacity f - s) = unat (fifo_capacity f) - unat s" "s < fifo_capacity f"
    using D(2,6) by (auto simp: s_def unat_sub word_le_nat_alt word_less_nat_alt unat_mod intro: less_imp_le)
  have r: "unat (n - (fifo_capacity f - s)) = unat n - unat (fifo_capacity f - s)"
    using n c s by (simp add: unat_sub word_le_nat_alt)
  have one: "c_memcpy (fifo_data f) (unat s) src 0 (unat n) = Inl Out_of_bounds"
    using n(1) c D(1) by (intro c_memcpy_out) linarith
  have two: "c_memcpy d 0 src a (unat (n - (fifo_capacity f - s))) = Inl Out_of_bounds" if "length d = length (fifo_data f)" for d a
    using that n(1) c D(1) r s(1) by (intro c_memcpy_out) linarith
  have "sbind (c_memcpy (fifo_data f) (unat s) src 0 a) (\<lambda>d. c_memcpy d 0 src a' (unat (n - (fifo_capacity f - s)))) = Inl Out_of_bounds" for a a'
    using c_memcpy_cases [of "fifo_data f" "unat s" src 0 a] two by auto
  then show ?thesis using one D(2) unfolding fifo8_push_all_def n_def [symmetric] c_umod_def s_def [symmetric]
    by (simp add: n_def Let_def)
qed

theorem fifo8_push_all_wraps_witness:
  "fifo8_push_all \<lparr> fifo_data = [1, 2, 3, 4], fifo_capacity = 4, fifo_head = 0, fifo_num = 2 \<rparr> (replicate 4294967294 0) (- 2) =
   Inl Out_of_bounds"
  using fifo8_push_all_wraps [of "\<lparr> fifo_data = [1, 2, 3, 4], fifo_capacity = 4, fifo_head = 0, fifo_num = 2 \<rparr>" "replicate 4294967294 0"]
  by (simp add: fifo_ok_def)

theorem fifo8_refines_queue_witness:
  "case run_cmds fifo8_cmd [Push 7, Pop] (fifo8_create [0, 0] 2) of
      Inl e \<Rightarrow> run_cmds (queue_cmd 2) [Push 7, Pop] [] = Inl e
    | Inr (out, f') \<Rightarrow> run_cmds (queue_cmd 2) [Push 7, Pop] [] = Inr (out, fifo_bytes f') \<and> fifo_ok f'"
proof -
  have "fifo_ok (fifo8_create [0, 0] 2)" "fifo_room (fifo8_create [0, 0] 2) = 2" "fifo_bytes (fifo8_create [0, 0] 2) = []"
    by (simp_all add: fifo_ok_def fifo8_create_def fifo_room_def fifo_bytes_def)
  then show ?thesis using fifo8_refines_queue [of "fifo8_create [0, 0] 2" "[Push 7, Pop]"] by (simp only:)
qed

theorem fifo8_push_all_each_witness:
  "\<exists>f1. fifo8_push_all (fifo8_create [0, 0] 2) [8, 9] 2 = Inr f1 \<and> fifo_bytes f1 = [8, 9]"
  using fifo8_push_all_each [of "fifo8_create [0, 0] 2" 2 "[8, 9]"]
  by (auto simp: fifo_ok_def fifo8_create_def fifo_room_def fifo_bytes_def)

theorem fifo8_pop_buf_prefix_witness:
  "\<exists>off k f'. fifo8_pop_buf \<lparr> fifo_data = [1, 2, 3, 4], fifo_capacity = 4, fifo_head = 3, fifo_num = 2 \<rparr> 2 = Inr (off, k, f') \<and> fifo_ok f'"
  using fifo8_pop_buf_prefix [of "\<lparr> fifo_data = [1, 2, 3, 4], fifo_capacity = 4, fifo_head = 3, fifo_num = 2 \<rparr>" 2]
  by (fastforce simp: fifo_ok_def)

end
