(* ===== verification/HBitmap.thy ===== *)
theory HBitmap
  imports Bitmap
begin

text \<open>
  Hierarchical bitmaps, \<open>util/hbitmap.c\<close> and \<open>include/qemu/hbitmap.h\<close>, on a host with 64 bit longs:
  seven stacked bitmaps in which a bit of one level says whether a word of the next level is non-zero.
  The arguments and the counters of the interface keep their 64 bits.  Positions inside the levels are
  natural numbers: every array access fails outside the array, arrays have less than \<open>2 ^ 36\<close> words, and
  the first access of each operation that is out of range ends it, so no position wraps around.
\<close>

section \<open>Operations\<close>

definition HBITMAP_LEVELS :: nat where "HBITMAP_LEVELS = 7"

definition HBITMAP_LOG_MAX_SIZE :: nat where "HBITMAP_LOG_MAX_SIZE = 41"

record HBitmap =
  hb_size :: u64
  hb_count :: u64
  hb_granularity :: nat
  hb_levels :: "u64 list list"

record HBitmapIter =
  it_granularity :: nat
  it_pos :: nat
  it_cur :: "u64 list"

text \<open>The first loop of \<open>hbitmap_iter_skip_words\<close>: up to the lowest level with bits left.\<close>

fun iter_climb :: "u64 list \<Rightarrow> nat \<Rightarrow> nat \<Rightarrow> c_error + nat \<times> u64 \<times> nat" where
  "iter_climb cur pos 0 = Inl Out_of_bounds"
| "iter_climb cur pos (Suc i) =
     sbind (buf_get cur i) (\<lambda>c. if c = 0 then iter_climb cur (pos div 64) i else Inr (i, c, pos div 64))"

text \<open>The second loop, \<open>n\<close> levels down from level \<open>i\<close>.\<close>

fun iter_descend :: "u64 list list \<Rightarrow> u64 list \<Rightarrow> u64 \<Rightarrow> nat \<Rightarrow> nat \<Rightarrow> nat \<Rightarrow> c_error + u64 list \<times> u64 \<times> nat" where
  "iter_descend levels cur c pos i 0 = Inr (cur, c, pos)"
| "iter_descend levels cur c pos i (Suc n) =
     sbind (c_assert (c \<noteq> 0)) (\<lambda>_.
     let pos' = 64 * pos + ctz64 c
     in sbind (buf_put cur i (c AND (c - 1))) (\<lambda>cur'.
        sbind (buf_get levels (i + 1)) (\<lambda>level.
        sbind (buf_get level pos') (\<lambda>c'. iter_descend levels cur' c' pos' (i + 1) n))))"

definition hbitmap_iter_skip_words :: "HBitmap \<Rightarrow> HBitmapIter \<Rightarrow> c_error + u64 \<times> HBitmapIter" where
  "hbitmap_iter_skip_words hb hbi =
     sbind (iter_climb (it_cur hbi) (it_pos hbi) (HBITMAP_LEVELS - 1)) (\<lambda>(i, c, pos).
       if i = 0 \<and> c = push_bit 63 1 then Inr (0, hbi)
       else sbind (iter_descend (hb_levels hb) (it_cur hbi) c pos i (HBITMAP_LEVELS - 1 - i)) (\<lambda>(cur', c', pos').
            sbind (c_assert (c' \<noteq> 0)) (\<lambda>_. Inr (c', hbi\<lparr> it_pos := pos', it_cur := cur' \<rparr>))))"

text \<open>The loop of \<open>hbitmap_iter_init\<close>, from level \<open>i - 1\<close> to level 0.\<close>

fun iter_init_levels :: "u64 list list \<Rightarrow> u64 list \<Rightarrow> nat \<Rightarrow> nat \<Rightarrow> c_error + u64 list" where
  "iter_init_levels levels cur pos 0 = Inr cur"
| "iter_init_levels levels cur pos (Suc i) =
     (let b = pos mod 64; pos' = pos div 64
      in sbind (buf_get levels i) (\<lambda>level.
         sbind (buf_get level pos') (\<lambda>w.
         let c = w AND NOT (push_bit b 1 - 1);
             c' = (if i \<noteq> HBITMAP_LEVELS - 1 then c AND NOT (push_bit b 1) else c)
         in sbind (buf_put cur i c') (\<lambda>cur'. iter_init_levels levels cur' pos' i))))"

definition hbitmap_iter_init :: "HBitmap \<Rightarrow> u64 \<Rightarrow> c_error + HBitmapIter" where
  "hbitmap_iter_init hb first =
     (let pos = drop_bit (hb_granularity hb) first
      in sbind (c_assert (pos < hb_size hb)) (\<lambda>_.
         sbind (iter_init_levels (hb_levels hb) (replicate HBITMAP_LEVELS 0) (unat pos) HBITMAP_LEVELS) (\<lambda>cur.
           Inr \<lparr> it_granularity = hb_granularity hb, it_pos = unat pos div 64, it_cur = cur \<rparr>)))"

definition hbitmap_iter_next :: "HBitmap \<Rightarrow> HBitmapIter \<Rightarrow> c_error + u64 option \<times> HBitmapIter" where
  "hbitmap_iter_next hb hbi =
     sbind (buf_get (it_cur hbi) (HBITMAP_LEVELS - 1)) (\<lambda>cur.
     sbind (if cur = 0 then hbitmap_iter_skip_words hb hbi else Inr (cur, hbi)) (\<lambda>(cur, hbi).
       if cur = 0 then Inr (None, hbi)
       else sbind (buf_put (it_cur hbi) (HBITMAP_LEVELS - 1) (cur AND (cur - 1))) (\<lambda>cur'.
              Inr (Some (push_bit (it_granularity hbi) (push_bit 6 (of_nat (it_pos hbi)) + of_nat (ctz64 cur))),
                   hbi\<lparr> it_cur := cur' \<rparr>))))"

definition hbitmap_iter_next_word :: "HBitmap \<Rightarrow> HBitmapIter \<Rightarrow> c_error + (nat \<times> u64) option \<times> HBitmapIter" where
  "hbitmap_iter_next_word hb hbi =
     sbind (buf_get (it_cur hbi) (HBITMAP_LEVELS - 1)) (\<lambda>cur.
     sbind (if cur = 0 then hbitmap_iter_skip_words hb hbi else Inr (cur, hbi)) (\<lambda>(cur, hbi).
       if cur = 0 then Inr (None, hbi)
       else sbind (buf_put (it_cur hbi) (HBITMAP_LEVELS - 1) 0) (\<lambda>cur'.
              Inr (Some (it_pos hbi, cur), hbi\<lparr> it_cur := cur' \<rparr>))))"

definition hbitmap_empty :: "HBitmap \<Rightarrow> bool" where
  "hbitmap_empty hb \<longleftrightarrow> hb_count hb = 0"

definition hbitmap_granularity :: "HBitmap \<Rightarrow> nat" where
  "hbitmap_granularity hb = hb_granularity hb"

definition hbitmap_count :: "HBitmap \<Rightarrow> u64" where
  "hbitmap_count hb = push_bit (hb_granularity hb) (hb_count hb)"

text \<open>The loop of \<open>hb_count_between\<close>; each round takes a later word, so the number of words bounds the rounds.\<close>

fun count_words :: "nat \<Rightarrow> HBitmap \<Rightarrow> HBitmapIter \<Rightarrow> nat \<Rightarrow> u64 \<Rightarrow> c_error + u64" where
  "count_words 0 hb hbi fin count = Inl No_return"
| "count_words (Suc fuel) hb hbi fin count =
     sbind (hbitmap_iter_next_word hb hbi) (\<lambda>(next_word, hbi').
       case next_word of
         None \<Rightarrow> Inr count
       | Some (pos, cur) \<Rightarrow>
           if pos \<ge> fin div 64
           then Inr (if pos = fin div 64 then count + of_nat (ctpop64 (cur AND (push_bit (fin mod 64) 1 - 1))) else count)
           else count_words fuel hb hbi' fin (count + of_nat (ctpop64 cur)))"

definition hb_count_between :: "HBitmap \<Rightarrow> u64 \<Rightarrow> u64 \<Rightarrow> c_error + u64" where
  "hb_count_between hb start lst =
     sbind (hbitmap_iter_init hb (push_bit (hb_granularity hb) start)) (\<lambda>hbi.
       count_words (length (concat (hb_levels hb)) + 2) hb hbi (unat (lst + 1)) 0)"

definition hb_elem_mask :: "nat \<Rightarrow> nat \<Rightarrow> u64" where
  "hb_elem_mask start lst = push_bit (lst mod 64) 2 - push_bit (start mod 64) 1"

definition hb_set_elem :: "u64 \<Rightarrow> nat \<Rightarrow> nat \<Rightarrow> c_error + bool \<times> u64" where
  "hb_set_elem elem start lst =
     sbind (c_assert (lst div 64 = start div 64)) (\<lambda>_. sbind (c_assert (start \<le> lst)) (\<lambda>_.
       Inr (elem = 0, elem OR hb_elem_mask start lst)))"

text \<open>The element operation applied to word \<open>i\<close> of a level.\<close>

definition on_elem :: "(u64 \<Rightarrow> c_error + bool \<times> u64) \<Rightarrow> u64 list \<Rightarrow> nat \<Rightarrow> c_error + bool \<times> u64 list" where
  "on_elem f ws i =
     sbind (buf_get ws i) (\<lambda>w. sbind (f w) (\<lambda>(b, w'). sbind (buf_put ws i w') (\<lambda>ws'. Inr (b, ws'))))"

text \<open>The loop over the \<open>n\<close> whole words after word \<open>i\<close>.\<close>

fun set_whole :: "u64 list \<Rightarrow> nat \<Rightarrow> nat \<Rightarrow> bool \<Rightarrow> c_error + bool \<times> u64 list" where
  "set_whole ws i 0 changed = Inr (changed, ws)"
| "set_whole ws i (Suc n) changed =
     sbind (buf_get ws i) (\<lambda>w. sbind (buf_put ws i (- 1)) (\<lambda>ws'. set_whole ws' (Suc i) n (changed \<or> w = 0)))"

definition set_level :: "u64 list \<Rightarrow> nat \<Rightarrow> nat \<Rightarrow> c_error + bool \<times> u64 list" where
  "set_level ws start lst =
     (let pos = start div 64; lastpos = lst div 64
      in if pos < lastpos
         then let nxt = 64 * (pos + 1)
              in sbind (on_elem (\<lambda>w. hb_set_elem w start (nxt - 1)) ws pos) (\<lambda>(b1, ws1).
                 sbind (set_whole ws1 (pos + 1) (lastpos - pos - 1) b1) (\<lambda>(b2, ws2).
                 sbind (on_elem (\<lambda>w. hb_set_elem w (64 * lastpos) lst) ws2 lastpos) (\<lambda>(b3, ws3).
                   Inr (b2 \<or> b3, ws3))))
         else on_elem (\<lambda>w. hb_set_elem w start lst) ws pos)"

fun hb_set_between :: "u64 list list \<Rightarrow> nat \<Rightarrow> nat \<Rightarrow> nat \<Rightarrow> c_error + u64 list list" where
  "hb_set_between levels level start lst =
     sbind (buf_get levels level) (\<lambda>ws.
     sbind (set_level ws start lst) (\<lambda>(changed, ws').
     sbind (buf_put levels level ws') (\<lambda>levels'.
       case level of
         0 \<Rightarrow> Inr levels'
       | Suc l \<Rightarrow> if changed then hb_set_between levels' l (start div 64) (lst div 64) else Inr levels')))"

definition hbitmap_set :: "HBitmap \<Rightarrow> u64 \<Rightarrow> u64 \<Rightarrow> c_error + HBitmap" where
  "hbitmap_set hb start count =
     (let lst = start + count - 1;
          start = drop_bit (hb_granularity hb) start;
          lst = drop_bit (hb_granularity hb) lst;
          count = lst - start + 1
      in sbind (hb_count_between hb start lst) (\<lambda>before.
         sbind (hb_set_between (hb_levels hb) (HBITMAP_LEVELS - 1) (unat start) (unat lst)) (\<lambda>levels'.
           Inr (hb\<lparr> hb_count := hb_count hb + (count - before), hb_levels := levels' \<rparr>))))"

definition hb_reset_elem :: "u64 \<Rightarrow> nat \<Rightarrow> nat \<Rightarrow> c_error + bool \<times> u64" where
  "hb_reset_elem elem start lst =
     sbind (c_assert (lst div 64 = start div 64)) (\<lambda>_. sbind (c_assert (start \<le> lst)) (\<lambda>_.
       let mask = hb_elem_mask start lst
       in Inr (elem \<noteq> 0 \<and> elem AND NOT mask = 0, elem AND NOT mask)))"

fun reset_whole :: "u64 list \<Rightarrow> nat \<Rightarrow> nat \<Rightarrow> bool \<Rightarrow> c_error + bool \<times> u64 list" where
  "reset_whole ws i 0 changed = Inr (changed, ws)"
| "reset_whole ws i (Suc n) changed =
     sbind (buf_get ws i) (\<lambda>w. sbind (buf_put ws i 0) (\<lambda>ws'. reset_whole ws' (Suc i) n (changed \<or> w \<noteq> 0)))"

text \<open>
  One level of \<open>hb_reset_between\<close>: whether a word became zero, the first and the last word whose bit the level
  above has to drop, and the new level.  \<open>lastpos\<close> may become -1, so it is an integer.
\<close>

definition reset_level :: "u64 list \<Rightarrow> nat \<Rightarrow> nat \<Rightarrow> c_error + (bool \<times> nat \<times> int) \<times> u64 list" where
  "reset_level ws start lst =
     (let pos = start div 64; lastpos = lst div 64
      in if pos < lastpos
         then let nxt = 64 * (pos + 1)
              in sbind (on_elem (\<lambda>w. hb_reset_elem w start (nxt - 1)) ws pos) (\<lambda>(b1, ws1).
                 sbind (reset_whole ws1 (pos + 1) (lastpos - pos - 1) b1) (\<lambda>(b2, ws2).
                 sbind (on_elem (\<lambda>w. hb_reset_elem w (64 * lastpos) lst) ws2 lastpos) (\<lambda>(b3, ws3).
                   Inr ((b2 \<or> b3, if b1 then pos else pos + 1, if b3 then int lastpos else int lastpos - 1), ws3))))
         else sbind (on_elem (\<lambda>w. hb_reset_elem w start lst) ws pos) (\<lambda>(b, ws').
                Inr ((b, pos, if b then int lastpos else int lastpos - 1), ws')))"

fun hb_reset_between :: "u64 list list \<Rightarrow> nat \<Rightarrow> nat \<Rightarrow> nat \<Rightarrow> c_error + u64 list list" where
  "hb_reset_between levels level start lst =
     sbind (buf_get levels level) (\<lambda>ws.
     sbind (reset_level ws start lst) (\<lambda>((changed, pos, lastpos), ws').
     sbind (buf_put levels level ws') (\<lambda>levels'.
       case level of
         0 \<Rightarrow> Inr levels'
       | Suc l \<Rightarrow> if changed then hb_reset_between levels' l pos (nat lastpos) else Inr levels')))"

definition hbitmap_reset :: "HBitmap \<Rightarrow> u64 \<Rightarrow> u64 \<Rightarrow> c_error + HBitmap" where
  "hbitmap_reset hb start count =
     (let lst = start + count - 1;
          start = drop_bit (hb_granularity hb) start;
          lst = drop_bit (hb_granularity hb) lst
      in sbind (hb_count_between hb start lst) (\<lambda>before.
         sbind (hb_reset_between (hb_levels hb) (HBITMAP_LEVELS - 1) (unat start) (unat lst)) (\<lambda>levels'.
           Inr (hb\<lparr> hb_count := hb_count hb - before, hb_levels := levels' \<rparr>))))"

definition hbitmap_get :: "HBitmap \<Rightarrow> u64 \<Rightarrow> c_error + bool" where
  "hbitmap_get hb item =
     (let pos = unat (drop_bit (hb_granularity hb) item)
      in sbind (buf_get (hb_levels hb) (HBITMAP_LEVELS - 1)) (\<lambda>level.
         sbind (buf_get level (pos div 64)) (\<lambda>w. Inr (w AND push_bit (pos mod 64) 1 \<noteq> 0))))"

text \<open>Freed levels have no words: an access to them fails.\<close>

definition hbitmap_free :: "HBitmap \<Rightarrow> HBitmap" where
  "hbitmap_free hb = hb\<lparr> hb_levels := map (\<lambda>_. []) (hb_levels hb) \<rparr>"

text \<open>The loop of \<open>hbitmap_alloc\<close>: \<open>n\<close> levels from the last one up, in front of those already made; with the size of the first.\<close>

fun alloc_levels :: "u64 \<Rightarrow> nat \<Rightarrow> u64 list list \<Rightarrow> u64 \<times> u64 list list" where
  "alloc_levels sz 0 levels = (sz, levels)"
| "alloc_levels sz (Suc n) levels =
     (let sz' = max (drop_bit 6 (sz + 64 - 1)) 1 in alloc_levels sz' n (replicate (unat sz') 0 # levels))"

definition hbitmap_alloc :: "u64 \<Rightarrow> nat \<Rightarrow> c_error + HBitmap" where
  "hbitmap_alloc sz granularity =
     sbind (c_assert (granularity < 64)) (\<lambda>_.
     let sz = drop_bit granularity (sz + push_bit granularity 1 - 1)
     in sbind (c_assert (sz \<le> push_bit HBITMAP_LOG_MAX_SIZE 1)) (\<lambda>_.
        let (sz0, levels) = alloc_levels sz HBITMAP_LEVELS []
        in sbind (c_assert (sz0 = 1)) (\<lambda>_.
           sbind (buf_get levels 0) (\<lambda>level0.
           sbind (upd_word level0 0 (\<lambda>w. w OR push_bit 63 1)) (\<lambda>level0'.
             Inr \<lparr> hb_size = sz, hb_count = 0, hb_granularity = granularity, hb_levels = level0' # tl levels \<rparr>)))))"

declare hb_set_between.simps [simp del] hb_reset_between.simps [simp del]

section \<open>One level\<close>

lemma hb_elem_mask_bit:
  assumes "start div 64 = lst div 64" "start \<le> lst" "j < 64"
  shows "bit (hb_elem_mask start lst) j \<longleftrightarrow> start \<le> 64 * (start div 64) + j \<and> 64 * (start div 64) + j \<le> lst"
proof -
  define a b where "a = start mod 64" and "b = lst mod 64"
  have ab: "a \<le> b" "b < 64" "start = 64 * (start div 64) + a" "lst = 64 * (start div 64) + b"
    using mult_div_mod_eq [of 64 start] mult_div_mod_eq [of 64 lst] assms unfolding a_def b_def by (linarith | simp)+
  have "push_bit b 2 = (push_bit (Suc b) 1 :: u64)" by (simp add: push_bit_eq_mult)
  then have "hb_elem_mask start lst = mask (Suc b) - (mask a :: u64)"
    by (simp add: hb_elem_mask_def a_def [symmetric] b_def [symmetric] mask_eq_exp_minus_1 push_bit_eq_mult)
  also have "\<dots> = mask (Suc b) AND NOT (mask a)"
    using ab(1) by (intro disjunctive_diff_eq_and_not) (auto simp: word_eq_bits bit_simps)
  finally show ?thesis using ab assms(3) by (auto simp: bit_simps)
qed

lemma on_elem_in:
  "i < length ws \<Longrightarrow> f (ws ! i) = Inr (b, w) \<Longrightarrow> on_elem f ws i = Inr (b, ws[i := w])"
  by (simp add: on_elem_def buf_put_def)

text \<open>The bits of a level after an operation on the bits from \<open>lo\<close> to \<open>hi\<close>.\<close>

definition set_bits :: "u64 list \<Rightarrow> nat \<Rightarrow> nat \<Rightarrow> u64 list \<Rightarrow> bool" where
  "set_bits ws lo hi ws' \<longleftrightarrow> length ws' = length ws \<and> (\<forall>x. bit_at ws' x = (bit_at ws x \<or> lo \<le> x \<and> x \<le> hi))"

definition reset_bits :: "u64 list \<Rightarrow> nat \<Rightarrow> nat \<Rightarrow> u64 list \<Rightarrow> bool" where
  "reset_bits ws lo hi ws' \<longleftrightarrow> length ws' = length ws \<and> (\<forall>x. bit_at ws' x = (bit_at ws x \<and> \<not> (lo \<le> x \<and> x \<le> hi)))"

lemma elem_mask_range:
  assumes "start div 64 = lst div 64" "start \<le> lst"
  shows "x div 64 = lst div 64 \<and> bit (hb_elem_mask start lst) (x mod 64) \<longleftrightarrow> start \<le> x \<and> x \<le> lst"
proof (cases "x div 64 = lst div 64")
  case True
  then have "64 * (start div 64) + x mod 64 = x" using assms(1) mult_div_mod_eq [of 64 x] by simp
  then show ?thesis using hb_elem_mask_bit [OF assms(1,2), of "x mod 64"] True by simp
next
  case False
  then have "\<not> (start \<le> x \<and> x \<le> lst)" using assms(1) div_le_mono [of start x 64] div_le_mono [of x lst 64] by auto
  then show ?thesis using False by simp
qed

lemma bit_at_bitwise:
  "k < length ws \<Longrightarrow> bitwise upd g \<Longrightarrow> bit_at (ws[k := upd m (ws ! k)]) x = g (x div 64 = k \<and> bit m (x mod 64)) (bit_at ws x)"
  by (cases "x div 64 = k") (auto simp: bit_at_upd bitwise_def bit_at_def)

lemma set_elem_level:
  assumes "start div 64 = lst div 64" "start \<le> lst" "lst div 64 < length ws"
  shows "\<exists>ws'. on_elem (\<lambda>w. hb_set_elem w start lst) ws (lst div 64) = Inr (ws ! (lst div 64) = 0, ws') \<and>
    set_bits ws start lst ws' \<and> (\<forall>k. k \<noteq> lst div 64 \<longrightarrow> ws' ! k = ws ! k)"
proof -
  have "on_elem (\<lambda>w. hb_set_elem w start lst) ws (lst div 64) =
      Inr (ws ! (lst div 64) = 0, ws[lst div 64 := ws ! (lst div 64) OR hb_elem_mask start lst])"
    using assms by (intro on_elem_in) (auto simp: hb_set_elem_def)
  moreover have "set_bits ws start lst (ws[lst div 64 := ws ! (lst div 64) OR hb_elem_mask start lst])"
    using bit_at_bitwise [OF assms(3) bitwise_ops(1), of "hb_elem_mask start lst"] elem_mask_range [OF assms(1,2)]
    by (auto simp: set_bits_def)
  ultimately show ?thesis by auto
qed

lemma reset_elem_level:
  assumes "start div 64 = lst div 64" "start \<le> lst" "lst div 64 < length ws"
  shows "\<exists>ws'. on_elem (\<lambda>w. hb_reset_elem w start lst) ws (lst div 64) = Inr (ws ! (lst div 64) \<noteq> 0 \<and> ws' ! (lst div 64) = 0, ws') \<and>
    reset_bits ws start lst ws' \<and> (\<forall>k. k \<noteq> lst div 64 \<longrightarrow> ws' ! k = ws ! k)"
proof -
  let ?ws = "ws[lst div 64 := ws ! (lst div 64) AND NOT (hb_elem_mask start lst)]"
  have "on_elem (\<lambda>w. hb_reset_elem w start lst) ws (lst div 64) = Inr (ws ! (lst div 64) \<noteq> 0 \<and> ?ws ! (lst div 64) = 0, ?ws)"
    using assms by (intro on_elem_in) (auto simp: hb_reset_elem_def Let_def)
  moreover have "reset_bits ws start lst ?ws"
    using bit_at_bitwise [OF assms(3) bitwise_ops(2), of "hb_elem_mask start lst"] elem_mask_range [OF assms(1,2)]
    by (auto simp: reset_bits_def)
  ultimately show ?thesis by (intro exI [of _ ?ws]) simp
qed

lemma set_whole_level:
  "i + n \<le> length ws \<Longrightarrow>
   \<exists>ws'. set_whole ws i n c = Inr (c \<or> (\<exists>k. i \<le> k \<and> k < i + n \<and> ws ! k = 0), ws') \<and> length ws' = length ws \<and>
     (\<forall>k. ws' ! k = (if i \<le> k \<and> k < i + n then - 1 else ws ! k))"
proof (induction n arbitrary: ws i c)
  case (Suc n)
  have s: "(i \<le> k \<and> k < i + Suc n) = (k = i \<or> Suc i \<le> k \<and> k < Suc i + n)" for k by auto
  obtain ws' where "set_whole (ws[i := - 1]) (Suc i) n (c \<or> ws ! i = 0) =
      Inr ((c \<or> ws ! i = 0) \<or> (\<exists>k. Suc i \<le> k \<and> k < Suc i + n \<and> ws[i := - 1] ! k = 0), ws')" "length ws' = length ws"
      "\<forall>k. ws' ! k = (if Suc i \<le> k \<and> k < Suc i + n then - 1 else ws[i := - 1] ! k)"
    using Suc.IH [of "Suc i" "ws[i := - 1]" "c \<or> ws ! i = 0"] Suc.prems by auto
  then show ?case using Suc.prems unfolding conj_assoc [symmetric] s
    by (intro exI [of _ ws']) (auto simp: buf_put_def nth_list_update)
qed auto

lemma reset_whole_level:
  "i + n \<le> length ws \<Longrightarrow>
   \<exists>ws'. reset_whole ws i n c = Inr (c \<or> (\<exists>k. i \<le> k \<and> k < i + n \<and> ws ! k \<noteq> 0), ws') \<and> length ws' = length ws \<and>
     (\<forall>k. ws' ! k = (if i \<le> k \<and> k < i + n then 0 else ws ! k))"
proof (induction n arbitrary: ws i c)
  case (Suc n)
  have s: "(i \<le> k \<and> k < i + Suc n) = (k = i \<or> Suc i \<le> k \<and> k < Suc i + n)" for k by auto
  obtain ws' where "reset_whole (ws[i := 0]) (Suc i) n (c \<or> ws ! i \<noteq> 0) =
      Inr ((c \<or> ws ! i \<noteq> 0) \<or> (\<exists>k. Suc i \<le> k \<and> k < Suc i + n \<and> ws[i := 0] ! k \<noteq> 0), ws')" "length ws' = length ws"
      "\<forall>k. ws' ! k = (if Suc i \<le> k \<and> k < Suc i + n then 0 else ws[i := 0] ! k)"
    using Suc.IH [of "Suc i" "ws[i := 0]" "c \<or> ws ! i \<noteq> 0"] Suc.prems by auto
  then show ?case using Suc.prems unfolding conj_assoc [symmetric] s
    by (intro exI [of _ ws']) (auto simp: buf_put_def nth_list_update)
qed auto

lemma word_nonzero: "k < length ws \<Longrightarrow> ws ! k \<noteq> 0 \<longleftrightarrow> (\<exists>j<64. bit_at ws (64 * k + j))"
  by (auto simp: bit_at_word word_eq_bits)

lemma words_of_bits: "64 * i \<le> x \<and> x < 64 * (i + n) \<longleftrightarrow> i \<le> x div 64 \<and> x div 64 < i + n" for x :: nat
  by (auto simp: less_mult_imp_div_less div_less_iff_less_mult mult.commute less_eq_div_iff_mult_less_eq)

lemma whole_bits:
  assumes "length ws' = length ws" "i + n \<le> length ws" "\<forall>k. ws' ! k = (if i \<le> k \<and> k < i + n then w else ws ! k)"
  shows "bit_at ws' x = (if 64 * i \<le> x \<and> x < 64 * (i + n) then bit w (x mod 64) else bit_at ws x)"
  unfolding words_of_bits using assms by (auto simp: bit_at_def)

lemma split_range: "a \<le> Suc b \<Longrightarrow> b \<le> c \<Longrightarrow> (a \<le> x \<and> x \<le> c) = ((a \<le> x \<and> x \<le> b) \<or> (Suc b \<le> x \<and> x \<le> c))"
  by auto

lemma set_bits_trans:
  assumes "set_bits ws a b ws1" "set_bits ws1 (Suc b) c ws2" "a \<le> Suc b" "b \<le> c"
  shows "set_bits ws a c ws2"
  using assms(1,2) unfolding set_bits_def split_range [OF assms(3,4)] by simp

lemma reset_bits_trans:
  assumes "reset_bits ws a b ws1" "reset_bits ws1 (Suc b) c ws2" "a \<le> Suc b" "b \<le> c"
  shows "reset_bits ws a c ws2"
  using assms(1,2) unfolding reset_bits_def split_range [OF assms(3,4)] by simp

lemma set_level_bits:
  assumes r: "start \<le> lst" "lst < 64 * length ws"
  shows "\<exists>ws'. set_level ws start lst = Inr (\<exists>k. start div 64 \<le> k \<and> k \<le> lst div 64 \<and> ws ! k = 0, ws') \<and> set_bits ws start lst ws'"
proof -
  define p q where "p = start div 64" and "q = lst div 64"
  have pq: "p \<le> q" "q < length ws" using r by (auto simp: p_def q_def div_le_mono)
  show ?thesis
  proof (cases "p < q")
    case False
    then have "start div 64 = lst div 64" using pq by (simp add: p_def q_def)
    moreover from this have "(\<exists>k. start div 64 \<le> k \<and> k \<le> lst div 64 \<and> ws ! k = 0) = (ws ! (lst div 64) = 0)"
      using le_antisym by auto
    ultimately show ?thesis using set_elem_level [of start lst ws] r(1) pq by (auto simp: set_level_def q_def)
  next
    case True
    define e where "e = 64 * (p + 1) - 1"
    have e: "e div 64 = p" "Suc e = 64 * (p + 1)" "start \<le> e" using mult_div_mod_eq [of 64 start] mod_less_divisor [of 64 start]
      by (auto simp: e_def p_def)
    obtain ws1 where 1: "on_elem (\<lambda>w. hb_set_elem w start e) ws p = Inr (ws ! p = 0, ws1)" "set_bits ws start e ws1"
        "\<forall>k. k \<noteq> p \<longrightarrow> ws1 ! k = ws ! k"
      using set_elem_level [of start e ws] e True pq by (auto simp: p_def)
    define n where "n = q - p - 1"
    have n: "p + 1 + n = q" using True by (simp add: n_def)
    have l1: "length ws1 = length ws" using 1(2) by (simp add: set_bits_def)
    obtain ws2 where 2: "set_whole ws1 (p + 1) n (ws ! p = 0) = Inr (ws ! p = 0 \<or> (\<exists>k. p + 1 \<le> k \<and> k < q \<and> ws1 ! k = 0), ws2)"
        "length ws2 = length ws1" "\<forall>k. ws2 ! k = (if p + 1 \<le> k \<and> k < p + 1 + n then - 1 else ws1 ! k)"
      using set_whole_level [of "p + 1" n ws1 "ws ! p = 0"] n l1 pq(2) by auto
    have "set_bits ws1 (Suc e) (64 * q - 1) ws2"
      using whole_bits [OF 2(2) _ 2(3)] 2(2) n l1 pq(2) e(2) True by (auto simp: set_bits_def)
    then have b2: "set_bits ws start (64 * q - 1) ws2" using set_bits_trans [OF 1(2)] e True by auto
    obtain ws3 where 3: "on_elem (\<lambda>w. hb_set_elem w (64 * q) lst) ws2 q = Inr (ws2 ! q = 0, ws3)" "set_bits ws2 (64 * q) lst ws3"
      using set_elem_level [of "64 * q" lst ws2] pq(2) 2(2) l1 by (auto simp: q_def)
    have q64: "64 * q \<le> lst" "Suc (64 * q - 1) = 64 * q" "start \<le> 64 * q" using True e by (auto simp: q_def)
    have "set_bits ws start lst ws3" using set_bits_trans [OF b2, of lst ws3] 3(2) q64 by simp
    moreover have "set_level ws start lst = Inr ((ws ! p = 0 \<or> (\<exists>k. p + 1 \<le> k \<and> k < q \<and> ws1 ! k = 0)) \<or> ws2 ! q = 0, ws3)"
      using True 1(1) 2(1) 3(1)
      by (simp add: set_level_def Let_def p_def [symmetric] q_def [symmetric] e_def [symmetric, simplified] n_def [symmetric, simplified])
    moreover have "((ws ! p = 0 \<or> (\<exists>k. p + 1 \<le> k \<and> k < q \<and> ws1 ! k = 0)) \<or> ws2 ! q = 0) = (\<exists>k. p \<le> k \<and> k \<le> q \<and> ws ! k = 0)"
    proof -
      have s: "(p \<le> k \<and> k \<le> q) = (k = p \<or> p + 1 \<le> k \<and> k < q \<or> k = q)" for k using True by auto
      have "(\<exists>k. p \<le> k \<and> k \<le> q \<and> ws ! k = 0) = ((ws ! p = 0 \<or> (\<exists>k. (p + 1 \<le> k \<and> k < q) \<and> ws ! k = 0)) \<or> ws ! q = 0)"
        unfolding conj_assoc [symmetric] s by blast
      moreover have "ws2 ! q = ws ! q" using 2(3) 1(3) n True by simp
      moreover have "((p + 1 \<le> k \<and> k < q) \<and> ws1 ! k = 0) = ((p + 1 \<le> k \<and> k < q) \<and> ws ! k = 0)" for k using 1(3) by auto
      ultimately show ?thesis by (simp only: conj_assoc)
    qed
    ultimately show ?thesis unfolding p_def [symmetric] q_def [symmetric] by auto
  qed
qed

text \<open>
  What one level tells the level above after a reset: whether a word became zero, and then the words
  \<open>p\<close> to \<open>q\<close> are those whose bit the level above has to drop.
\<close>

definition blanked :: "u64 list \<Rightarrow> nat \<Rightarrow> nat \<Rightarrow> u64 list \<Rightarrow> bool \<Rightarrow> nat \<Rightarrow> int \<Rightarrow> bool" where
  "blanked ws lo hi ws' c p q \<longleftrightarrow>
     (\<not> c \<longrightarrow> (\<forall>k < length ws. (ws' ! k \<noteq> 0) = (ws ! k \<noteq> 0))) \<and>
     (c \<longrightarrow> lo \<le> p \<and> int p \<le> q \<and> q \<le> int hi \<and> (\<forall>k < length ws. (ws' ! k \<noteq> 0) = (ws ! k \<noteq> 0 \<and> \<not> (p \<le> k \<and> int k \<le> q))))"

lemma blankedI:
  assumes "\<forall>k < length ws. ws ! k = 0 \<longrightarrow> ws' ! k = 0" "\<forall>k. \<not> (lo \<le> k \<and> k \<le> hi) \<longrightarrow> ws' ! k = ws ! k"
    and "\<not> c \<Longrightarrow> \<forall>k. lo \<le> k \<and> k \<le> hi \<longrightarrow> ws ! k \<noteq> 0 \<longrightarrow> ws' ! k \<noteq> 0"
    and "c \<Longrightarrow> lo \<le> p \<and> int p \<le> q \<and> q \<le> int hi"
    and "c \<Longrightarrow> \<forall>k. lo \<le> k \<and> k \<le> hi \<longrightarrow> (if p \<le> k \<and> int k \<le> q then ws' ! k = 0 else ws ! k \<noteq> 0 \<longrightarrow> ws' ! k \<noteq> 0)"
  shows "blanked ws lo hi ws' c p q"
proof (cases c)
  case True
  have "(ws' ! k \<noteq> 0) = (ws ! k \<noteq> 0 \<and> \<not> (p \<le> k \<and> int k \<le> q))" if "k < length ws" for k
  proof (cases "lo \<le> k \<and> k \<le> hi")
    case in_range: True
    then show ?thesis using assms(1) assms(5) [OF True] that by (auto split: if_splits)
  next
    case False
    moreover from this have "\<not> (p \<le> k \<and> int k \<le> q)" using assms(4) [OF True] by auto
    ultimately show ?thesis using assms(2) by simp
  qed
  then show ?thesis using assms(4) True by (simp add: blanked_def)
next
  case False
  then show ?thesis using assms(1-3) by (simp add: blanked_def) metis
qed

lemma reset_zero: "reset_bits ws a b ws' \<Longrightarrow> k < length ws \<Longrightarrow> ws ! k = 0 \<Longrightarrow> ws' ! k = 0"
  using word_nonzero [of k ws'] word_nonzero [of k ws] by (auto simp: reset_bits_def)

lemma reset_level_one:
  assumes r: "start \<le> lst" "lst div 64 < length ws" "start div 64 = lst div 64"
  shows "\<exists>ws' c p q. reset_level ws start lst = Inr ((c, p, q), ws') \<and> reset_bits ws start lst ws' \<and>
    blanked ws (start div 64) (lst div 64) ws' c p q"
proof -
  define q where "q = lst div 64"
  obtain ws' where w: "on_elem (\<lambda>w. hb_reset_elem w start lst) ws q = Inr (ws ! q \<noteq> 0 \<and> ws' ! q = 0, ws')"
      "reset_bits ws start lst ws'" "\<forall>k. k \<noteq> q \<longrightarrow> ws' ! k = ws ! k"
    using reset_elem_level [OF r(3,1,2)] by (auto simp: q_def)
  define c where "c \<longleftrightarrow> ws ! q \<noteq> 0 \<and> ws' ! q = 0"
  have "(q \<le> k \<and> k \<le> q) = (k = q)" for k by auto
  then have "blanked ws q q ws' c q (if c then int q else int q - 1)"
    using w(3) reset_zero [OF w(2)] by (intro blankedI) (auto simp: c_def)
  moreover have "reset_level ws start lst = Inr ((c, q, if c then int q else int q - 1), ws')"
    using w(1) r(3) by (simp add: reset_level_def c_def q_def Let_def)
  ultimately show ?thesis using w(2) r(3) by (simp add: q_def [symmetric])
qed

lemma reset_level_bits:
  assumes r: "start \<le> lst" "lst < 64 * length ws"
  shows "\<exists>ws' c p q. reset_level ws start lst = Inr ((c, p, q), ws') \<and> reset_bits ws start lst ws' \<and>
    blanked ws (start div 64) (lst div 64) ws' c p q"
proof (cases "start div 64 < lst div 64")
  case False
  then show ?thesis using r by (intro reset_level_one) (auto intro: le_antisym div_le_mono)
next
  case True
  define p q e n where "p = start div 64" and "q = lst div 64" and "e = 64 * (p + 1) - 1" and "n = q - p - 1"
  have pq: "p < q" "q < length ws" using True r by (auto simp: p_def q_def)
  have e: "e div 64 = p" "Suc e = 64 * (p + 1)" "start \<le> e" using mult_div_mod_eq [of 64 start] mod_less_divisor [of 64 start]
    by (auto simp: e_def p_def)
  obtain ws1 where 1: "on_elem (\<lambda>w. hb_reset_elem w start e) ws p = Inr (ws ! p \<noteq> 0 \<and> ws1 ! p = 0, ws1)" "reset_bits ws start e ws1"
      "\<forall>k. k \<noteq> p \<longrightarrow> ws1 ! k = ws ! k"
    using reset_elem_level [of start e ws] e pq by (auto simp: p_def)
  define c1 where "c1 \<longleftrightarrow> ws ! p \<noteq> 0 \<and> ws1 ! p = 0"
  have n: "p + 1 + n = q" and l1: "length ws1 = length ws" using pq 1(2) by (auto simp: n_def reset_bits_def)
  obtain ws2 where 2: "reset_whole ws1 (p + 1) n c1 = Inr (c1 \<or> (\<exists>k. p + 1 \<le> k \<and> k < q \<and> ws1 ! k \<noteq> 0), ws2)"
      "length ws2 = length ws1" "\<forall>k. ws2 ! k = (if p + 1 \<le> k \<and> k < p + 1 + n then 0 else ws1 ! k)"
    using reset_whole_level [of "p + 1" n ws1 c1] n l1 pq(2) by auto
  have "reset_bits ws1 (Suc e) (64 * q - 1) ws2"
    using whole_bits [OF 2(2) _ 2(3)] 2(2) n l1 pq e(2) by (auto simp: reset_bits_def)
  then have b2: "reset_bits ws start (64 * q - 1) ws2" using reset_bits_trans [OF 1(2)] e pq by auto
  obtain ws3 where 3: "on_elem (\<lambda>w. hb_reset_elem w (64 * q) lst) ws2 q = Inr (ws2 ! q \<noteq> 0 \<and> ws3 ! q = 0, ws3)" "reset_bits ws2 (64 * q) lst ws3"
      "\<forall>k. k \<noteq> q \<longrightarrow> ws3 ! k = ws2 ! k"
    using reset_elem_level [of "64 * q" lst ws2] pq(2) 2(2) l1 by (auto simp: q_def)
  have q64: "64 * q \<le> lst" "Suc (64 * q - 1) = 64 * q" "start \<le> 64 * q" using pq e by (auto simp: q_def)
  have b3: "reset_bits ws start lst ws3" using reset_bits_trans [OF b2, of lst ws3] 3(2) q64 by simp
  define c3 where "c3 \<longleftrightarrow> ws2 ! q \<noteq> 0 \<and> ws3 ! q = 0"
  define c where "c \<longleftrightarrow> (c1 \<or> (\<exists>k. p + 1 \<le> k \<and> k < q \<and> ws1 ! k \<noteq> 0)) \<or> c3"
  have w: "ws3 ! p = ws1 ! p" "ws2 ! q = ws ! q" "\<And>k. p < k \<Longrightarrow> k < q \<Longrightarrow> ws3 ! k = 0 \<and> ws1 ! k = ws ! k"
    "\<And>k. \<not> (p \<le> k \<and> k \<le> q) \<Longrightarrow> ws3 ! k = ws ! k"
    using 3(3) 2(3) 1(3) n pq by auto
  have s: "(p \<le> k \<and> k \<le> q) = (k = p \<or> p < k \<and> k < q \<or> k = q)" for k using pq by auto
  have "blanked ws p q ws3 c (if c1 then p else p + 1) (if c3 then int q else int q - 1)"
  proof (intro blankedI)
    show "\<not> c \<Longrightarrow> \<forall>k. p \<le> k \<and> k \<le> q \<longrightarrow> ws ! k \<noteq> 0 \<longrightarrow> ws3 ! k \<noteq> 0"
      unfolding s using w(1-3) by (auto simp: c_def c1_def c3_def)
    show "c \<Longrightarrow> p \<le> (if c1 then p else p + 1) \<and> int (if c1 then p else p + 1) \<le> (if c3 then int q else int q - 1) \<and>
        (if c3 then int q else int q - 1) \<le> int q"
      using pq(1) by (auto simp: c_def)
    show "c \<Longrightarrow> \<forall>k. p \<le> k \<and> k \<le> q \<longrightarrow> (if (if c1 then p else p + 1) \<le> k \<and> int k \<le> (if c3 then int q else int q - 1)
        then ws3 ! k = 0 else ws ! k \<noteq> 0 \<longrightarrow> ws3 ! k \<noteq> 0)"
      unfolding s using w(1-3) pq(1) by (auto simp: c1_def c3_def)
  qed (use reset_zero [OF b3] w(4) in auto)
  moreover have "reset_level ws start lst = Inr ((c, if c1 then p else p + 1, if c3 then int q else int q - 1), ws3)"
    using pq(1) 1(1) [folded c1_def] 2(1) 3(1) [folded c3_def]
    by (simp add: reset_level_def Let_def p_def [symmetric] q_def [symmetric] e_def [symmetric, simplified] n_def [symmetric, simplified] c_def)
  ultimately show ?thesis using b3 unfolding p_def [symmetric] q_def [symmetric] by blast
qed

section \<open>The stack of levels\<close>

text \<open>Bit \<open>N\<close> of a level says whether word \<open>N\<close> of the next level is non-zero; bit 63 of level 0 is the sentinel.\<close>

definition summary :: "u64 list list \<Rightarrow> nat \<Rightarrow> nat \<Rightarrow> bool" where
  "summary levels l N \<longleftrightarrow> N < length (levels ! Suc l) \<and> levels ! Suc l ! N \<noteq> 0 \<or> l = 0 \<and> N = 63"

definition linked :: "u64 list list \<Rightarrow> nat \<Rightarrow> bool" where
  "linked levels l \<longleftrightarrow> (\<forall>N. bit_at (levels ! l) N = summary levels l N)"

definition shape :: "u64 list list \<Rightarrow> bool" where
  "shape levels \<longleftrightarrow> length levels = 7 \<and> length (levels ! 0) = 1 \<and> length (levels ! 1) \<le> 63 \<and>
     (\<forall>l<6. length (levels ! Suc l) \<le> 64 * length (levels ! l))"

definition tower :: "u64 list list \<Rightarrow> bool" where
  "tower levels \<longleftrightarrow> shape levels \<and> (\<forall>l<6. linked levels l)"

lemma shape_upd:
  assumes "shape levels" "length ws = length (levels ! k)"
  shows "shape (levels[k := ws])" "length (levels[k := ws] ! l) = length (levels ! l)"
proof -
  show e: "length (levels[k := ws] ! l) = length (levels ! l)" for l
    using assms by (cases "k < length levels") (auto simp: nth_list_update list_update_beyond)
  show "shape (levels[k := ws])" using assms(1) by (simp add: shape_def e)
qed

lemma linked_upd: "l \<noteq> k \<Longrightarrow> Suc l \<noteq> k \<Longrightarrow> linked (levels[k := ws]) l = linked levels l"
  by (simp add: linked_def summary_def)

lemma summary_upd: "Suc l \<noteq> k \<Longrightarrow> summary (levels[k := ws]) l = summary levels l"
  by (simp add: summary_def fun_eq_iff)

lemma set_nonzero:
  assumes "set_bits ws start lst ws'" "k < length ws" "start \<le> lst"
  shows "ws' ! k \<noteq> 0 \<longleftrightarrow> ws ! k \<noteq> 0 \<or> start div 64 \<le> k \<and> k \<le> lst div 64"
proof -
  have "(\<exists>j<64. start \<le> 64 * k + j \<and> 64 * k + j \<le> lst) \<longleftrightarrow> start div 64 \<le> k \<and> k \<le> lst div 64"
  proof
    assume "\<exists>j<64. start \<le> 64 * k + j \<and> 64 * k + j \<le> lst"
    then obtain j where "j < 64" "start \<le> 64 * k + j" "64 * k + j \<le> lst" by blast
    then show "start div 64 \<le> k \<and> k \<le> lst div 64" using div_le_mono [of start "64 * k + j" 64] div_le_mono [of "64 * k + j" lst 64] by simp
  next
    assume k: "start div 64 \<le> k \<and> k \<le> lst div 64"
    show "\<exists>j<64. start \<le> 64 * k + j \<and> 64 * k + j \<le> lst"
    proof (cases "k = start div 64")
      case True
      then show ?thesis using assms(3) by (intro exI [of _ "start mod 64"]) simp
    next
      case False
      then have "start \<le> 64 * k" "64 * k \<le> lst" using k by (auto simp: less_eq_div_iff_mult_less_eq mult.commute) 
      then show ?thesis by (intro exI [of _ 0]) simp
    qed
  qed
  moreover have "k < length ws'" using assms by (simp add: set_bits_def)
  ultimately show ?thesis using assms(1,2) word_nonzero [of k ws] word_nonzero [of k ws'] by (auto simp: set_bits_def)
qed

text \<open>The state of \<open>hb_set_between\<close> and \<open>hb_reset_between\<close> on entry to a level: only its own link is open.\<close>

definition open_at :: "u64 list list \<Rightarrow> nat \<Rightarrow> nat \<Rightarrow> nat \<Rightarrow> bool" where
  "open_at levels level start lst \<longleftrightarrow> shape levels \<and> level < 7 \<and> start \<le> lst \<and> lst < 64 * length (levels ! level) \<and>
     (level = 0 \<longrightarrow> lst < 63) \<and> (\<forall>l<6. l \<noteq> level \<longrightarrow> linked levels l)"

definition closes :: "u64 list list \<Rightarrow> nat \<Rightarrow> u64 list list \<Rightarrow> bool" where
  "closes levels level levels' \<longleftrightarrow> tower levels' \<and> (\<forall>l>level. levels' ! l = levels ! l) \<and> (\<forall>l. length (levels' ! l) = length (levels ! l))"

lemma open_at_up:
  assumes "open_at levels (Suc m) start lst" "length ws = length (levels ! Suc m)"
    and "Suc m < 6 \<Longrightarrow> linked (levels[Suc m := ws]) (Suc m)" "p \<le> q" "q < length (levels ! Suc m)"
  shows "open_at (levels[Suc m := ws]) m p q"
proof -
  have s: "shape levels" "Suc m < 7" using assms(1) by (auto simp: open_at_def)
  have "length (levels ! Suc m) \<le> 64 * length (levels ! m)" "m = 0 \<Longrightarrow> length (levels ! Suc m) \<le> 63" using s by (auto simp: shape_def)
  moreover have "linked (levels[Suc m := ws]) l" if "l < 6" "l \<noteq> m" for l
    using that assms(1,3) linked_upd [of l "Suc m" levels ws] by (cases "l = Suc m") (auto simp: open_at_def)
  ultimately show ?thesis using assms s shape_upd [OF s(1) assms(2)] by (auto simp: open_at_def)
qed

lemma closes_here:
  assumes "open_at levels level start lst" "length ws = length (levels ! level)"
    and "\<forall>l<6. l = level \<or> Suc l = level \<longrightarrow> linked (levels[level := ws]) l"
  shows "closes levels level (levels[level := ws])"
proof -
  have "linked (levels[level := ws]) l" if "l < 6" for l
    using that assms(1,3) linked_upd [of l level levels ws] by (cases "l = level \<or> Suc l = level") (auto simp: open_at_def)
  moreover have "shape levels" using assms(1) by (simp add: open_at_def)
  ultimately show ?thesis using shape_upd [of levels ws level] assms(2) by (auto simp: closes_def tower_def)
qed

lemma set_between_closes:
  assumes "open_at levels level start lst"
    and "level < 6 \<Longrightarrow> \<forall>N. summary levels level N = (bit_at (levels ! level) N \<or> start \<le> N \<and> N \<le> lst)"
  shows "\<exists>levels'. hb_set_between levels level start lst = Inr levels' \<and> closes levels level levels' \<and>
    set_bits (levels ! level) start lst (levels' ! level)"
  using assms
proof (induction level arbitrary: levels start lst)
  case 0
  have o: "shape levels" "start \<le> lst" "lst < 64 * length (levels ! 0)" using "0.prems"(1) by (auto simp: open_at_def)
  obtain ws' c where ws: "set_level (levels ! 0) start lst = Inr (c, ws')" "set_bits (levels ! 0) start lst ws'"
    using set_level_bits [OF o(2,3)] by auto
  have l: "0 < length levels" using o(1) by (auto simp: shape_def)
  have "linked (levels[0 := ws']) 0"
    using "0.prems"(2) ws(2) l by (simp add: linked_def summary_upd set_bits_def)
  then have "closes levels 0 (levels[0 := ws'])"
    using "0.prems"(1) ws(2) by (intro closes_here) (auto simp: set_bits_def)
  then show ?case using ws l by (auto simp: hb_set_between.simps [of levels 0] buf_put_def)
next
  case (Suc m)
  have o: "shape levels" "start \<le> lst" "lst < 64 * length (levels ! Suc m)" using Suc.prems(1) by (auto simp: open_at_def)
  define ws where "ws = levels ! Suc m"
  obtain c ws' where c: "set_level ws start lst = Inr (c, ws')" "set_bits ws start lst ws'"
      "c \<longleftrightarrow> (\<exists>k. start div 64 \<le> k \<and> k \<le> lst div 64 \<and> ws ! k = 0)"
    using set_level_bits [OF o(2,3)] by (auto simp: ws_def)
  define levels1 where "levels1 = levels[Suc m := ws']"
  have m: "m < 6" "Suc m < length levels" using Suc.prems(1) by (auto simp: open_at_def shape_def)
  have len: "length ws' = length (levels ! Suc m)" "lst div 64 < length ws" using c(2) o(3) by (auto simp: set_bits_def ws_def)
  have own: "linked levels1 (Suc m)" if "Suc m < 6"
    using Suc.prems(2) [OF that] c(2) m by (simp add: linked_def levels1_def summary_upd set_bits_def ws_def)
  have up: "open_at levels1 m (start div 64) (lst div 64)" unfolding levels1_def
    by (rule open_at_up [OF Suc.prems(1) len(1)]) (use own o(2) len(2) in \<open>auto simp: levels1_def ws_def div_le_mono\<close>)
  have sm: "summary levels1 m N = (bit_at (levels1 ! m) N \<or> start div 64 \<le> N \<and> N \<le> lst div 64)" for N
  proof -
    have "bit_at (levels ! m) N = summary levels m N" using Suc.prems(1) m by (auto simp: open_at_def linked_def)
    then show ?thesis using set_nonzero [OF c(2) _ o(2), of N] len m by (auto simp: levels1_def summary_def ws_def)
  qed
  have step: "hb_set_between levels (Suc m) start lst = (if c then hb_set_between levels1 m (start div 64) (lst div 64) else Inr levels1)"
    using c(1) m by (simp add: hb_set_between.simps [of levels "Suc m"] buf_put_def ws_def levels1_def)
  have at: "levels1 ! Suc m = ws'" using m by (simp add: levels1_def)
  show ?case
  proof (cases c)
    case True
    obtain levels' where l': "hb_set_between levels1 m (start div 64) (lst div 64) = Inr levels'" "closes levels1 m levels'"
      using Suc.IH [OF up] sm by auto
    then have "closes levels (Suc m) levels'" "levels' ! Suc m = ws'"
      using at shape_upd(2) [OF o(1) len(1)] by (auto simp: closes_def levels1_def)
    then show ?thesis using step True l'(1) c(2) by (simp add: ws_def)
  next
    case False
    then have "start div 64 \<le> N \<and> N \<le> lst div 64 \<Longrightarrow> bit_at (levels1 ! m) N" for N
      using c(3) sm len(2) Suc.prems(1) m by (fastforce simp: open_at_def linked_def summary_def levels1_def ws_def)
    then have "linked levels1 m" using sm by (auto simp: linked_def)
    then have "closes levels (Suc m) levels1" unfolding levels1_def
      using closes_here [OF Suc.prems(1) len(1)] own by (auto simp: levels1_def)
    then show ?thesis using step False c(2) at by (simp add: ws_def)
  qed
qed

lemma reset_between_closes:
  assumes "open_at levels level start lst"
    and "level < 6 \<Longrightarrow> \<forall>N. summary levels level N = (bit_at (levels ! level) N \<and> \<not> (start \<le> N \<and> N \<le> lst))"
  shows "\<exists>levels'. hb_reset_between levels level start lst = Inr levels' \<and> closes levels level levels' \<and>
    reset_bits (levels ! level) start lst (levels' ! level)"
  using assms
proof (induction level arbitrary: levels start lst)
  case 0
  have o: "shape levels" "start \<le> lst" "lst < 64 * length (levels ! 0)" using "0.prems"(1) by (auto simp: open_at_def)
  obtain ws' r where ws: "reset_level (levels ! 0) start lst = Inr (r, ws')" "reset_bits (levels ! 0) start lst ws'"
    using reset_level_bits [OF o(2,3)] by auto
  have l: "0 < length levels" using o(1) by (auto simp: shape_def)
  have "linked (levels[0 := ws']) 0"
    using "0.prems"(2) ws(2) l by (simp add: linked_def summary_upd reset_bits_def)
  then have "closes levels 0 (levels[0 := ws'])"
    using "0.prems"(1) ws(2) by (intro closes_here) (auto simp: reset_bits_def)
  then show ?case using ws l by (cases r) (auto simp: hb_reset_between.simps [of levels 0] buf_put_def)
next
  case (Suc m)
  have o: "shape levels" "start \<le> lst" "lst < 64 * length (levels ! Suc m)" using Suc.prems(1) by (auto simp: open_at_def)
  define ws where "ws = levels ! Suc m"
  obtain c p q ws' where c: "reset_level ws start lst = Inr ((c, p, q), ws')" "reset_bits ws start lst ws'"
      "blanked ws (start div 64) (lst div 64) ws' c p q"
    using reset_level_bits [OF o(2,3)] by (auto simp: ws_def)
  define levels1 where "levels1 = levels[Suc m := ws']"
  have m: "m < 6" "Suc m < length levels" using Suc.prems(1) by (auto simp: open_at_def shape_def)
  have len: "length ws' = length (levels ! Suc m)" "lst div 64 < length ws" "length (levels ! Suc 0) \<le> 63"
    using c(2) o(1,3) by (auto simp: reset_bits_def ws_def shape_def)
  have own: "linked levels1 (Suc m)" if "Suc m < 6"
    using Suc.prems(2) [OF that] c(2) m by (simp add: linked_def levels1_def summary_upd reset_bits_def ws_def)
  have old: "bit_at (levels1 ! m) N = (N < length ws \<and> ws ! N \<noteq> 0 \<or> m = 0 \<and> N = 63)" for N
    using Suc.prems(1) m by (auto simp: open_at_def linked_def summary_def levels1_def ws_def)
  have new: "summary levels1 m N = (N < length ws \<and> ws' ! N \<noteq> 0 \<or> m = 0 \<and> N = 63)" for N
    using len m by (simp add: levels1_def summary_def ws_def)
  have step: "hb_reset_between levels (Suc m) start lst = (if c then hb_reset_between levels1 m p (nat q) else Inr levels1)"
    using c(1) m by (simp add: hb_reset_between.simps [of levels "Suc m"] buf_put_def ws_def levels1_def)
  have at: "levels1 ! Suc m = ws'" using m by (simp add: levels1_def)
  show ?case
  proof (cases c)
    case True
    then have pq: "p \<le> nat q" "nat q < length ws" "\<forall>k < length ws. (ws' ! k \<noteq> 0) = (ws ! k \<noteq> 0 \<and> \<not> (p \<le> k \<and> k \<le> nat q))"
      using c(3) len(2) by (auto simp: blanked_def le_nat_iff)
    have up: "open_at levels1 m p (nat q)" unfolding levels1_def
      by (rule open_at_up [OF Suc.prems(1) len(1)]) (use own pq in \<open>auto simp: levels1_def ws_def\<close>)
    have "summary levels1 m N = (bit_at (levels1 ! m) N \<and> \<not> (p \<le> N \<and> N \<le> nat q))" for N
      unfolding old new using pq len(3) by (auto simp: ws_def)
    then obtain levels' where l': "hb_reset_between levels1 m p (nat q) = Inr levels'" "closes levels1 m levels'"
      using Suc.IH [OF up] by auto
    then have "closes levels (Suc m) levels'" "levels' ! Suc m = ws'"
      using at shape_upd(2) [OF o(1) len(1)] by (auto simp: closes_def levels1_def)
    then show ?thesis using step True l'(1) c(2) by (simp add: ws_def)
  next
    case False
    then have "linked levels1 m" unfolding linked_def old new using c(3) by (auto simp: blanked_def)
    then have "closes levels (Suc m) levels1" unfolding levels1_def
      using closes_here [OF Suc.prems(1) len(1)] own by (auto simp: levels1_def)
    then show ?thesis using step False c(2) at by (simp add: ws_def)
  qed
qed

section \<open>Iteration\<close>

lemma clear_lowest:
  fixes c :: u64
  assumes "c \<noteq> 0"
  shows "bit (c AND (c - 1)) j \<longleftrightarrow> bit c j \<and> j \<noteq> ctz64 c"
proof -
  define k where "k = ctz64 c"
  have k: "k < 64" "bit c k" "\<forall>i<k. \<not> bit c i" using ctz64_lowest [OF assms] by (auto simp: k_def)
  define d where "d = c AND NOT (push_bit k 1)"
  have d: "bit d i \<longleftrightarrow> bit c i \<and> i \<noteq> k" for i using k(1) by (auto simp: d_def bit_simps dest: bit_imp_le_length)
  have "d + push_bit k 1 = d OR push_bit k 1"
    by (rule disjunctive_add_eq_or) (auto simp: word_eq_bits bit_simps d)
  also have "\<dots> = c" using k by (auto simp: word_eq_bits bit_simps d)
  finally have c: "c = d + push_bit k 1" by simp
  have "c - 1 = d + mask k" unfolding c by (simp add: mask_eq_exp_minus_1)
  also have "\<dots> = d OR mask k"
    using k(3) by (intro disjunctive_add_eq_or) (auto simp: word_eq_bits bit_simps d)
  finally have "c - 1 = d OR mask k" .
  then have "bit (c AND (c - 1)) j = (bit c j \<and> (bit d j \<or> j < k \<and> j < 64))"
    by (auto simp: bit_simps)
  then show ?thesis using k d by (auto simp: k_def [symmetric])
qed

text \<open>The part of an iterator at one level: the bits after the path \<open>p\<close> in the word of the path.\<close>

definition cur_ok :: "u64 list list \<Rightarrow> u64 list \<Rightarrow> nat \<Rightarrow> nat \<Rightarrow> bool" where
  "cur_ok levels cur l p \<longleftrightarrow> (\<forall>j<64. bit (cur ! l) j \<longleftrightarrow> p mod 64 < j \<and> bit_at (levels ! l) (64 * (p div 64) + j))"

fun path_ok :: "u64 list list \<Rightarrow> u64 list \<Rightarrow> nat \<Rightarrow> nat \<Rightarrow> bool" where
  "path_ok levels cur 0 p \<longleftrightarrow> cur_ok levels cur 0 p"
| "path_ok levels cur (Suc l) p \<longleftrightarrow> cur_ok levels cur (Suc l) p \<and> path_ok levels cur l (p div 64)"

lemma path_ok_cong: "(\<And>k. k \<le> l \<Longrightarrow> cur' ! k = cur ! k) \<Longrightarrow> path_ok levels cur' l p = path_ok levels cur l p"
  by (induction l arbitrary: p) (auto simp: cur_ok_def)

text \<open>The elements of a level, without the sentinel.\<close>

definition elem :: "u64 list list \<Rightarrow> nat \<Rightarrow> nat \<Rightarrow> bool" where
  "elem levels l N \<longleftrightarrow> bit_at (levels ! l) N \<and> \<not> (l = 0 \<and> N = 63)"

lemma elem_word:
  assumes "tower levels" "l < 6"
  shows "elem levels l N \<longleftrightarrow> N < length (levels ! Suc l) \<and> levels ! Suc l ! N \<noteq> 0"
  using assms by (auto simp: elem_def tower_def linked_def summary_def shape_def)

definition next_elem :: "u64 list list \<Rightarrow> nat \<Rightarrow> nat \<Rightarrow> nat \<Rightarrow> bool" where
  "next_elem levels l p N \<longleftrightarrow> elem levels l N \<and> p < N \<and> (\<forall>M. p < M \<and> M < N \<longrightarrow> \<not> elem levels l M)"

lemma cur_step:
  assumes c: "c \<noteq> 0" and b: "\<forall>j<64. bit c j \<longleftrightarrow> lo \<le> j \<and> bit_at (levels ! l) (64 * w + j)" and l: "l < length cur"
  shows "cur_ok levels (cur[l := c AND (c - 1)]) l (64 * w + ctz64 c)"
proof -
  define k where "k = ctz64 c"
  have k: "k < 64" "bit c k" "\<forall>i<k. \<not> bit c i" using ctz64_lowest [OF c] by (auto simp: k_def)
  have "lo \<le> k" using b k by blast
  then have "j < 64 \<Longrightarrow> (bit c j \<and> j \<noteq> k) = (k < j \<and> bit_at (levels ! l) (64 * w + j))" for j
    using b k by (cases j k rule: linorder_cases) simp_all
  then show ?thesis using k(1) l by (simp add: cur_ok_def clear_lowest [OF c] k_def [symmetric])
qed

definition iter_run :: "u64 list list \<Rightarrow> u64 list \<Rightarrow> nat \<Rightarrow> nat \<Rightarrow> c_error + (u64 list \<times> u64 \<times> nat) option" where
  "iter_run levels cur p l =
     sbind (iter_climb cur p (Suc l)) (\<lambda>(i, c, pos).
       if i = 0 \<and> c = push_bit 63 1 then Inr None
       else sbind (iter_descend levels cur c pos i (Suc l - i)) (\<lambda>r. Inr (Some r)))"

lemma iter_climb_le: "iter_climb cur p n = Inr (i, c, pos) \<Longrightarrow> i < n \<and> c \<noteq> 0"
proof (induction n arbitrary: p)
  case (Suc n)
  then show ?case
    by (cases "n < length cur"; cases "cur ! n = 0") (auto simp: buf_get_def less_Suc_eq)
qed simp

lemma iter_descend_Suc:
  "iter_descend levels cur c pos i (Suc n) =
   sbind (iter_descend levels cur c pos i 1) (\<lambda>(cur', c', pos'). iter_descend levels cur' c' pos' (Suc i) n)"
  by (simp add: sbind_assoc Let_def)

lemma iter_descend_snoc:
  "iter_descend levels cur c pos i (Suc n) =
   sbind (iter_descend levels cur c pos i n) (\<lambda>(cur', c', pos'). iter_descend levels cur' c' pos' (i + n) 1)"
proof (induction n arbitrary: cur c pos i)
  case (Suc n)
  show ?case
    unfolding iter_descend_Suc [of levels cur c pos i "Suc n"] iter_descend_Suc [of levels cur c pos i n] sbind_assoc
    by (rule arg_cong [where f = "sbind _"]) (auto simp: fun_eq_iff Suc.IH simp del: iter_descend.simps)
qed simp

lemma iter_run_Suc:
  assumes "cur ! Suc l = 0" "Suc l < length cur"
  shows "iter_run levels cur p (Suc l) =
    sbind (iter_run levels cur (p div 64) l) (\<lambda>r. case r of None \<Rightarrow> Inr None
      | Some (cur', c', pos') \<Rightarrow> sbind (iter_descend levels cur' c' pos' (Suc l) 1) (\<lambda>r. Inr (Some r)))"
proof (cases "iter_climb cur (p div 64) (Suc l)")
  case (Inl e)
  then show ?thesis using assms by (simp add: iter_run_def)
next
  case (Inr r)
  obtain i c pos where r: "r = (i, c, pos)" by (cases r)
  then have "i \<le> l" using iter_climb_le Inr by fastforce
  then have "Suc (Suc l) - i = Suc (Suc l - i)" "i + (Suc l - i) = Suc l" by auto
  then have d: "iter_descend levels cur c pos i (Suc (Suc l) - i) =
      sbind (iter_descend levels cur c pos i (Suc l - i)) (\<lambda>(cur', c', pos'). iter_descend levels cur' c' pos' (Suc l) 1)"
    using iter_descend_snoc [of levels cur c pos i "Suc l - i"] by simp
  have "iter_climb cur p (Suc (Suc l)) = Inr (i, c, pos)" using assms Inr r by simp
  then show ?thesis unfolding iter_run_def using Inr r
    by (cases "iter_descend levels cur c pos i (Suc l - i)") (auto simp: d simp del: iter_climb.simps iter_descend.simps)
qed

lemma sentinel_bit: "bit (push_bit 63 1 :: u64) n \<longleftrightarrow> n = 63"
  by (simp only: bit_push_bit_iff) (auto simp: bit_1_iff)

text \<open>
  One step down from word \<open>w\<close> of level \<open>l\<close>, whose bits from \<open>lo\<close> on are \<open>c\<close>: the result is the first element of
  the level from bit \<open>lo\<close> of the word on.
\<close>

lemma descend_one:
  assumes t: "tower levels" and l: "l < 6" "length cur = 7" and c: "c \<noteq> 0" "\<not> (l = 0 \<and> c = push_bit 63 1)"
    and b: "\<forall>j<64. bit c j \<longleftrightarrow> lo \<le> j \<and> bit_at (levels ! l) (64 * w + j)" and w: "l = 0 \<longrightarrow> w = 0"
  defines "N \<equiv> 64 * w + ctz64 c"
  shows "iter_descend levels cur c w l 1 = Inr (cur[l := c AND (c - 1)], levels ! Suc l ! N, N)"
    and "elem levels l N" "\<forall>M. 64 * w + lo \<le> M \<and> M < N \<longrightarrow> \<not> elem levels l M" "64 * w + lo \<le> N" "N div 64 = w"
    and "cur_ok levels (cur[l := c AND (c - 1)]) l N"
proof -
  define k where "k = ctz64 c"
  have k: "k < 64" "bit c k" "\<forall>i<k. \<not> bit c i" using ctz64_lowest [OF c(1)] by (auto simp: k_def)
  have "k \<noteq> 63" if "l = 0"
  proof
    assume "k = 63"
    then have "bit c n \<longleftrightarrow> n = 63" if "n < 64" for n using k that by (cases "n = 63") auto
    then have "c = push_bit 63 1" by (simp only: word_eq_bits sentinel_bit) simp
    then show False using c(2) that by simp
  qed
  then show e: "elem levels l N" using k b w by (cases "l = 0") (auto simp: elem_def N_def k_def [symmetric])
  show "iter_descend levels cur c w l 1 = Inr (cur[l := c AND (c - 1)], levels ! Suc l ! N, N)"
    using e t l c(1) by (simp add: elem_word [OF t l(1)] N_def buf_put_def tower_def shape_def Let_def)
  show "\<forall>M. 64 * w + lo \<le> M \<and> M < N \<longrightarrow> \<not> elem levels l M"
  proof (intro allI impI)
    fix M assume M: "64 * w + lo \<le> M \<and> M < N"
    define j where "j = M - 64 * w"
    have "M = 64 * w + j" "j < k" "lo \<le> j" using M by (auto simp: j_def N_def k_def)
    then show "\<not> elem levels l M" using k b by (auto simp: elem_def)
  qed
  show "64 * w + lo \<le> N" "N div 64 = w" using k b by (auto simp: N_def k_def [symmetric])
  show "cur_ok levels (cur[l := c AND (c - 1)]) l N" unfolding N_def using cur_step [OF c(1) b] l by simp
qed

lemma next_elem_up:
  assumes t: "tower levels" and l: "Suc l < 6" and z: "\<forall>j<64. \<not> (p mod 64 < j \<and> bit_at (levels ! Suc l) (64 * (p div 64) + j))"
    and N: "elem levels (Suc l) N" "p < N"
  shows "elem levels l (N div 64)" "p div 64 < N div 64"
proof -
  have b: "bit_at (levels ! Suc l) N" using N(1) by (simp add: elem_def)
  then have w: "N div 64 < length (levels ! Suc l)" "bit (levels ! Suc l ! (N div 64)) (N mod 64)" by (auto simp: bit_at_def)
  then have "levels ! Suc l ! (N div 64) \<noteq> 0" by auto
  then show "elem levels l (N div 64)" using elem_word [OF t, of l] l w by simp
  have "p div 64 \<noteq> N div 64"
  proof
    assume eq: "p div 64 = N div 64"
    then have "p mod 64 < N mod 64" using N(2) mult_div_mod_eq [of 64 p] mult_div_mod_eq [of 64 N] by linarith
    moreover have "64 * (p div 64) + N mod 64 = N" using eq by simp
    ultimately show False using z [rule_format, of "N mod 64"] b by simp
  qed
  then show "p div 64 < N div 64" using N(2) div_le_mono [of p N 64] by simp
qed

lemma next_elem_down:
  assumes n: "next_elem levels l (p div 64) w" and N: "elem levels (Suc l) N" "\<forall>M. 64 * w \<le> M \<and> M < N \<longrightarrow> \<not> elem levels (Suc l) M"
    "64 * w \<le> N" "N div 64 = w"
    and up: "\<And>M. elem levels (Suc l) M \<Longrightarrow> p < M \<Longrightarrow> elem levels l (M div 64)"
      "\<And>M. elem levels (Suc l) M \<Longrightarrow> p < M \<Longrightarrow> p div 64 < M div 64"
  shows "next_elem levels (Suc l) p N"
proof -
  have "p div 64 < N div 64" using n N(4) by (simp add: next_elem_def)
  then have "p < N" by (metis div_le_mono linorder_not_le)
  moreover have False if M: "p < M" "M < N" "elem levels (Suc l) M" for M
  proof -
    have "M div 64 \<le> w" using M(2) N(4) div_le_mono [of M N 64] by simp
    moreover have "\<not> M div 64 < w" using n up [OF M(3,1)] by (auto simp: next_elem_def)
    ultimately have "M div 64 = w" by simp
    then have "64 * w \<le> M" by auto
    then show False using N(2) M by blast
  qed
  ultimately show ?thesis using N(1) by (auto simp: next_elem_def)
qed

lemma full_word:
  "N < length (levels ! Suc l) \<Longrightarrow> \<forall>j<64. bit (levels ! Suc l ! N) j \<longleftrightarrow> 0 \<le> j \<and> bit_at (levels ! Suc l) (64 * N + j)"
  by (simp add: bit_at_word)

text \<open>The run from the top level, and a run that finds its element in the word it is in.\<close>

lemma iter_run_top:
  assumes t: "tower levels" and cur: "length cur = 7" and path: "path_ok levels cur 0 p" and len: "p < length (levels ! Suc 0)"
  shows "(\<forall>N>p. \<not> elem levels 0 N) \<and> iter_run levels cur p 0 = Inr None \<or>
    (\<exists>N cur'. next_elem levels 0 p N \<and> iter_run levels cur p 0 = Inr (Some (cur', levels ! Suc 0 ! N, N)) \<and>
      path_ok levels cur' 0 N \<and> length cur' = 7 \<and> (\<forall>k>0. cur' ! k = cur ! k))"
proof -
  have p: "p < 63" "p div 64 = 0" "p mod 64 = p" using len t by (auto simp: tower_def shape_def)
  define c where "c = cur ! 0"
  have b: "\<forall>j<64. bit c j \<longleftrightarrow> Suc p \<le> j \<and> bit_at (levels ! 0) (64 * 0 + j)"
    using path p by (simp add: cur_ok_def c_def Suc_le_eq)
  have s: "bit_at (levels ! 0) 63" using t by (auto simp: tower_def linked_def summary_def)
  then have c0: "c \<noteq> 0" using b p by (auto simp: word_eq_bits intro!: exI [of _ 63])
  have climb: "iter_climb cur p (Suc 0) = Inr (0, c, 0)" using c0 cur p by (simp add: c_def)
  show ?thesis
  proof (cases "c = push_bit 63 1")
    case True
    have "\<not> elem levels 0 N" if "N > p" for N
    proof
      assume e: "elem levels 0 N"
      then have "N < 64" "N \<noteq> 63" using t by (auto simp: elem_def bit_at_def tower_def shape_def)
      moreover have "bit c N" using b e that calculation(1) by (auto simp: elem_def)
      ultimately show False using True sentinel_bit [of N] by simp
    qed
    then show ?thesis using climb True by (simp add: iter_run_def del: iter_climb.simps)
  next
    case False
    have q: "(0 :: nat) < 6" "\<not> ((0 :: nat) = 0 \<and> c = push_bit 63 1)" using False by simp_all
    note d = descend_one [OF t q(1) cur c0 q(2) b impI [OF refl]]
    then have "next_elem levels 0 p (ctz64 c)" by (auto simp: next_elem_def Suc_le_eq)
    then show ?thesis using climb d False
      by (intro disjI2 exI [of _ "ctz64 c"] exI [of _ "cur[0 := c AND (c - 1)]"])
        (auto simp: iter_run_def cur simp del: iter_climb.simps iter_descend.simps)
  qed
qed

lemma iter_run_here:
  assumes t: "tower levels" and l: "Suc l < 6" and cur: "length cur = 7" and path: "path_ok levels cur (Suc l) p" and nz: "cur ! Suc l \<noteq> 0"
  shows "\<exists>N cur'. next_elem levels (Suc l) p N \<and> iter_run levels cur p (Suc l) = Inr (Some (cur', levels ! Suc (Suc l) ! N, N)) \<and>
      path_ok levels cur' (Suc l) N \<and> length cur' = 7 \<and> (\<forall>k>Suc l. cur' ! k = cur ! k)"
proof -
  define c where "c = cur ! Suc l"
  have nz: "c \<noteq> 0" using nz by (simp add: c_def)
  have co: "\<forall>j<64. bit c j \<longleftrightarrow> Suc (p mod 64) \<le> j \<and> bit_at (levels ! Suc l) (64 * (p div 64) + j)"
    using path by (simp add: cur_ok_def c_def Suc_le_eq)
  have up: "path_ok levels cur l (p div 64)" using path by simp
  have q: "\<not> (Suc l = 0 \<and> c = push_bit 63 1)" "Suc l = 0 \<longrightarrow> p div 64 = 0" by simp_all
  note d = descend_one [OF t l cur nz q(1) co q(2)]
  let ?N = "64 * (p div 64) + ctz64 c"
  let ?cur = "cur[Suc l := c AND (c - 1)]"
  have "iter_climb cur p (Suc (Suc l)) = Inr (Suc l, c, p div 64)" using nz l cur by (simp add: c_def)
  then have "iter_run levels cur p (Suc l) = Inr (Some (?cur, levels ! Suc (Suc l) ! ?N, ?N))"
    using d(1) by (simp add: iter_run_def del: iter_climb.simps iter_descend.simps)
  moreover have "64 * (p div 64) + Suc (p mod 64) = Suc p" using mult_div_mod_eq [of 64 p] by linarith
  then have "next_elem levels (Suc l) p ?N" using d(2-4) by (simp add: next_elem_def Suc_le_eq)
  moreover have "path_ok levels ?cur l (p div 64) = path_ok levels cur l (p div 64)" by (rule path_ok_cong) simp
  then have "path_ok levels ?cur (Suc l) ?N" using d(5,6) up by simp
  ultimately show ?thesis using cur by (intro exI [of _ ?N] exI [of _ ?cur]) auto
qed

lemma iter_run_next:
  assumes t: "tower levels" and "l < 6" "length cur = 7" "path_ok levels cur l p" "p < length (levels ! Suc l)"
  shows "(\<forall>N>p. \<not> elem levels l N) \<and> iter_run levels cur p l = Inr None \<or>
    (\<exists>N cur'. next_elem levels l p N \<and> iter_run levels cur p l = Inr (Some (cur', levels ! Suc l ! N, N)) \<and>
      path_ok levels cur' l N \<and> length cur' = 7 \<and> (\<forall>k>l. cur' ! k = cur ! k))"
  using assms(2-)
proof (induction l arbitrary: p)
  case 0
  then show ?case using iter_run_top [OF t] by blast
next
  case (Suc l)
  define c where "c = cur ! Suc l"
  have co: "\<forall>j<64. bit c j \<longleftrightarrow> Suc (p mod 64) \<le> j \<and> bit_at (levels ! Suc l) (64 * (p div 64) + j)"
    using Suc.prems(3) by (simp add: cur_ok_def c_def Suc_le_eq)
  have up: "path_ok levels cur l (p div 64)" using Suc.prems(3) by simp
  show ?case
  proof (cases "c = 0")
    case False
    then show ?thesis using iter_run_here [OF t Suc.prems(1-3)] by (simp add: c_def)
  next
    case True
    have z: "\<forall>j<64. \<not> (p mod 64 < j \<and> bit_at (levels ! Suc l) (64 * (p div 64) + j))" using co True by (auto simp: Suc_le_eq)
    note above = next_elem_up [OF t Suc.prems(1) z]
    have run: "iter_run levels cur p (Suc l) = sbind (iter_run levels cur (p div 64) l) (\<lambda>r. case r of None \<Rightarrow> Inr None
      | Some (cur', c', pos') \<Rightarrow> sbind (iter_descend levels cur' c' pos' (Suc l) 1) (\<lambda>r. Inr (Some r)))"
      by (rule iter_run_Suc) (use True Suc.prems(1,2) in \<open>auto simp: c_def\<close>)
    have sh: "length (levels ! Suc (Suc l)) \<le> 64 * length (levels ! Suc l)" using t Suc.prems(1) by (simp add: tower_def shape_def)
    have p': "p div 64 < length (levels ! Suc l)" using Suc.prems(4) sh by auto
    from Suc.IH [OF _ Suc.prems(2) up p'] Suc.prems(1)
    consider "\<forall>N > p div 64. \<not> elem levels l N" "iter_run levels cur (p div 64) l = Inr None"
      | N cur' where "next_elem levels l (p div 64) N" "iter_run levels cur (p div 64) l = Inr (Some (cur', levels ! Suc l ! N, N))"
        "path_ok levels cur' l N" "length cur' = 7" "\<forall>k>l. cur' ! k = cur ! k" by auto
    then show ?thesis
    proof cases
      case 1
      then have "\<forall>N>p. \<not> elem levels (Suc l) N" using above by blast
      then show ?thesis using 1(2) run by simp
    next
      case 2
      have w: "N < length (levels ! Suc l)" "levels ! Suc l ! N \<noteq> 0"
        using 2(1) elem_word [OF t, of l N] Suc.prems(1) by (auto simp: next_elem_def)
      have q: "\<not> (Suc l = 0 \<and> levels ! Suc l ! N = push_bit 63 1)" "Suc l = 0 \<longrightarrow> N = 0" by simp_all
      note d = descend_one [OF t Suc.prems(1) 2(4) w(2) q(1) full_word [OF w(1)] q(2)]
      let ?N = "64 * N + ctz64 (levels ! Suc l ! N)"
      let ?cur = "cur'[Suc l := levels ! Suc l ! N AND (levels ! Suc l ! N - 1)]"
      have "iter_run levels cur p (Suc l) = Inr (Some (?cur, levels ! Suc (Suc l) ! ?N, ?N))"
        using run 2(2) d(1) by (simp del: iter_descend.simps)
      moreover have "next_elem levels (Suc l) p ?N"
        using next_elem_down [OF 2(1) d(2-5) [unfolded add_0_right] above] by simp
      moreover have "path_ok levels ?cur l N = path_ok levels cur' l N" by (rule path_ok_cong) simp
      then have "path_ok levels ?cur (Suc l) ?N" using d(5,6) 2(3) by simp
      ultimately show ?thesis using 2(4,5) by (intro disjI2 exI [of _ ?N] exI [of _ ?cur]) auto
    qed
  qed
qed

lemmas HB = HBITMAP_LEVELS_def HBITMAP_LOG_MAX_SIZE_def

text \<open>The state of an iterator that has still to visit the bits from \<open>t\<close> on.\<close>

definition iter_ok :: "u64 list list \<Rightarrow> HBitmapIter \<Rightarrow> nat \<Rightarrow> bool" where
  "iter_ok levels hbi t \<longleftrightarrow> length (it_cur hbi) = 7 \<and> it_pos hbi < length (levels ! 6) \<and> path_ok levels (it_cur hbi) 5 (it_pos hbi) \<and>
     64 * it_pos hbi \<le> t \<and> t \<le> 64 * it_pos hbi + 64 \<and>
     (\<forall>j<64. bit (it_cur hbi ! 6) j \<longleftrightarrow> t \<le> 64 * it_pos hbi + j \<and> bit_at (levels ! 6) (64 * it_pos hbi + j))"

lemma skip_words_run:
  assumes "length (it_cur hbi) = 7"
  shows "hbitmap_iter_skip_words hb hbi =
    sbind (iter_run (hb_levels hb) (it_cur hbi) (it_pos hbi) 5) (\<lambda>r. case r of None \<Rightarrow> Inr (0, hbi)
      | Some (cur', c', pos') \<Rightarrow> sbind (c_assert (c' \<noteq> 0)) (\<lambda>_. Inr (c', hbi\<lparr> it_pos := pos', it_cur := cur' \<rparr>)))"
proof -
  have n: "HBITMAP_LEVELS - 1 = Suc 5" by (simp add: HB)
  show ?thesis unfolding hbitmap_iter_skip_words_def iter_run_def n
    by (cases "iter_climb (it_cur hbi) (it_pos hbi) (Suc 5)")
      (auto simp: sbind_assoc split_def sbind_def split: sum.splits simp del: iter_climb.simps iter_descend.simps)
qed

lemma no_bits_between:
  assumes "tower levels" "\<forall>M. p < M \<and> M < N \<longrightarrow> \<not> elem levels 5 M" "p < x div 64" "x div 64 < N"
  shows "\<not> bit_at (levels ! 6) x"
proof
  assume "bit_at (levels ! 6) x"
  then have "x div 64 < length (levels ! Suc 5)" "levels ! Suc 5 ! (x div 64) \<noteq> 0" by (auto simp: bit_at_def)
  then show False using elem_word [OF assms(1), of 5 "x div 64"] assms(2-4) by simp
qed

lemma iter_fetch:
  assumes t: "tower (hb_levels hb)" and ok: "iter_ok (hb_levels hb) hbi t"
  shows "(\<forall>x\<ge>t. \<not> bit_at (hb_levels hb ! 6) x) \<and>
      sbind (buf_get (it_cur hbi) 6) (\<lambda>cur. if cur = 0 then hbitmap_iter_skip_words hb hbi else Inr (cur, hbi)) = Inr (0, hbi) \<or>
    (\<exists>c hbi'. sbind (buf_get (it_cur hbi) 6) (\<lambda>cur. if cur = 0 then hbitmap_iter_skip_words hb hbi else Inr (cur, hbi)) = Inr (c, hbi') \<and>
      c \<noteq> 0 \<and> length (it_cur hbi') = 7 \<and> it_pos hbi' < length (hb_levels hb ! 6) \<and> path_ok (hb_levels hb) (it_cur hbi') 5 (it_pos hbi') \<and>
      it_granularity hbi' = it_granularity hbi \<and> t < 64 * it_pos hbi' + 64 \<and>
      (\<forall>j<64. bit c j \<longleftrightarrow> t \<le> 64 * it_pos hbi' + j \<and> bit_at (hb_levels hb ! 6) (64 * it_pos hbi' + j)) \<and>
      (\<forall>x. t \<le> x \<and> x < 64 * it_pos hbi' \<longrightarrow> \<not> bit_at (hb_levels hb ! 6) x))"
proof (cases "it_cur hbi ! 6 = 0")
  case False
  then obtain j where j: "j < 64" "bit (it_cur hbi ! 6) j" by (auto simp: word_eq_bits)
  then show ?thesis using False ok by (intro disjI2 exI [of _ "it_cur hbi ! 6"] exI [of _ hbi]) (auto simp: iter_ok_def)
next
  case True
  let ?L = "hb_levels hb"
  have l: "length (it_cur hbi) = 7" "it_pos hbi < length (?L ! Suc 5)" "path_ok ?L (it_cur hbi) 5 (it_pos hbi)"
    using ok by (auto simp: iter_ok_def)
  have here: "\<not> bit_at (?L ! 6) x" if "t \<le> x" "x div 64 = it_pos hbi" for x
  proof -
    have "64 * it_pos hbi + x mod 64 = x" using that(2) by (metis mult_div_mod_eq)
    then show ?thesis using ok True that(1) by (auto simp: iter_ok_def dest!: spec [of _ "x mod 64"])
  qed
  have low: "it_pos hbi \<le> x div 64" if "t \<le> x" for x
    using ok that div_le_mono [of "64 * it_pos hbi" x 64] by (auto simp: iter_ok_def)
  have code: "sbind (buf_get (it_cur hbi) 6) (\<lambda>cur. if cur = 0 then hbitmap_iter_skip_words hb hbi else Inr (cur, hbi)) =
      hbitmap_iter_skip_words hb hbi" using True l(1) by simp
  from iter_run_next [OF t _ l(1,3,2)]
  consider "\<forall>N > it_pos hbi. \<not> elem ?L 5 N" "iter_run ?L (it_cur hbi) (it_pos hbi) 5 = Inr None"
    | N cur' where "next_elem ?L 5 (it_pos hbi) N" "iter_run ?L (it_cur hbi) (it_pos hbi) 5 = Inr (Some (cur', ?L ! Suc 5 ! N, N))"
      "path_ok ?L cur' 5 N" "length cur' = 7" by auto
  then show ?thesis
  proof cases
    case 1
    have "\<not> bit_at (?L ! 6) x" if "t \<le> x" for x
      using here [OF that] low [OF that] no_bits_between [OF t, of "it_pos hbi" "Suc (x div 64)" x] 1(1) by (cases "x div 64 = it_pos hbi") auto
    then show ?thesis using code 1(2) by (simp add: skip_words_run [OF l(1)])
  next
    case 2
    have w: "N < length (?L ! 6)" "?L ! 6 ! N \<noteq> 0" using 2(1) elem_word [OF t, of 5 N] by (auto simp: next_elem_def numeral_eq_Suc)
    have "\<not> bit_at (?L ! 6) x" if "t \<le> x" "x < 64 * N" for x
      using here [OF that(1)] low [OF that(1)] no_bits_between [OF t, of "it_pos hbi" N x] 2(1) that(2)
      by (cases "x div 64 = it_pos hbi") (auto simp: next_elem_def)
    moreover have "t \<le> 64 * N" using ok 2(1) by (auto simp: iter_ok_def next_elem_def)
    moreover have "hbitmap_iter_skip_words hb hbi = Inr (?L ! 6 ! N, hbi\<lparr> it_pos := N, it_cur := cur' \<rparr>)"
      using 2(2) w(2) by (simp add: skip_words_run [OF l(1)])
    ultimately show ?thesis using code w 2(3,4)
      by (intro disjI2 exI [of _ "?L ! 6 ! N"] exI [of _ "hbi\<lparr> it_pos := N, it_cur := cur' \<rparr>"]) (auto simp: bit_at_word)
  qed
qed

lemma last_level: "HBITMAP_LEVELS - 1 = 6"
  by (simp add: HB)

lemma iter_next_spec:
  assumes t: "tower (hb_levels hb)" and ok: "iter_ok (hb_levels hb) hbi t"
  shows "(\<forall>x\<ge>t. \<not> bit_at (hb_levels hb ! 6) x) \<and> hbitmap_iter_next hb hbi = Inr (None, hbi) \<or>
    (\<exists>x hbi'. t \<le> x \<and> bit_at (hb_levels hb ! 6) x \<and> (\<forall>y. t \<le> y \<and> y < x \<longrightarrow> \<not> bit_at (hb_levels hb ! 6) y) \<and>
      hbitmap_iter_next hb hbi = Inr (Some (push_bit (it_granularity hbi) (of_nat x)), hbi') \<and>
      iter_ok (hb_levels hb) hbi' (Suc x) \<and> it_granularity hbi' = it_granularity hbi)"
proof -
  have code: "hbitmap_iter_next hb hbi =
     sbind (sbind (buf_get (it_cur hbi) 6) (\<lambda>cur. if cur = 0 then hbitmap_iter_skip_words hb hbi else Inr (cur, hbi))) (\<lambda>(cur, hbi).
       if cur = 0 then Inr (None, hbi)
       else sbind (buf_put (it_cur hbi) 6 (cur AND (cur - 1))) (\<lambda>cur'.
              Inr (Some (push_bit (it_granularity hbi) (push_bit 6 (of_nat (it_pos hbi)) + of_nat (ctz64 cur))),
                   hbi\<lparr> it_cur := cur' \<rparr>)))"
    unfolding hbitmap_iter_next_def last_level sbind_assoc ..
  from iter_fetch [OF t ok] show ?thesis
  proof (elim disjE exE conjE)
    assume "\<forall>x\<ge>t. \<not> bit_at (hb_levels hb ! 6) x"
      "sbind (buf_get (it_cur hbi) 6) (\<lambda>cur. if cur = 0 then hbitmap_iter_skip_words hb hbi else Inr (cur, hbi)) = Inr (0, hbi)"
    then show ?thesis by (simp add: code)
  next
    fix c hbi'
    assume f: "sbind (buf_get (it_cur hbi) 6) (\<lambda>cur. if cur = 0 then hbitmap_iter_skip_words hb hbi else Inr (cur, hbi)) = Inr (c, hbi')"
      "c \<noteq> 0" "length (it_cur hbi') = 7" "it_pos hbi' < length (hb_levels hb ! 6)" "path_ok (hb_levels hb) (it_cur hbi') 5 (it_pos hbi')"
      "it_granularity hbi' = it_granularity hbi" "t < 64 * it_pos hbi' + 64"
      "\<forall>j<64. bit c j \<longleftrightarrow> t \<le> 64 * it_pos hbi' + j \<and> bit_at (hb_levels hb ! 6) (64 * it_pos hbi' + j)"
      "\<forall>x. t \<le> x \<and> x < 64 * it_pos hbi' \<longrightarrow> \<not> bit_at (hb_levels hb ! 6) x"
    define k where "k = ctz64 c"
    have k: "k < 64" "bit c k" "\<forall>i<k. \<not> bit c i" using ctz64_lowest [OF f(2)] by (auto simp: k_def)
    let ?x = "64 * it_pos hbi' + k"
    have x: "t \<le> ?x" "bit_at (hb_levels hb ! 6) ?x" using k f(8) by auto
    have "\<not> bit_at (hb_levels hb ! 6) y" if "t \<le> y" "y < ?x" for y
      using that f(9) f(8) [rule_format, of "y - 64 * it_pos hbi'"] k by (cases "y < 64 * it_pos hbi'") auto
    moreover have "hbitmap_iter_next hb hbi = Inr (Some (push_bit (it_granularity hbi) (of_nat ?x)), hbi'\<lparr> it_cur := (it_cur hbi')[6 := c AND (c - 1)] \<rparr>)"
      using f(1-3,6) by (simp add: code buf_put_def k_def push_bit_eq_mult mult.commute)
    moreover have "bit (c AND (c - 1)) j \<longleftrightarrow> Suc ?x \<le> 64 * it_pos hbi' + j \<and> bit_at (hb_levels hb ! 6) (64 * it_pos hbi' + j)" if "j < 64" for j
      unfolding clear_lowest [OF f(2)] k_def [symmetric] using that f(8) k x(1) by (cases j k rule: linorder_cases) auto
    then have "iter_ok (hb_levels hb) (hbi'\<lparr> it_cur := (it_cur hbi')[6 := c AND (c - 1)] \<rparr>) (Suc ?x)"
      using f(3-5) k(1) path_ok_cong [of 5 "(it_cur hbi')[6 := c AND (c - 1)]" "it_cur hbi'" "hb_levels hb" "it_pos hbi'"] by (auto simp: iter_ok_def)
    ultimately show ?thesis using x f(6)
      by (intro disjI2 exI [of _ ?x] exI [of _ "hbi'\<lparr> it_cur := (it_cur hbi')[6 := c AND (c - 1)] \<rparr>"]) auto
  qed
qed

lemma iter_next_word_spec:
  assumes t: "tower (hb_levels hb)" and ok: "iter_ok (hb_levels hb) hbi t"
  shows "(\<forall>x\<ge>t. \<not> bit_at (hb_levels hb ! 6) x) \<and> hbitmap_iter_next_word hb hbi = Inr (None, hbi) \<or>
    (\<exists>pos c hbi'. hbitmap_iter_next_word hb hbi = Inr (Some (pos, c), hbi') \<and> t < 64 * pos + 64 \<and>
      (\<forall>j<64. bit c j \<longleftrightarrow> t \<le> 64 * pos + j \<and> bit_at (hb_levels hb ! 6) (64 * pos + j)) \<and>
      (\<forall>x. t \<le> x \<and> x < 64 * pos \<longrightarrow> \<not> bit_at (hb_levels hb ! 6) x) \<and> iter_ok (hb_levels hb) hbi' (64 * pos + 64))"
proof -
  have code: "hbitmap_iter_next_word hb hbi =
     sbind (sbind (buf_get (it_cur hbi) 6) (\<lambda>cur. if cur = 0 then hbitmap_iter_skip_words hb hbi else Inr (cur, hbi))) (\<lambda>(cur, hbi).
       if cur = 0 then Inr (None, hbi)
       else sbind (buf_put (it_cur hbi) 6 0) (\<lambda>cur'. Inr (Some (it_pos hbi, cur), hbi\<lparr> it_cur := cur' \<rparr>)))"
    unfolding hbitmap_iter_next_word_def last_level sbind_assoc ..
  from iter_fetch [OF t ok] show ?thesis
  proof (elim disjE exE conjE)
    assume "\<forall>x\<ge>t. \<not> bit_at (hb_levels hb ! 6) x"
      "sbind (buf_get (it_cur hbi) 6) (\<lambda>cur. if cur = 0 then hbitmap_iter_skip_words hb hbi else Inr (cur, hbi)) = Inr (0, hbi)"
    then show ?thesis by (simp add: code)
  next
    fix c hbi'
    assume f: "sbind (buf_get (it_cur hbi) 6) (\<lambda>cur. if cur = 0 then hbitmap_iter_skip_words hb hbi else Inr (cur, hbi)) = Inr (c, hbi')"
      "c \<noteq> 0" "length (it_cur hbi') = 7" "it_pos hbi' < length (hb_levels hb ! 6)" "path_ok (hb_levels hb) (it_cur hbi') 5 (it_pos hbi')"
      "it_granularity hbi' = it_granularity hbi" "t < 64 * it_pos hbi' + 64"
      "\<forall>j<64. bit c j \<longleftrightarrow> t \<le> 64 * it_pos hbi' + j \<and> bit_at (hb_levels hb ! 6) (64 * it_pos hbi' + j)"
      "\<forall>x. t \<le> x \<and> x < 64 * it_pos hbi' \<longrightarrow> \<not> bit_at (hb_levels hb ! 6) x"
    have "iter_ok (hb_levels hb) (hbi'\<lparr> it_cur := (it_cur hbi')[6 := 0] \<rparr>) (64 * it_pos hbi' + 64)"
      using f(3-5) path_ok_cong [of 5 "(it_cur hbi')[6 := 0]" "it_cur hbi'" "hb_levels hb" "it_pos hbi'"] by (auto simp: iter_ok_def)
    moreover have "hbitmap_iter_next_word hb hbi = Inr (Some (it_pos hbi', c), hbi'\<lparr> it_cur := (it_cur hbi')[6 := 0] \<rparr>)"
      using f(1-3) by (simp add: code buf_put_def)
    ultimately show ?thesis using f(7-9) by blast
  qed
qed

lemma init_bits:
  assumes "w < length ws" "b < 64" "j < 64"
  shows "bit (ws ! w AND NOT (push_bit b 1 - 1)) j \<longleftrightarrow> b \<le> j \<and> bit_at ws (64 * w + j)"
    and "bit ((ws ! w AND NOT (push_bit b 1 - 1)) AND NOT (push_bit b 1)) j \<longleftrightarrow> b < j \<and> bit_at ws (64 * w + j)"
proof -
  have m: "push_bit b 1 - 1 = (mask b :: u64)" by (simp add: mask_eq_exp_minus_1)
  show "bit (ws ! w AND NOT (push_bit b 1 - 1)) j \<longleftrightarrow> b \<le> j \<and> bit_at ws (64 * w + j)"
    unfolding m using assms by (auto simp: bit_simps bit_at_word)
  show "bit ((ws ! w AND NOT (push_bit b 1 - 1)) AND NOT (push_bit b 1)) j \<longleftrightarrow> b < j \<and> bit_at ws (64 * w + j)"
    unfolding m using assms by (auto simp: bit_simps bit_at_word)
qed

lemma iter_init_levels_path:
  assumes "shape levels" "l < 6" "length cur = 7" "p div 64 < length (levels ! l)"
  shows "\<exists>cur'. iter_init_levels levels cur p (Suc l) = Inr cur' \<and> length cur' = 7 \<and> path_ok levels cur' l p \<and> (\<forall>k>l. cur' ! k = cur ! k)"
  using assms(2-)
proof (induction l arbitrary: cur p)
  case 0
  let ?c = "(levels ! 0 ! (p div 64) AND NOT (push_bit (p mod 64) 1 - 1)) AND NOT (push_bit (p mod 64) 1)"
  have "iter_init_levels levels cur p (Suc 0) = Inr (cur[0 := ?c])"
    using "0.prems" assms(1) by (simp add: HB shape_def buf_put_def Let_def)
  moreover have "cur_ok levels (cur[0 := ?c]) 0 p"
    using "0.prems" init_bits(2) [of "p div 64" "levels ! 0" "p mod 64"] by (simp add: cur_ok_def)
  ultimately show ?case using "0.prems" by (auto simp del: iter_init_levels.simps)
next
  case (Suc l)
  let ?c = "(levels ! Suc l ! (p div 64) AND NOT (push_bit (p mod 64) 1 - 1)) AND NOT (push_bit (p mod 64) 1)"
  have sh: "length (levels ! Suc l) \<le> 64 * length (levels ! l)" "length levels = 7" using assms(1) Suc.prems(1) by (auto simp: shape_def)
  have step: "iter_init_levels levels cur p (Suc (Suc l)) = iter_init_levels levels (cur[Suc l := ?c]) (p div 64) (Suc l)"
    using Suc.prems sh(2) by (simp add: HB buf_put_def Let_def del: iter_init_levels.simps(2)) (simp add: HB buf_put_def Let_def)
  have "p div 64 div 64 < length (levels ! l)" using Suc.prems(3) sh(1) by auto
  then obtain cur' where c: "iter_init_levels levels (cur[Suc l := ?c]) (p div 64) (Suc l) = Inr cur'" "length cur' = 7"
      "path_ok levels cur' l (p div 64)" "\<forall>k>l. cur' ! k = cur[Suc l := ?c] ! k"
    using Suc.IH [of "cur[Suc l := ?c]" "p div 64"] Suc.prems by auto
  then have "cur_ok levels cur' (Suc l) p"
    using Suc.prems init_bits(2) [of "p div 64" "levels ! Suc l" "p mod 64"] by (simp add: cur_ok_def)
  then show ?case using step c by (auto simp del: iter_init_levels.simps)
qed

lemma iter_init_spec:
  assumes t: "shape (hb_levels hb)" and p: "drop_bit (hb_granularity hb) first < hb_size hb" "unat (hb_size hb) \<le> 64 * length (hb_levels hb ! 6)"
  shows "\<exists>hbi. hbitmap_iter_init hb first = Inr hbi \<and> iter_ok (hb_levels hb) hbi (unat (drop_bit (hb_granularity hb) first)) \<and>
    it_granularity hbi = hb_granularity hb"
proof -
  let ?L = "hb_levels hb"
  define q where "q = unat (drop_bit (hb_granularity hb) first)"
  have q: "q div 64 < length (?L ! 6)" "length ?L = 7" "length (?L ! 6) \<le> 64 * length (?L ! 5)"
    using p t by (auto simp: q_def word_less_nat_alt shape_def) (metis eval_nat_numeral(2,3) lessI semiring_norm(26,27,28))
  let ?c = "?L ! 6 ! (q div 64) AND NOT (push_bit (q mod 64) 1 - 1)"
  let ?cur = "(replicate 7 0)[6 := ?c]"
  have "q div 64 div 64 < length (?L ! 5)" using q by auto
  then obtain cur where c: "iter_init_levels ?L ?cur (q div 64) (Suc 5) = Inr cur" "length cur = 7" "path_ok ?L cur 5 (q div 64)" "\<forall>k>5. cur ! k = ?cur ! k"
    using iter_init_levels_path [OF t, of 5 ?cur "q div 64"] by auto
  have "iter_init_levels ?L (replicate 7 0) q 7 = iter_init_levels ?L ?cur (q div 64) (Suc 5)"
  proof -
    have "iter_init_levels ?L (replicate 7 0) q (Suc 6) = iter_init_levels ?L ?cur (q div 64) 6"
      unfolding iter_init_levels.simps(2) Let_def last_level using q by (simp add: buf_put_def)
    then show ?thesis by simp
  qed
  then have "hbitmap_iter_init hb first = Inr \<lparr> it_granularity = hb_granularity hb, it_pos = q div 64, it_cur = cur \<rparr>"
    using c(1) p(1) by (simp add: hbitmap_iter_init_def HB q_def Let_def del: iter_init_levels.simps)
  moreover have "cur ! 6 = ?c" using c(4) by simp
  then have "\<forall>j<64. bit (cur ! 6) j \<longleftrightarrow> q mod 64 \<le> j \<and> bit_at (?L ! 6) (64 * (q div 64) + j)"
    using init_bits(1) [OF q(1), of "q mod 64"] by simp
  then have "iter_ok ?L \<lparr> it_granularity = hb_granularity hb, it_pos = q div 64, it_cur = cur \<rparr> q"
  proof -
    have "q \<le> 64 * (q div 64) + j \<longleftrightarrow> q mod 64 \<le> j" "64 * (q div 64) \<le> q" "q \<le> 64 * (q div 64) + 64" for j
      using mult_div_mod_eq [of 64 q] mod_less_divisor [of 64 q] by linarith+
    moreover assume "\<forall>j<64. bit (cur ! 6) j \<longleftrightarrow> q mod 64 \<le> j \<and> bit_at (?L ! 6) (64 * (q div 64) + j)"
    ultimately show ?thesis using c(2,3) q(1) by (simp add: iter_ok_def)
  qed
  ultimately show ?thesis by (simp add: q_def)
qed

section \<open>Counting\<close>

lemma bit_at_finite: "finite {x. bit_at ws x}"
proof (rule finite_subset)
  show "{x. bit_at ws x} \<subseteq> {..<64 * length ws}" by (auto simp: bit_at_def div_less_iff_less_mult mult.commute)
qed simp

lemma card_word:
  assumes "\<forall>j<64. bit c j \<longleftrightarrow> Q (64 * pos + j)"
  shows "ctpop64 c = card {x. 64 * pos \<le> x \<and> x < 64 * pos + 64 \<and> Q x}"
proof -
  have "bij_betw (\<lambda>j. 64 * pos + j) {j. j < 64 \<and> bit c j} {x. 64 * pos \<le> x \<and> x < 64 * pos + 64 \<and> Q x}"
    unfolding bij_betw_def using assms by (auto simp: inj_on_def image_iff le_iff_add)
  from bij_betw_same_card [OF this] show ?thesis by (simp add: ctpop64_popcount popcount_def)
qed

lemma count_words_spec:
  assumes t: "tower (hb_levels hb)"
  shows "iter_ok (hb_levels hb) hbi t \<Longrightarrow> length (hb_levels hb ! 6) < fuel + t div 64 \<Longrightarrow>
    count_words fuel hb hbi fin count = Inr (count + of_nat (card {x. t \<le> x \<and> x < fin \<and> bit_at (hb_levels hb ! 6) x}))"
proof (induction fuel arbitrary: hbi t count)
  case 0
  then have "t \<le> 64 * length (hb_levels hb ! 6)" by (auto simp: iter_ok_def)
  then have "t div 64 \<le> length (hb_levels hb ! 6)" by (metis div_le_mono nonzero_mult_div_cancel_left zero_neq_numeral)
  then show ?case using 0 by simp
next
  case (Suc fuel)
  let ?B = "bit_at (hb_levels hb ! 6)"
  from iter_next_word_spec [OF t Suc.prems(1)] show ?case
  proof (elim disjE exE conjE)
    assume a: "\<forall>x\<ge>t. \<not> ?B x" "hbitmap_iter_next_word hb hbi = Inr (None, hbi)"
    then have e: "{x. t \<le> x \<and> x < fin \<and> ?B x} = {}" by auto
    show ?thesis unfolding e using a(2) by simp
  next
    fix pos c hbi'
    assume a: "hbitmap_iter_next_word hb hbi = Inr (Some (pos, c), hbi')" "t < 64 * pos + 64"
      "\<forall>j<64. bit c j \<longleftrightarrow> t \<le> 64 * pos + j \<and> ?B (64 * pos + j)" "\<forall>x. t \<le> x \<and> x < 64 * pos \<longrightarrow> \<not> ?B x"
      "iter_ok (hb_levels hb) hbi' (64 * pos + 64)"
    have skip: "{x. t \<le> x \<and> x < fin \<and> ?B x} = {x. 64 * pos \<le> x \<and> x < fin \<and> t \<le> x \<and> ?B x}"
      using a(4) by (auto simp: not_less [symmetric])
    consider "fin div 64 < pos" | "pos = fin div 64" | "pos < fin div 64" by linarith
    then show ?thesis
    proof cases
      case 1
      then have e: "{x. 64 * pos \<le> x \<and> x < fin \<and> t \<le> x \<and> ?B x} = {}" by (auto dest: div_le_mono [of "64 * pos" _ 64])
      show ?thesis unfolding skip e using a(1) 1 by simp
    next
      case 2
      have m: "push_bit (fin mod 64) 1 - 1 = (mask (fin mod 64) :: u64)" by (simp add: mask_eq_exp_minus_1)
      have f: "x < 64 * pos + 64 \<and> x < fin \<longleftrightarrow> x < fin" "64 * pos + j < fin \<longleftrightarrow> j < fin mod 64" for x j
        using mult_div_mod_eq [of 64 fin] mod_less_divisor [of 64 fin] 2 by linarith+
      have "ctpop64 (c AND mask (fin mod 64)) = card {x. 64 * pos \<le> x \<and> x < 64 * pos + 64 \<and> x < fin \<and> t \<le> x \<and> ?B x}"
        by (rule card_word) (use a(3) f(2) in \<open>auto simp: bit_simps\<close>)
      moreover have "{x. 64 * pos \<le> x \<and> x < 64 * pos + 64 \<and> x < fin \<and> t \<le> x \<and> ?B x} = {x. 64 * pos \<le> x \<and> x < fin \<and> t \<le> x \<and> ?B x}"
        using f(1) by blast
      ultimately show ?thesis unfolding skip using a(1) by (simp add: m [symmetric] 2)
    next
      case 3
      have "64 * pos + 64 \<le> fin" using 3 mult_div_mod_eq [of 64 fin] by linarith
      then have "{x. 64 * pos \<le> x \<and> x < fin \<and> t \<le> x \<and> ?B x} =
          {x. 64 * pos \<le> x \<and> x < 64 * pos + 64 \<and> t \<le> x \<and> ?B x} \<union> {x. 64 * pos + 64 \<le> x \<and> x < fin \<and> ?B x}"
        using a(2) by auto
      moreover have "finite {x. 64 * pos \<le> x \<and> x < 64 * pos + 64 \<and> t \<le> x \<and> ?B x}" "finite {x. 64 * pos + 64 \<le> x \<and> x < fin \<and> ?B x}"
        by (auto intro: finite_subset [OF _ bit_at_finite [of "hb_levels hb ! 6"]])
      ultimately have "card {x. t \<le> x \<and> x < fin \<and> ?B x} = ctpop64 c + card {x. 64 * pos + 64 \<le> x \<and> x < fin \<and> ?B x}"
        unfolding skip using card_word [of c "\<lambda>x. t \<le> x \<and> ?B x" pos] a(3) by (simp add: card_Un_disjoint disjoint_iff)
      moreover have "length (hb_levels hb ! 6) < fuel + (64 * pos + 64) div 64"
        using Suc.prems(2) a(2) div_le_mono [of t "64 * pos + 63" 64] by auto
      ultimately show ?thesis using a(1) 3 Suc.IH [OF a(5)] by simp
    qed
  qed
qed

section \<open>The set a hierarchical bitmap holds\<close>

definition hb_bits :: "HBitmap \<Rightarrow> nat set" where
  "hb_bits hb = {x. bit_at (hb_levels hb ! 6) x}"

definition hb_inv :: "HBitmap \<Rightarrow> bool" where
  "hb_inv hb \<longleftrightarrow> tower (hb_levels hb) \<and> hb_granularity hb < 64 \<and> unat (hb_size hb) \<le> 2 ^ 41 \<and>
     unat (hb_size hb) \<le> 64 * length (hb_levels hb ! 6) \<and> (\<forall>x \<in> hb_bits hb. x < unat (hb_size hb)) \<and>
     unat (hb_count hb) = card (hb_bits hb)"

lemma hb_bits_finite [simp]: "finite (hb_bits hb)"
  by (simp add: hb_bits_def bit_at_finite)

lemma count_between_spec:
  assumes inv: "hb_inv hb" and r: "drop_bit (hb_granularity hb) s < hb_size hb" "lst < hb_size hb"
  shows "hb_count_between hb (drop_bit (hb_granularity hb) s) lst =
    Inr (of_nat (card (hb_bits hb \<inter> {unat (drop_bit (hb_granularity hb) s)..unat lst})))"
proof -
  let ?s = "drop_bit (hb_granularity hb) s"
  have "drop_bit (hb_granularity hb) (push_bit (hb_granularity hb) ?s) = ?s"
    by (auto simp: word_eq_bits bit_simps dest: bit_imp_le_length)
  then obtain hbi where hbi: "hbitmap_iter_init hb (push_bit (hb_granularity hb) ?s) = Inr hbi" "iter_ok (hb_levels hb) hbi (unat ?s)"
    using iter_init_spec [of hb "push_bit (hb_granularity hb) ?s"] inv r(1) by (auto simp: hb_inv_def tower_def)
  have "length (hb_levels hb ! 6) \<le> length (concat (hb_levels hb))"
    using inv by (auto simp: length_concat hb_inv_def tower_def shape_def intro!: member_le_sum_list)
  then have "count_words (length (concat (hb_levels hb)) + 2) hb hbi (unat (lst + 1)) 0 =
      Inr (0 + of_nat (card {x. unat ?s \<le> x \<and> x < unat (lst + 1) \<and> bit_at (hb_levels hb ! 6) x}))"
    using inv hbi(2) by (intro count_words_spec) (auto simp: hb_inv_def)
  moreover have "unat (lst + 1) = Suc (unat lst)"
  proof -
    have "unat lst < 2 ^ 41" using inv r(2) unfolding hb_inv_def word_less_nat_alt by linarith
    then show ?thesis by (simp add: unat_word_ariths)
  qed
  then have "{x. unat ?s \<le> x \<and> x < unat (lst + 1) \<and> bit_at (hb_levels hb ! 6) x} = hb_bits hb \<inter> {unat ?s..unat lst}"
    by (auto simp: hb_bits_def)
  ultimately show ?thesis using hbi(1) by (simp add: hb_count_between_def)
qed

text \<open>The groups of elements that a range of elements touches, and the ranges inside a bitmap.\<close>

definition hb_groups :: "HBitmap \<Rightarrow> u64 \<Rightarrow> u64 \<Rightarrow> nat set" where
  "hb_groups hb start count = {unat start div 2 ^ hb_granularity hb..(unat start + unat count - 1) div 2 ^ hb_granularity hb}"

definition hb_range :: "HBitmap \<Rightarrow> u64 \<Rightarrow> u64 \<Rightarrow> bool" where
  "hb_range hb start count \<longleftrightarrow> count \<noteq> 0 \<and> unat start + unat count \<le> 2 ^ 64 \<and>
     (unat start + unat count - 1) div 2 ^ hb_granularity hb < unat (hb_size hb)"

lemma unat_drop: "unat (drop_bit g x) = unat x div 2 ^ g"
  unfolding unat_drop_bit_eq by (rule drop_bit_eq_div)

lemma hb_range_words:
  assumes "hb_range hb start count"
  defines "s \<equiv> drop_bit (hb_granularity hb) start" and "l \<equiv> drop_bit (hb_granularity hb) (start + count - 1)"
  shows "hb_groups hb start count = {unat s..unat l}" "unat s \<le> unat l" "s < hb_size hb" "l < hb_size hb"
proof -
  have "unat count \<noteq> 0" using assms(1) by (auto simp: hb_range_def unat_eq_zero)
  have b: "unat (count - 1) = unat count - 1" using assms(1) by (simp add: hb_range_def unat_minus_one)
  have "unat start + (unat count - 1) < 2 ^ 64" using assms(1) \<open>unat count \<noteq> 0\<close>
    unfolding hb_range_def by linarith
  then have "unat (start + (count - 1)) = unat start + (unat count - 1)" by (simp add: unat_word_ariths(1) b)
  then have u: "unat (start + count - 1) = unat start + unat count - 1" using \<open>unat count \<noteq> 0\<close> by (simp add: add_diff_eq)
  then show "hb_groups hb start count = {unat s..unat l}"
    by (simp add: hb_groups_def s_def l_def unat_drop)
  have "unat start \<le> unat start + unat count - 1" using \<open>unat count \<noteq> 0\<close> by linarith
  then show sl: "unat s \<le> unat l" by (simp add: s_def l_def unat_drop u div_le_mono)
  show "l < hb_size hb" using assms(1) by (simp add: l_def word_less_nat_alt unat_drop u hb_range_def)
  then show "s < hb_size hb" using sl by (simp add: word_less_nat_alt)
qed

lemma bits_card_bound:
  assumes "\<forall>x\<in>A. x < unat (n :: u64)" "unat n \<le> 2 ^ 41"
  shows "unat (of_nat (card A) :: u64) = card A"
proof -
  have "A \<subseteq> {..<unat n}" using assms(1) by auto
  then have "card A \<le> unat n" by (metis card_lessThan card_mono finite_lessThan)
  then show ?thesis using assms(2) by (simp add: unat_of_nat)
qed

lemma hb_inv_levels:
  assumes "hb_inv hb" "closes (hb_levels hb) 6 levels'" "count = of_nat (card {x. bit_at (levels' ! 6) x})"
    and "\<forall>x. bit_at (levels' ! 6) x \<longrightarrow> x < unat (hb_size hb)"
  shows "hb_inv (hb\<lparr> hb_count := count, hb_levels := levels' \<rparr>)"
  using assms bits_card_bound [of "{x. bit_at (levels' ! 6) x}" "hb_size hb"] by (auto simp: hb_inv_def closes_def hb_bits_def)

lemma open_last:
  assumes "hb_inv hb" "s \<le> l" "l < unat (hb_size hb)"
  shows "open_at (hb_levels hb) 6 s l"
  using assms by (auto simp: open_at_def hb_inv_def tower_def)

lemma of_nat_count: "hb_inv hb \<Longrightarrow> hb_count hb = of_nat (card (hb_bits hb))"
  using bits_card_bound [of "hb_bits hb" "hb_size hb"] by (simp add: word_unat_eq_iff hb_inv_def)

lemma hbitmap_set_spec:
  assumes inv: "hb_inv hb" and r: "hb_range hb start count"
  shows "\<exists>hb'. hbitmap_set hb start count = Inr hb' \<and> hb_inv hb' \<and> hb_bits hb' = hb_bits hb \<union> hb_groups hb start count \<and>
    hb_size hb' = hb_size hb \<and> hb_granularity hb' = hb_granularity hb"
proof -
  define s l where "s = drop_bit (hb_granularity hb) start" and "l = drop_bit (hb_granularity hb) (start + count - 1)"
  note w = hb_range_words [OF r, folded s_def l_def]
  let ?R = "{unat s..unat l}"
  have o: "open_at (hb_levels hb) 6 (unat s) (unat l)"
    using open_last [OF inv w(2)] w(4) by (simp add: word_less_nat_alt)
  have "\<exists>levels'. hb_set_between (hb_levels hb) 6 (unat s) (unat l) = Inr levels' \<and> closes (hb_levels hb) 6 levels' \<and>
      set_bits (hb_levels hb ! 6) (unat s) (unat l) (levels' ! 6)"
    by (rule set_between_closes [OF o]) simp
  then obtain levels' where l': "hb_set_between (hb_levels hb) 6 (unat s) (unat l) = Inr levels'" "closes (hb_levels hb) 6 levels'"
      "set_bits (hb_levels hb ! 6) (unat s) (unat l) (levels' ! 6)" by blast
  have bits: "{x. bit_at (levels' ! 6) x} = hb_bits hb \<union> ?R" 
    using l'(3) by (intro set_eqI) (simp add: set_bits_def hb_bits_def)
  have c: "hb_count_between hb s l = Inr (of_nat (card (hb_bits hb \<inter> ?R)))"
    using count_between_spec [OF inv, of start l] w(3,4) by (simp add: s_def)
  let ?n = "hb_count hb + ((l - s + 1) - of_nat (card (hb_bits hb \<inter> ?R)))"
  have "l - s + 1 = of_nat (card ?R)" using w(2) by (simp add: of_nat_diff)
  then have "?n = of_nat (card (hb_bits hb) + card ?R) - of_nat (card (hb_bits hb \<inter> ?R))" by (simp add: of_nat_count [OF inv])
  also have "\<dots> = of_nat (card (hb_bits hb \<union> ?R))" 
  proof -
    have "card (hb_bits hb) + card ?R = card (hb_bits hb \<union> ?R) + card (hb_bits hb \<inter> ?R)" by (rule card_Un_Int) simp_all
    then show ?thesis by (simp only: of_nat_add add_diff_cancel_right')
  qed
  finally have n: "?n = of_nat (card {x. bit_at (levels' ! 6) x})" by (simp only: bits)
  have "\<forall>x. bit_at (levels' ! 6) x \<longrightarrow> x < unat (hb_size hb)"
    using l'(3) inv w(4) by (auto simp: set_bits_def hb_inv_def hb_bits_def word_less_nat_alt)
  then have "hb_inv (hb\<lparr> hb_count := ?n, hb_levels := levels' \<rparr>)" by (rule hb_inv_levels [OF inv l'(2) n])
  moreover have "hbitmap_set hb start count = Inr (hb\<lparr> hb_count := ?n, hb_levels := levels' \<rparr>)"
    using c l'(1) by (simp add: hbitmap_set_def Let_def HB s_def [symmetric] l_def [symmetric])
  ultimately show ?thesis using bits w(1) by (simp add: hb_bits_def)
qed

lemma hbitmap_reset_spec:
  assumes inv: "hb_inv hb" and r: "hb_range hb start count"
  shows "\<exists>hb'. hbitmap_reset hb start count = Inr hb' \<and> hb_inv hb' \<and> hb_bits hb' = hb_bits hb - hb_groups hb start count \<and>
    hb_size hb' = hb_size hb \<and> hb_granularity hb' = hb_granularity hb"
proof -
  define s l where "s = drop_bit (hb_granularity hb) start" and "l = drop_bit (hb_granularity hb) (start + count - 1)"
  note w = hb_range_words [OF r, folded s_def l_def]
  let ?R = "{unat s..unat l}"
  have o: "open_at (hb_levels hb) 6 (unat s) (unat l)"
    using open_last [OF inv w(2)] w(4) by (simp add: word_less_nat_alt)
  have "\<exists>levels'. hb_reset_between (hb_levels hb) 6 (unat s) (unat l) = Inr levels' \<and> closes (hb_levels hb) 6 levels' \<and>
      reset_bits (hb_levels hb ! 6) (unat s) (unat l) (levels' ! 6)"
    by (rule reset_between_closes [OF o]) simp
  then obtain levels' where l': "hb_reset_between (hb_levels hb) 6 (unat s) (unat l) = Inr levels'" "closes (hb_levels hb) 6 levels'"
      "reset_bits (hb_levels hb ! 6) (unat s) (unat l) (levels' ! 6)" by blast
  have bits: "{x. bit_at (levels' ! 6) x} = hb_bits hb - ?R" 
    using l'(3) by (intro set_eqI) (simp add: reset_bits_def hb_bits_def)
  have c: "hb_count_between hb s l = Inr (of_nat (card (hb_bits hb \<inter> ?R)))"
    using count_between_spec [OF inv, of start l] w(3,4) by (simp add: s_def)
  let ?n = "hb_count hb - of_nat (card (hb_bits hb \<inter> ?R))"
  have "card (hb_bits hb - ?R) + card (hb_bits hb \<inter> ?R) = card (hb_bits hb)"
    by (subst card_Un_disjoint [symmetric]) (auto intro: arg_cong [of _ _ card])
  then have "of_nat (card (hb_bits hb - ?R)) = (of_nat (card (hb_bits hb)) - of_nat (card (hb_bits hb \<inter> ?R)) :: u64)"
    by (metis add_diff_cancel_right' of_nat_add)
  then have n: "?n = of_nat (card {x. bit_at (levels' ! 6) x})" by (simp add: bits of_nat_count [OF inv])
  have "\<forall>x. bit_at (levels' ! 6) x \<longrightarrow> x < unat (hb_size hb)"
    using l'(3) inv by (auto simp: reset_bits_def hb_inv_def hb_bits_def)
  then have "hb_inv (hb\<lparr> hb_count := ?n, hb_levels := levels' \<rparr>)" by (rule hb_inv_levels [OF inv l'(2) n])
  moreover have "hbitmap_reset hb start count = Inr (hb\<lparr> hb_count := ?n, hb_levels := levels' \<rparr>)"
    using c l'(1) by (simp add: hbitmap_reset_def Let_def HB s_def [symmetric] l_def [symmetric])
  ultimately show ?thesis using bits w(1) by (simp add: hb_bits_def)
qed

lemma hbitmap_get_spec:
  assumes "hb_inv hb" "unat item div 2 ^ hb_granularity hb < unat (hb_size hb)"
  shows "hbitmap_get hb item = Inr (unat item div 2 ^ hb_granularity hb \<in> hb_bits hb)"
proof -
  define p where "p = unat item div 2 ^ hb_granularity hb"
  have p: "unat (drop_bit (hb_granularity hb) item) = p" by (simp add: p_def unat_drop)
  have i: "length (hb_levels hb) = 7" "p div 64 < length (hb_levels hb ! 6)" using assms by (auto simp: hb_inv_def tower_def shape_def p_def)
  have "hb_levels hb ! 6 ! (p div 64) AND push_bit (p mod 64) 1 \<noteq> 0 \<longleftrightarrow> p \<in> hb_bits hb"
    using i by (auto simp: word_ex_bit bit_simps hb_bits_def bit_at_def)
  then show ?thesis unfolding hbitmap_get_def Let_def p last_level p_def [symmetric] using i by simp
qed

section \<open>Allocation\<close>

lemma alloc_step:
  assumes "unat sz \<le> 2 ^ 41"
  shows "unat (max (drop_bit 6 (sz + 64 - 1)) 1 :: u64) = max ((unat sz + 63) div 64) 1"
proof -
  have "unat (sz + 64 - 1) = unat sz + 63"
    using assms by (simp add: unat_word_ariths)
  then have "unat (drop_bit 6 (sz + 64 - 1)) = (unat sz + 63) div 64" by (simp add: unat_drop)
  then show ?thesis by (simp add: max_def word_le_nat_alt)
qed

lemma alloc_step_bounds:
  assumes "unat sz \<le> 2 ^ k" "k \<le> 41"
  defines "sz' \<equiv> max (drop_bit 6 (sz + 64 - 1)) 1 :: u64"
  shows "unat sz' \<le> 2 ^ (k - 6)" "unat sz \<le> 64 * unat sz'" "0 < unat sz'"
proof -
  have "unat sz \<le> 2 ^ 41" using assms(1,2) by (meson order_trans one_le_numeral power_increasing)
  then have u: "unat sz' = max ((unat sz + 63) div 64) 1" unfolding sz'_def by (rule alloc_step)
  have "(unat sz + 63) div 64 \<le> 2 ^ (k - 6)"
  proof (cases "k < 6")
    case True
    then have "(2 :: nat) ^ k \<le> 2 ^ 6" by (intro power_increasing) auto
    then have "unat sz \<le> 64" using assms(1) by simp
    then show ?thesis using True by simp
  next
    case False
    then obtain j where "k = 6 + j" using le_Suc_ex by (metis linorder_not_le)
    then have "2 ^ k = 64 * (2 ^ (k - 6) :: nat)" by (simp add: power_add)
    then show ?thesis using assms(1) by simp
  qed
  then show "unat sz' \<le> 2 ^ (k - 6)" unfolding u by simp
  show "unat sz \<le> 64 * unat sz'" "0 < unat sz'" unfolding u by simp_all
qed

lemma alloc_levels_sizes:
  assumes "unat sz \<le> 2 ^ k" "k \<le> 41"
  shows "\<exists>ns. length ns = n \<and> snd (alloc_levels sz n acc) = map (\<lambda>m. replicate m 0) ns @ acc \<and>
    (0 < n \<longrightarrow> unat (fst (alloc_levels sz n acc)) = ns ! 0 \<and> unat sz \<le> 64 * ns ! (n - 1)) \<and>
    (\<forall>i. Suc i < n \<longrightarrow> ns ! Suc i \<le> 64 * ns ! i) \<and> (\<forall>i<n. 0 < ns ! i \<and> ns ! i \<le> 2 ^ (k - 6 * (n - i)))"
  using assms
proof (induction n arbitrary: sz k acc)
  case (Suc n)
  define sz' where "sz' = (max (drop_bit 6 (sz + 64 - 1)) 1 :: u64)"
  note b = alloc_step_bounds [OF Suc.prems, folded sz'_def]
  have k: "k - 6 \<le> 41" using Suc.prems(2) by simp
  obtain ns where ns: "length ns = n" "snd (alloc_levels sz' n (replicate (unat sz') 0 # acc)) = map (\<lambda>m. replicate m 0) ns @ replicate (unat sz') 0 # acc"
    "0 < n \<longrightarrow> unat (fst (alloc_levels sz' n (replicate (unat sz') 0 # acc))) = ns ! 0 \<and> unat sz' \<le> 64 * ns ! (n - 1)"
    "\<forall>i. Suc i < n \<longrightarrow> ns ! Suc i \<le> 64 * ns ! i" "\<forall>i<n. 0 < ns ! i \<and> ns ! i \<le> 2 ^ (k - 6 - 6 * (n - i))"
    using Suc.IH [OF b(1) k, of "replicate (unat sz') 0 # acc"] by blast
  have step: "alloc_levels sz (Suc n) acc = alloc_levels sz' n (replicate (unat sz') 0 # acc)" by (simp add: sz'_def Let_def)
  let ?ns = "ns @ [unat sz']"
  have "0 < ?ns ! i \<and> ?ns ! i \<le> 2 ^ (k - 6 * (Suc n - i))" if "i < Suc n" for i
    using ns(1,5) b that by (cases "i = n") (auto simp: nth_append less_Suc_eq Suc_diff_le)
  moreover have "?ns ! Suc i \<le> 64 * ?ns ! i" if "Suc i < Suc n" for i
  proof (cases "Suc i = n")
    case True
    then have "n - 1 = i" "0 < n" by auto
    then show ?thesis using ns(1,3) True by (simp add: nth_append)
  qed (use ns(1,4) that in \<open>simp add: nth_append\<close>)
  moreover have "unat (fst (alloc_levels sz' n (replicate (unat sz') 0 # acc))) = ?ns ! 0" using ns(1,3) by (cases n) (auto simp: nth_append)
  ultimately show ?case unfolding step using ns(1,2) b(2) by (intro exI [of _ ?ns]) (auto simp: nth_append)
qed simp

lemma bit_at_zeros: "\<not> bit_at (replicate n 0) x"
  by (auto simp: bit_at_def)

lemma hbitmap_alloc_spec:
  assumes g: "g < 64" and sz: "drop_bit g (sz + push_bit g 1 - 1) \<le> push_bit 41 1"
  shows "\<exists>hb. hbitmap_alloc sz g = Inr hb \<and> hb_inv hb \<and> hb_bits hb = {} \<and> hb_granularity hb = g \<and>
    hb_size hb = drop_bit g (sz + push_bit g 1 - 1)"
proof -
  define n where "n = drop_bit g (sz + push_bit g 1 - 1)"
  have n: "unat n \<le> 2 ^ 41" using sz by (simp add: n_def word_le_nat_alt)
  obtain sz0 ls where a: "alloc_levels n 7 [] = (sz0, ls)" by (cases "alloc_levels n 7 []")
  obtain ns where ns: "length ns = 7" "ls = map (\<lambda>m. replicate m 0) ns" "unat sz0 = ns ! 0" "unat n \<le> 64 * ns ! 6"
      "\<forall>i. Suc i < 7 \<longrightarrow> ns ! Suc i \<le> 64 * ns ! i" "\<forall>i<7. 0 < ns ! i \<and> ns ! i \<le> 2 ^ (41 - 6 * (7 - i))"
    using alloc_levels_sizes [OF n, of 7 "[]"] a by auto
  have s0: "ns ! 0 = 1" "ns ! 1 \<le> 32" using ns(6) [rule_format, of 0] ns(6) [rule_format, of 1] by auto
  define levels where "levels = [push_bit 63 1] # tl ls"
  have l0: "ls ! 0 = [0]" "ls \<noteq> []" using ns(1,2) s0 by auto
  have ls: "levels ! l = replicate (ns ! l) 0" if "0 < l" "l < 7" for l
    using that ns(1,2) by (cases l) (auto simp: levels_def nth_tl)
  have first: "levels ! 0 = [push_bit 63 1]" "length levels = 7" using ns(1,2) by (auto simp: levels_def)
  have len: "length (levels ! l) = ns ! l" if "l < 7" for l using that ls [of l] first s0 by (cases "l = 0") auto
  have "shape levels" using first len ns(5) s0 by (auto simp: shape_def)
  moreover have "linked levels l" if "l < 6" for l
  proof (cases "l = 0")
    case True
    have b: "bit_at [push_bit 63 1] N \<longleftrightarrow> N = 63" for N
      using sentinel_bit [of N] sentinel_bit [of "N mod 64"] by (cases "N < 64") (auto simp: bit_at_def)
    have "levels ! Suc 0 = replicate (ns ! 1) 0" using ls [of 1] by simp
    then show ?thesis unfolding linked_def summary_def True first(1) b by (auto simp only: length_replicate nth_replicate)
  next
    case False
    then show ?thesis using that ls [of l] ls [of "Suc l"] by (auto simp: linked_def summary_def bit_at_zeros)
  qed
  ultimately have t: "tower levels" by (simp add: tower_def)
  let ?hb = "\<lparr> hb_size = n, hb_count = 0, hb_granularity = g, hb_levels = levels \<rparr>"
  have b: "hb_bits ?hb = {}" using ls [of 6] by (simp add: hb_bits_def bit_at_zeros)
  then have "hb_inv ?hb" using t g n ns(4) len [of 6] by (simp add: hb_inv_def)
  moreover have "hbitmap_alloc sz g = Inr ?hb"
  proof -
    have "sz0 = 1" using ns(3) s0 by (simp add: word_unat_eq_iff)
    then show ?thesis using g sz a l0 unfolding hbitmap_alloc_def HB Let_def n_def [symmetric]
      by (simp add: upd_word_def buf_put_def levels_def)
  qed
  ultimately show ?thesis using b by (intro exI [of _ ?hb]) (simp add: n_def)
qed

section \<open>The interface of a set with ranges\<close>

datatype range_cmd = Set_range u64 u64 | Reset_range u64 u64

fun run_ranges :: "('s \<Rightarrow> u64 \<Rightarrow> u64 \<Rightarrow> c_error + 's) \<Rightarrow> ('s \<Rightarrow> u64 \<Rightarrow> u64 \<Rightarrow> c_error + 's) \<Rightarrow> range_cmd list \<Rightarrow> 's \<Rightarrow> c_error + 's" where
  "run_ranges add remove [] s = Inr s"
| "run_ranges add remove (Set_range a n # cs) s = sbind (add s a n) (\<lambda>s'. run_ranges add remove cs s')"
| "run_ranges add remove (Reset_range a n # cs) s = sbind (remove s a n) (\<lambda>s'. run_ranges add remove cs s')"

fun set_ranges :: "(u64 \<Rightarrow> u64 \<Rightarrow> nat set) \<Rightarrow> range_cmd list \<Rightarrow> nat set \<Rightarrow> nat set" where
  "set_ranges groups [] A = A"
| "set_ranges groups (Set_range a n # cs) A = set_ranges groups cs (A \<union> groups a n)"
| "set_ranges groups (Reset_range a n # cs) A = set_ranges groups cs (A - groups a n)"

fun cmd_in_range :: "(u64 \<Rightarrow> u64 \<Rightarrow> bool) \<Rightarrow> range_cmd \<Rightarrow> bool" where
  "cmd_in_range ok (Set_range a n) = ok a n"
| "cmd_in_range ok (Reset_range a n) = ok a n"

text \<open>
  What a client needs of a set of groups that is changed by ranges of elements: both operations succeed on the
  ranges inside the set, keep its invariant, and do what union and difference with the groups of the range do.
\<close>

locale range_set =
  fixes inv :: "'s \<Rightarrow> bool" and elems :: "'s \<Rightarrow> nat set" and in_range :: "'s \<Rightarrow> u64 \<Rightarrow> u64 \<Rightarrow> bool"
    and groups :: "'s \<Rightarrow> u64 \<Rightarrow> u64 \<Rightarrow> nat set" and add remove :: "'s \<Rightarrow> u64 \<Rightarrow> u64 \<Rightarrow> c_error + 's"
  assumes add: "inv s \<Longrightarrow> in_range s a n \<Longrightarrow>
      \<exists>s'. add s a n = Inr s' \<and> inv s' \<and> elems s' = elems s \<union> groups s a n \<and> in_range s' = in_range s \<and> groups s' = groups s"
    and remove: "inv s \<Longrightarrow> in_range s a n \<Longrightarrow>
      \<exists>s'. remove s a n = Inr s' \<and> inv s' \<and> elems s' = elems s - groups s a n \<and> in_range s' = in_range s \<and> groups s' = groups s"
begin

lemma run_ranges_set:
  "inv s \<Longrightarrow> \<forall>c \<in> set cs. cmd_in_range (in_range s) c \<Longrightarrow>
   \<exists>s'. run_ranges add remove cs s = Inr s' \<and> inv s' \<and> elems s' = set_ranges (groups s) cs (elems s) \<and>
     in_range s' = in_range s \<and> groups s' = groups s"
proof (induction cs arbitrary: s)
  case (Cons c cs)
  show ?case
  proof (cases c)
    case (Set_range a n)
    then obtain s' where "add s a n = Inr s'" "inv s'" "elems s' = elems s \<union> groups s a n" "in_range s' = in_range s" "groups s' = groups s"
      using add [of s a n] Cons.prems by auto
    then show ?thesis using Cons.IH [of s'] Cons.prems Set_range by simp
  next
    case (Reset_range a n)
    then obtain s' where "remove s a n = Inr s'" "inv s'" "elems s' = elems s - groups s a n" "in_range s' = in_range s" "groups s' = groups s"
      using remove [of s a n] Cons.prems by auto
    then show ?thesis using Cons.IH [of s'] Cons.prems Reset_range by simp
  qed
qed simp

end

lemma hb_groups_cong: "hb_granularity hb' = hb_granularity hb \<Longrightarrow> hb_groups hb' = hb_groups hb"
  by (simp add: hb_groups_def fun_eq_iff)

lemma hb_range_cong: "hb_granularity hb' = hb_granularity hb \<Longrightarrow> hb_size hb' = hb_size hb \<Longrightarrow> hb_range hb' = hb_range hb"
  by (simp add: hb_range_def fun_eq_iff)

interpretation hb: range_set hb_inv hb_bits hb_range hb_groups hbitmap_set hbitmap_reset
proof unfold_locales
  fix s a n assume "hb_inv s" "hb_range s a n"
  then show "\<exists>s'. hbitmap_set s a n = Inr s' \<and> hb_inv s' \<and> hb_bits s' = hb_bits s \<union> hb_groups s a n \<and> hb_range s' = hb_range s \<and> hb_groups s' = hb_groups s"
    using hbitmap_set_spec [of s a n] hb_groups_cong hb_range_cong by blast
next
  fix s a n assume "hb_inv s" "hb_range s a n"
  then show "\<exists>s'. hbitmap_reset s a n = Inr s' \<and> hb_inv s' \<and> hb_bits s' = hb_bits s - hb_groups s a n \<and> hb_range s' = hb_range s \<and> hb_groups s' = hb_groups s"
    using hbitmap_reset_spec [of s a n] hb_groups_cong hb_range_cong by blast
qed

lemma hb_run_keeps:
  "run_ranges hbitmap_set hbitmap_reset cs hb = Inr hb' \<Longrightarrow> hb_granularity hb' = hb_granularity hb \<and> hb_size hb' = hb_size hb"
proof (induction cs arbitrary: hb)
  case (Cons c cs)
  have "hbitmap_set hb a n = Inr h \<Longrightarrow> hb_granularity h = hb_granularity hb \<and> hb_size h = hb_size hb"
    "hbitmap_reset hb a n = Inr h \<Longrightarrow> hb_granularity h = hb_granularity hb \<and> hb_size h = hb_size hb" for a n h
    by (auto simp: hbitmap_set_def hbitmap_reset_def Let_def sbind_eq_Inr_iff)
  then show ?case using Cons by (cases c) (fastforce simp: sbind_eq_Inr_iff)+
qed simp

text \<open>A client that takes elements until there are no more.\<close>

fun iter_list :: "nat \<Rightarrow> HBitmap \<Rightarrow> HBitmapIter \<Rightarrow> c_error + u64 list" where
  "iter_list 0 hb hbi = Inl No_return"
| "iter_list (Suc fuel) hb hbi =
     sbind (hbitmap_iter_next hb hbi) (\<lambda>(item, hbi').
       case item of None \<Rightarrow> Inr [] | Some x \<Rightarrow> sbind (iter_list fuel hb hbi') (\<lambda>xs. Inr (x # xs)))"

lemma iter_list_sorted:
  assumes "tower (hb_levels hb)"
  shows "iter_ok (hb_levels hb) hbi t \<Longrightarrow> card {x \<in> hb_bits hb. t \<le> x} < fuel \<Longrightarrow>
    iter_list fuel hb hbi = Inr (map (\<lambda>x. push_bit (it_granularity hbi) (of_nat x)) (sorted_list_of_set {x \<in> hb_bits hb. t \<le> x}))"
proof (induction fuel arbitrary: hbi t)
  case (Suc fuel)
  from iter_next_spec [OF assms Suc.prems(1)] show ?case
  proof (elim disjE exE conjE)
    assume a: "\<forall>x\<ge>t. \<not> bit_at (hb_levels hb ! 6) x" "hbitmap_iter_next hb hbi = Inr (None, hbi)"
    then have "{x \<in> hb_bits hb. t \<le> x} = {}" by (auto simp: hb_bits_def)
    then show ?thesis using a(2) by (simp only: iter_list.simps) simp
  next
    fix x hbi'
    assume a: "t \<le> x" "bit_at (hb_levels hb ! 6) x" "\<forall>y. t \<le> y \<and> y < x \<longrightarrow> \<not> bit_at (hb_levels hb ! 6) y"
      "hbitmap_iter_next hb hbi = Inr (Some (push_bit (it_granularity hbi) (of_nat x)), hbi')"
      "iter_ok (hb_levels hb) hbi' (Suc x)" "it_granularity hbi' = it_granularity hbi"
    let ?A = "{y \<in> hb_bits hb. t \<le> y}" and ?B = "{y \<in> hb_bits hb. Suc x \<le> y}"
    have s: "?A = insert x ?B" "x \<notin> ?B" "\<forall>y\<in>?B. x < y" "finite ?B"
      using a(1-3) by (auto simp: hb_bits_def Suc_le_eq linorder_neq_iff intro: finite_subset [OF _ bit_at_finite])
    have "sorted_list_of_set ?A = x # sorted_list_of_set ?B"
      unfolding s(1) using s(2-4) by (simp add: insort_is_Cons less_imp_le)
    moreover have "card ?B < fuel" using Suc.prems(2) unfolding s(1) using s(2,4) by simp
    ultimately show ?thesis using a(4,6) Suc.IH [OF a(5)] by simp
  qed
qed simp

lemma hbitmap_alloc_succeeds: "hbitmap_alloc sz g = Inr hb \<Longrightarrow> g < 64 \<and> drop_bit g (sz + push_bit g 1 - 1) \<le> push_bit 41 1"
  by (cases "g < 64"; cases "drop_bit g (sz + push_bit g 1 - 1) \<le> push_bit 41 1") (auto simp: hbitmap_alloc_def HB Let_def c_assert_def)

lemma hb_bits_empty: "hb_inv hb \<Longrightarrow> hbitmap_empty hb \<longleftrightarrow> hb_bits hb = {}"
  by (auto simp: hbitmap_empty_def hb_inv_def unat_eq_zero [symmetric] card_eq_0_iff)

lemma div_pred: "n mod d \<noteq> 0 \<Longrightarrow> (n - 1) div d = n div d" for n d :: nat
proof (cases "d = 0")
  case False
  assume m: "n mod d \<noteq> 0"
  define q r where "q = d * (n div d)" and "r = n mod d"
  have "q + r = n" "r < d" "r \<noteq> 0" using False m by (simp_all add: q_def r_def)
  then have "q \<le> n - 1" "n - 1 < d + q" by linarith+
  then show ?thesis by (intro div_nat_eqI) (simp_all add: q_def)
qed simp

lemma div_pred_multiple:
  assumes "n mod d = 0" "0 < n" "0 < (d :: nat)"
  shows "(n - 1) div d = n div d - 1" "0 < n div d"
proof -
  obtain k where k: "n = d * k" using assms(1) by auto
  then have "0 < k" using assms(2) by (cases k) auto
  then show "(n - 1) div d = n div d - 1" "0 < n div d"
    using assms(3) k by (auto intro!: div_nat_eqI simp: algebra_simps diff_mult_distrib2)
qed

section \<open>Properties\<close>

text \<open>
  C28: After hbitmap_alloc, any sequence of hbitmap_set and hbitmap_reset on ranges inside the bitmap succeeds and leaves
  the set that the same unions and differences leave: hbitmap_get decides membership in it, hbitmap_count is its size
  times the group size, and every bit of an upper level still tells whether its word below is non-zero.
\<close>

theorem hbitmap_refines_set:
  assumes "hbitmap_alloc sz g = Inr hb" "\<forall>c \<in> set cs. cmd_in_range (hb_range hb) c"
  shows "\<exists>hb'. run_ranges hbitmap_set hbitmap_reset cs hb = Inr hb' \<and> hb_inv hb' \<and> hb_bits hb' = set_ranges (hb_groups hb) cs {} \<and>
    (\<forall>item. unat item div 2 ^ g < unat (hb_size hb) \<longrightarrow> hbitmap_get hb' item = Inr (unat item div 2 ^ g \<in> set_ranges (hb_groups hb) cs {})) \<and>
    hbitmap_count hb' = push_bit g (of_nat (card (set_ranges (hb_groups hb) cs {}))) \<and>
    (hbitmap_empty hb' \<longleftrightarrow> set_ranges (hb_groups hb) cs {} = {})"
proof -
  have a: "hb_inv hb" "hb_bits hb = {}" "hb_granularity hb = g" 
    using hbitmap_alloc_succeeds [OF assms(1)] hbitmap_alloc_spec [of g sz] assms(1) by auto
  obtain hb' where h: "run_ranges hbitmap_set hbitmap_reset cs hb = Inr hb'" "hb_inv hb'" "hb_bits hb' = set_ranges (hb_groups hb) cs {}"
      "hb_range hb' = hb_range hb" "hb_groups hb' = hb_groups hb"
    using hb.run_ranges_set [OF a(1) assms(2)] a(2) by auto
  have g: "hb_granularity hb' = g" "hb_size hb' = hb_size hb" using hb_run_keeps [OF h(1)] a(3) by auto
  have "hbitmap_get hb' item = Inr (unat item div 2 ^ g \<in> hb_bits hb')" if "unat item div 2 ^ g < unat (hb_size hb)" for item
    using hbitmap_get_spec [OF h(2), of item] that g by simp
  moreover have "hbitmap_count hb' = push_bit g (of_nat (card (hb_bits hb')))"
    unfolding hbitmap_count_def of_nat_count [OF h(2)] g(1) ..
  moreover have "hbitmap_empty hb' \<longleftrightarrow> hb_bits hb' = {}" by (rule hb_bits_empty [OF h(2)])
  ultimately show ?thesis using h(1-3) by simp
qed

theorem hbitmap_refines_set_witness:
  "\<exists>hb hb'. hbitmap_alloc 100 1 = Inr hb \<and> run_ranges hbitmap_set hbitmap_reset [Set_range 0 9, Reset_range 1 3] hb = Inr hb' \<and>
    hb_bits hb' = {2..4}"
proof -
  obtain hb where hb: "hbitmap_alloc 100 1 = Inr hb" "hb_granularity hb = 1" "hb_size hb = 50"
    using hbitmap_alloc_spec [of 1 100] by auto
  have "\<forall>c \<in> set [Set_range 0 9, Reset_range 1 3]. cmd_in_range (hb_range hb) c" using hb by (simp add: hb_range_def)
  from hbitmap_refines_set [OF hb(1) this] show ?thesis using hb by (auto simp: hb_groups_def)
qed

text \<open>The number of groups the size is rounded up to, where the sum of the rounding does not wrap and where it does.\<close>

lemma rounded_groups:
  fixes sz :: u64
  assumes "g < 64"
  shows "unat (drop_bit g (sz + push_bit g 1 - 1)) =
    (if unat sz + 2 ^ g - 1 < 2 ^ 64 then (unat sz + 2 ^ g - 1) div 2 ^ g else 0)"
proof -
  have p: "unat (push_bit g 1 - 1 :: u64) = 2 ^ g - 1" "(2 :: nat) ^ g \<le> 2 ^ 64" "(1 :: nat) \<le> 2 ^ g"
  proof -
    have "(2 :: nat) ^ g < 2 ^ 64" using assms by (intro power_strict_increasing) auto
    then have e: "unat (push_bit g 1 :: u64) = 2 ^ g"
      using assms by (subst unsigned_push_bit_eq) (simp add: push_bit_eq_mult take_bit_nat_eq_self_iff)
    have "(push_bit g 1 :: u64) \<noteq> 0" using assms by simp
    then show "unat (push_bit g 1 - 1 :: u64) = 2 ^ g - 1" using e by (simp add: unat_minus_one)
    show "(2 :: nat) ^ g \<le> 2 ^ 64" using assms by (intro power_increasing) auto
  qed simp
  have "unat sz < 2 ^ LENGTH(64)" by (rule unsigned_less)
  then have s: "unat sz < 2 ^ 64" by simp
  have "sz + push_bit g 1 - 1 = sz + (push_bit g 1 - 1)" by simp
  then have u: "unat (sz + push_bit g 1 - 1) = (unat sz + (2 ^ g - 1)) mod 2 ^ 64"
    by (simp only: unat_word_ariths p(1)) simp
  show ?thesis
  proof (cases "unat sz + 2 ^ g - 1 < 2 ^ 64")
    case True
    have "unat sz + (2 ^ g - 1) = unat sz + 2 ^ g - 1" using p(3) by simp
    then show ?thesis unfolding unat_drop u if_P [OF True] using True by (simp only: mod_less)
  next
    case False
    then have "2 ^ 64 \<le> unat sz + (2 ^ g - 1)" "unat sz + (2 ^ g - 1) - 2 ^ 64 < 2 ^ 64"
      using s p(2,3) by linarith+
    then have "(unat sz + (2 ^ g - 1)) mod 2 ^ 64 = unat sz + (2 ^ g - 1) - 2 ^ 64"
      by (simp only: le_mod_geq mod_less)
    then have "unat (sz + push_bit g 1 - 1) < 2 ^ g" using s p(3) False unfolding u by linarith
    then show ?thesis unfolding unat_drop if_not_P [OF False] by (rule div_less)
  qed
qed

text \<open>
  C30: hbitmap_alloc fails an assertion when the granularity is not below 64 or the size rounded up to groups is more than
  2 to the 41 groups, and otherwise returns a well formed bitmap of that many groups that holds nothing.  A size so large that
  the sum of the rounding wraps is not refused: it gives a bitmap of size zero.
\<close>

theorem hbitmap_alloc_ok:
  "(if 64 \<le> g then hbitmap_alloc sz g = Inl Assert_failed
    else let n = unat sz + 2 ^ g - 1 in
      if n < 2 ^ 64 \<and> 2 ^ 41 < n div 2 ^ g then hbitmap_alloc sz g = Inl Assert_failed
      else \<exists>hb. hbitmap_alloc sz g = Inr hb \<and> hb_inv hb \<and> hb_bits hb = {} \<and> hb_granularity hb = g \<and>
             unat (hb_size hb) = (if n < 2 ^ 64 then n div 2 ^ g else 0))"
proof (cases "64 \<le> g")
  case True
  then show ?thesis by (simp add: hbitmap_alloc_def c_assert_def)
next
  case False
  then have g: "g < 64" by simp
  define n k where "n = unat sz + 2 ^ g - 1" and "k = drop_bit g (sz + push_bit g 1 - 1)"
  have k: "unat k = (if n < 2 ^ 64 then n div 2 ^ g else 0)"
    unfolding n_def k_def by (rule rounded_groups [OF g])
  have le: "k \<le> push_bit 41 1 \<longleftrightarrow> \<not> (n < 2 ^ 64 \<and> 2 ^ 41 < n div 2 ^ g)"
    unfolding word_le_nat_alt k by auto
  show ?thesis
  proof (cases "k \<le> push_bit 41 1")
    case True
    obtain hb where "hbitmap_alloc sz g = Inr hb" "hb_inv hb" "hb_bits hb = {}" "hb_granularity hb = g" "hb_size hb = k"
      using hbitmap_alloc_spec [OF g, of sz] True unfolding k_def by blast
    then have "\<exists>hb. hbitmap_alloc sz g = Inr hb \<and> hb_inv hb \<and> hb_bits hb = {} \<and> hb_granularity hb = g \<and>
        unat (hb_size hb) = (if n < 2 ^ 64 then n div 2 ^ g else 0)" using k by blast
    then show ?thesis
      using True unfolding le if_not_P [OF False] Let_def n_def [symmetric] by (simp only: if_False)
  next
    case F: False
    then have "hbitmap_alloc sz g = Inl Assert_failed" using g by (simp add: hbitmap_alloc_def HB Let_def c_assert_def k_def)
    then show ?thesis using F unfolding le if_not_P [OF False] Let_def n_def [symmetric] by simp
  qed
qed

text \<open>
  C29: An iteration from hbitmap_iter_init on visits the groups of the set from that of the first element on, each once and in
  increasing order, as the number of their first element, and then ends.
\<close>

theorem hbitmap_iter_sorted:
  assumes "hb_inv hb" "drop_bit (hb_granularity hb) first < hb_size hb" "card (hb_bits hb) < fuel"
  shows "\<exists>hbi. hbitmap_iter_init hb first = Inr hbi \<and>
    iter_list fuel hb hbi = Inr (map (\<lambda>x. push_bit (hb_granularity hb) (of_nat x))
      (sorted_list_of_set {x \<in> hb_bits hb. unat first div 2 ^ hb_granularity hb \<le> x}))"
proof -
  have t: "tower (hb_levels hb)" using assms(1) by (simp add: hb_inv_def)
  obtain hbi where h: "hbitmap_iter_init hb first = Inr hbi" "iter_ok (hb_levels hb) hbi (unat first div 2 ^ hb_granularity hb)"
      "it_granularity hbi = hb_granularity hb"
    using iter_init_spec [OF _ assms(2)] assms(1) by (auto simp: hb_inv_def tower_def unat_drop)
  have "card {x \<in> hb_bits hb. unat first div 2 ^ hb_granularity hb \<le> x} \<le> card (hb_bits hb)" by (rule card_mono) auto
  then show ?thesis using h iter_list_sorted [OF t h(2)] assms(3) by auto
qed

theorem hbitmap_iter_sorted_witness:
  "\<exists>hb hb' hbi. hbitmap_alloc 100 1 = Inr hb \<and> hbitmap_set hb 2 8 = Inr hb' \<and> hbitmap_iter_init hb' 6 = Inr hbi \<and>
     iter_list 5 hb' hbi = Inr [6, 8]"
proof -
  obtain hb where hb: "hbitmap_alloc 100 1 = Inr hb" "hb_inv hb" "hb_bits hb = {}" "hb_granularity hb = 1" "hb_size hb = 50"
    using hbitmap_alloc_spec [of 1 100] by auto
  moreover have "hb_range hb 2 8" using hb by (simp add: hb_range_def)
  ultimately obtain hb' where hb': "hbitmap_set hb 2 8 = Inr hb'" "hb_inv hb'" "hb_bits hb' = {1..4}"
      "hb_granularity hb' = 1" "hb_size hb' = 50"
    using hbitmap_set_spec [of hb 2 8] by (auto simp: hb_groups_def)
  have "{x \<in> hb_bits hb'. 3 \<le> x} = set [3, 4]" unfolding hb'(3) by auto
  then have "sorted_list_of_set {x \<in> hb_bits hb'. 3 \<le> x} = [3, 4]" by (simp only: sorted_list_of_set_sort_remdups) simp
  then show ?thesis using hb' hb(1) hbitmap_iter_sorted [of hb' 6 5] by (auto simp: drop_bit_eq_div push_bit_eq_mult)
qed

text \<open>Whole words are set up to the end of the array at most.\<close>

lemma set_whole_overrun: "i \<le> length ws \<Longrightarrow> length ws < i + n \<Longrightarrow> set_whole ws i n changed = Inl Out_of_bounds"
proof (induction n arbitrary: i ws changed)
  case (Suc n)
  show ?case
  proof (cases "i < length ws")
    case True
    then show ?thesis using Suc by (simp add: buf_get_def buf_put_def)
  qed (simp add: buf_get_def)
qed simp

lemma set_whole_full: "i + n \<le> length ws \<Longrightarrow> \<exists>b ws'. set_whole ws i n changed = Inr (b, ws') \<and> length ws' = length ws"
proof (induction n arbitrary: i ws changed)
  case (Suc n)
  then show ?case using Suc.IH [of "Suc i" "ws[i := - 1]"] by (simp add: buf_get_def buf_put_def)
qed simp

lemma set_level_overrun:
  assumes "ws \<noteq> []" "length ws \<le> lst div 64"
  shows "set_level ws 0 lst = Inl Out_of_bounds"
proof -
  obtain w vs where ws: "ws = w # vs" using assms(1) by (cases ws) auto
  define ws1 where "ws1 = ws[0 := w OR hb_elem_mask 0 63]"
  have e: "on_elem (\<lambda>w. hb_set_elem w 0 (64 * (0 + 1) - 1)) ws 0 = Inr (w = 0, ws1)"
    by (simp add: on_elem_def hb_set_elem_def c_assert_def buf_get_def buf_put_def ws ws1_def)
  have l: "length ws1 = length ws" by (simp add: ws1_def)
  have "0 < lst div 64" using assms ws by simp
  then have S: "set_level ws 0 lst = sbind (set_whole ws1 1 (lst div 64 - 1) (w = 0)) (\<lambda>(b2, ws2).
      sbind (on_elem (\<lambda>w. hb_set_elem w (64 * (lst div 64)) lst) ws2 (lst div 64)) (\<lambda>(b3, ws3). Inr (b2 \<or> b3, ws3)))"
    using e by (simp add: set_level_def Let_def)
  show ?thesis
  proof (cases "length ws = lst div 64")
    case True
    then obtain b ws2 where "set_whole ws1 1 (lst div 64 - 1) (w = 0) = Inr (b, ws2)" "length ws2 = length ws"
      using set_whole_full [of 1 "lst div 64 - 1" ws1 "w = 0"] l ws by auto
    then show ?thesis using True by (simp add: S on_elem_def buf_get_def)
  next
    case False
    then have "set_whole ws1 1 (lst div 64 - 1) (w = 0) = Inl Out_of_bounds"
      using assms(2) ws l by (intro set_whole_overrun) auto
    then show ?thesis by (simp add: S)
  qed
qed

lemma hbitmap_set_nothing:
  assumes "hb_inv hb" "start \<noteq> 0" "unat start div 2 ^ hb_granularity hb < unat (hb_size hb)"
  shows "hbitmap_set hb start 0 = (if unat start mod 2 ^ hb_granularity hb = 0 then Inl Assert_failed else hbitmap_set hb start 1)"
proof -
  define g s where "g = hb_granularity hb" and "s = unat start div 2 ^ g"
  have u: "unat (start - 1) = unat start - 1" using assms(2) by (rule unat_minus_one)
  have p: "0 < unat start" using assms(2) by (simp add: unat_gt_0)
  show ?thesis
  proof (cases "unat start mod 2 ^ g = 0")
    case False
    have "(unat start - 1) div 2 ^ g = s" unfolding s_def using False by (rule div_pred)
    then have "drop_bit g (start - 1) = drop_bit g start" by (simp add: word_unat_eq_iff unat_drop u s_def)
    then have "hbitmap_set hb start 0 = hbitmap_set hb start 1" by (simp add: hbitmap_set_def g_def)
    then show ?thesis using False by (simp add: g_def)
  next
    case True
    have l: "(unat start - 1) div 2 ^ g = s - 1" "0 < s" unfolding s_def using div_pred_multiple [OF True p] by simp_all
    let ?s = "drop_bit g start" and ?l = "drop_bit g (start - 1)"
    have w: "unat ?s = s" "unat ?l = s - 1" using l(1) by (simp_all add: unat_drop u s_def)
    have "hb_count_between hb ?s ?l = Inr (of_nat (card (hb_bits hb \<inter> {unat ?s..unat ?l})))"
      unfolding g_def by (rule count_between_spec [OF assms(1)])
        (use assms(3) w in \<open>auto simp: word_less_nat_alt g_def s_def\<close>)
    moreover have "hb_set_between (hb_levels hb) 6 s (s - 1) = Inl Assert_failed"
    proof -
      have "s div 64 < length (hb_levels hb ! 6)" "length (hb_levels hb) = 7"
        using assms(1,3) by (auto simp: hb_inv_def tower_def shape_def s_def g_def)
      then have "set_level (hb_levels hb ! 6) s (s - 1) = Inl Assert_failed"
        using l(2) div_le_mono [of "s - 1" s 64] by (auto simp: set_level_def Let_def on_elem_def hb_set_elem_def c_assert_def)
      then show ?thesis using \<open>length (hb_levels hb) = 7\<close> by (simp add: hb_set_between.simps [of _ 6])
    qed
    ultimately show ?thesis using True w unfolding hbitmap_set_def Let_def HB g_def [symmetric] by simp
  qed
qed

lemma hbitmap_set_wraps:
  assumes inv: "hb_inv hb" and sz: "0 < hb_size hb" and big: "64 * length (hb_levels hb ! 6) < 2 ^ (64 - hb_granularity hb)"
  shows "hbitmap_set hb 0 0 = Inl Out_of_bounds"
proof -
  define g l where "g = hb_granularity hb" and "l = (drop_bit g (- 1) :: u64)"
  have t: "tower (hb_levels hb)" "g < 64" using inv by (auto simp: hb_inv_def g_def)
  obtain hbi where hbi: "hbitmap_iter_init hb 0 = Inr hbi" "iter_ok (hb_levels hb) hbi 0"
    using iter_init_spec [of hb 0] inv sz by (auto simp: hb_inv_def tower_def)
  have "length (hb_levels hb ! 6) \<le> length (concat (hb_levels hb))"
    using inv by (auto simp: length_concat hb_inv_def tower_def shape_def intro!: member_le_sum_list)
  then have "\<exists>c. hb_count_between hb 0 l = Inr c"
    using count_words_spec [OF t(1) hbi(2), of "length (concat (hb_levels hb)) + 2" "unat (l + 1)" 0] hbi(1)
    by (simp add: hb_count_between_def)
  then obtain c where c: "hb_count_between hb 0 l = Inr c" ..
  have "unat (- 1 :: u64) = 2 ^ 64 - 1" by (simp add: unsigned_minus_1_eq_mask mask_eq_exp_minus_1)
  moreover have "(2 ^ 64 - 1) div 2 ^ g = (2 :: nat) ^ (64 - g) - 1"
  proof -
    have e: "(2 :: nat) ^ 64 = 2 ^ g * 2 ^ (64 - g)" using t(2) by (simp flip: power_add)
    have "(2 ^ g * q - 1) div 2 ^ g = q - 1" if "0 < q" for q :: nat
      using div_pred_multiple [of "2 ^ g * q" "2 ^ g"] that by simp
    then show ?thesis unfolding e by simp
  qed
  ultimately have ul: "unat l = 2 ^ (64 - g) - 1" unfolding l_def unat_drop by (simp only:)
  have w: "length (hb_levels hb) = 7" "hb_levels hb ! 6 \<noteq> []"
    using inv sz by (auto simp: hb_inv_def tower_def shape_def word_less_nat_alt)
  have "length (hb_levels hb ! 6) \<le> unat l div 64" using big unfolding ul g_def by linarith
  then have "set_level (hb_levels hb ! 6) 0 (unat l) = Inl Out_of_bounds" by (rule set_level_overrun [OF w(2)])
  then have "hb_set_between (hb_levels hb) 6 0 (unat l) = Inl Out_of_bounds"
    using w(1) by (simp add: hb_set_between.simps [of _ 6] buf_get_def)
  then show ?thesis
    using c unfolding hbitmap_set_def Let_def HB g_def [symmetric] l_def [symmetric] by (simp add: l_def)
qed

text \<open>
  C31: Setting no element at all is not a no-op: from the middle of a group on it sets the whole group, from the
  first element of a group on it fails an assertion, and from element 0 on, where the last element wraps to the
  largest number, it writes outside the arrays unless they reach that far.
\<close>

theorem hbitmap_set_none:
  assumes "hb_inv hb" "unat start div 2 ^ hb_granularity hb < unat (hb_size hb)"
  shows "(start \<noteq> 0 \<longrightarrow> hbitmap_set hb start 0 =
      (if unat start mod 2 ^ hb_granularity hb = 0 then Inl Assert_failed else hbitmap_set hb start 1)) \<and>
    (start = 0 \<and> 64 * length (hb_levels hb ! 6) < 2 ^ (64 - hb_granularity hb) \<longrightarrow> hbitmap_set hb start 0 = Inl Out_of_bounds)"
proof (cases "start = 0")
  case True
  then show ?thesis using hbitmap_set_wraps [OF assms(1)] assms(2) by (simp add: word_less_nat_alt)
next
  case nz: False
  have "hbitmap_set hb start 0 = (if unat start mod 2 ^ hb_granularity hb = 0 then Inl Assert_failed else hbitmap_set hb start 1)"
    by (rule hbitmap_set_nothing [OF assms(1) nz assms(2)])
  then show ?thesis using nz by simp
qed

lemma alloc_100_levels:
  assumes "hbitmap_alloc 100 1 = Inr hb"
  shows "length (hb_levels hb ! 6) = 1"
proof -
  have a: "alloc_levels 50 HBITMAP_LEVELS [] = (1, [[0], [0], [0], [0], [0], [0], [0]])" by code_simp
  have d: "drop_bit 1 (100 + push_bit 1 1 - 1) = (50 :: u64)" by simp
  show ?thesis using assms unfolding hbitmap_alloc_def d Let_def a
    by (auto simp: c_assert_def upd_word_def buf_get_def buf_put_def split: if_splits)
qed

theorem hbitmap_set_none_witness:
  "\<exists>hb. hbitmap_alloc 100 1 = Inr hb \<and> hbitmap_set hb 3 0 = hbitmap_set hb 3 1 \<and> hbitmap_set hb 2 0 = Inl Assert_failed \<and>
     hbitmap_set hb 0 0 = Inl Out_of_bounds"
proof -
  obtain hb where hb: "hbitmap_alloc 100 1 = Inr hb" "hb_inv hb" "hb_granularity hb = 1" "hb_size hb = 50"
    using hbitmap_alloc_spec [of 1 100] by auto
  then show ?thesis
    using hbitmap_set_none [of hb 3] hbitmap_set_none [of hb 2] hbitmap_set_none [of hb 0] alloc_100_levels [of hb] by simp
qed

end
