(* ===== verification/Arm_Gic.thy ===== *)
theory Arm_Gic
  imports Host_Utils
begin

text \<open>
  The ARM generic interrupt controller: \<open>hw/intc/arm_gic.c\<close>, \<open>hw/intc/gic_internal.h\<close> and the reset and the
  checks of \<open>hw/intc/arm_gic_common.c\<close>.  An array of the device is a function on its indices; every access is
  checked against the length of the array.  Masks of CPUs are the bytes they are stored in.  The index of the
  CPU that makes an access (\<open>current_cpu->cpu_index\<close>) is an argument, and the level last driven on an output
  line by \<open>qemu_set_irq\<close> is a component of the state.
\<close>

section \<open>The state\<close>

record gic_irq_state =
  st_enabled :: u8
  st_pending :: u8
  st_active :: u8
  st_level :: u8
  st_model :: bool
  st_edge_trigger :: bool

record GICState =
  parent_irq :: "nat \<Rightarrow> bool"
  gic_enabled :: bool
  cpu_enabled :: "nat \<Rightarrow> bool"
  irq_state :: "nat \<Rightarrow> gic_irq_state"
  irq_target :: "nat \<Rightarrow> u8"
  priority1 :: "nat \<Rightarrow> nat \<Rightarrow> u8"
  priority2 :: "nat \<Rightarrow> u8"
  last_active :: "nat \<Rightarrow> nat \<Rightarrow> u16"
  sgi_pending :: "nat \<Rightarrow> nat \<Rightarrow> u8"
  priority_mask :: "nat \<Rightarrow> u16"
  running_irq :: "nat \<Rightarrow> u16"
  running_priority :: "nat \<Rightarrow> u16"
  current_pending :: "nat \<Rightarrow> u16"
  bpr :: "nat \<Rightarrow> u8"
  abpr :: "nat \<Rightarrow> u8"
  apr :: "nat \<Rightarrow> nat \<Rightarrow> u32"
  num_cpu :: nat
  num_irq :: nat
  revision :: u32

definition GIC_MAXIRQ :: nat where "GIC_MAXIRQ = 1020"
definition GIC_INTERNAL :: nat where "GIC_INTERNAL = 32"
definition GIC_NR_SGIS :: nat where "GIC_NR_SGIS = 16"
definition GIC_NCPU :: nat where "GIC_NCPU = 8"
definition GIC_NR_APRS :: nat where "GIC_NR_APRS = 4"
definition ALL_CPU_MASK :: u8 where "ALL_CPU_MASK = 0xff"
definition REV_11MPCORE :: u32 where "REV_11MPCORE = 0"
definition REV_NVIC :: u32 where "REV_NVIC = 0xffffffff"

definition cpu_mask :: "nat \<Rightarrow> u8" where
  "cpu_mask cpu = push_bit cpu 1"

definition legacy :: "GICState \<Rightarrow> bool" where
  "legacy s \<longleftrightarrow> revision s = REV_11MPCORE \<or> revision s = REV_NVIC"

definition GIC_BASE_IRQ :: "GICState \<Rightarrow> nat" where
  "GIC_BASE_IRQ s = (if revision s = REV_NVIC then 32 else 0)"

text \<open>Bounds checks: \<open>at1\<close> for one index, \<open>at2\<close> for two.\<close>

definition at1 :: "nat \<Rightarrow> nat \<Rightarrow> 'a \<Rightarrow> c_error + 'a" where
  "at1 n i x = (if i < n then Inr x else Inl Out_of_bounds)"

definition at2 :: "nat \<Rightarrow> nat \<Rightarrow> nat \<Rightarrow> nat \<Rightarrow> 'a \<Rightarrow> c_error + 'a" where
  "at2 n i m j x = (if i < n \<and> j < m then Inr x else Inl Out_of_bounds)"

definition upd2 :: "(nat \<Rightarrow> nat \<Rightarrow> 'a) \<Rightarrow> nat \<Rightarrow> nat \<Rightarrow> 'a \<Rightarrow> nat \<Rightarrow> nat \<Rightarrow> 'a" where
  "upd2 f i j x = f(i := (f i)(j := x))"

section \<open>The macros of gic_internal.h\<close>

definition on_irq :: "(gic_irq_state \<Rightarrow> gic_irq_state) \<Rightarrow> GICState \<Rightarrow> nat \<Rightarrow> c_error + GICState" where
  "on_irq f s irq = at1 GIC_MAXIRQ irq (s\<lparr> irq_state := (irq_state s)(irq := f (irq_state s irq)) \<rparr>)"

definition GIC_SET_ENABLED :: "GICState \<Rightarrow> nat \<Rightarrow> u8 \<Rightarrow> c_error + GICState" where
  "GIC_SET_ENABLED s irq cm = on_irq (\<lambda>t. t\<lparr> st_enabled := st_enabled t OR cm \<rparr>) s irq"

definition GIC_CLEAR_ENABLED :: "GICState \<Rightarrow> nat \<Rightarrow> u8 \<Rightarrow> c_error + GICState" where
  "GIC_CLEAR_ENABLED s irq cm = on_irq (\<lambda>t. t\<lparr> st_enabled := st_enabled t AND NOT cm \<rparr>) s irq"

definition GIC_TEST_ENABLED :: "GICState \<Rightarrow> nat \<Rightarrow> u8 \<Rightarrow> c_error + bool" where
  "GIC_TEST_ENABLED s irq cm = at1 GIC_MAXIRQ irq (st_enabled (irq_state s irq) AND cm \<noteq> 0)"

definition GIC_SET_PENDING :: "GICState \<Rightarrow> nat \<Rightarrow> u8 \<Rightarrow> c_error + GICState" where
  "GIC_SET_PENDING s irq cm = on_irq (\<lambda>t. t\<lparr> st_pending := st_pending t OR cm \<rparr>) s irq"

definition GIC_CLEAR_PENDING :: "GICState \<Rightarrow> nat \<Rightarrow> u8 \<Rightarrow> c_error + GICState" where
  "GIC_CLEAR_PENDING s irq cm = on_irq (\<lambda>t. t\<lparr> st_pending := st_pending t AND NOT cm \<rparr>) s irq"

definition GIC_TEST_ACTIVE :: "GICState \<Rightarrow> nat \<Rightarrow> u8 \<Rightarrow> c_error + bool" where
  "GIC_TEST_ACTIVE s irq cm = at1 GIC_MAXIRQ irq (st_active (irq_state s irq) AND cm \<noteq> 0)"

definition GIC_PUT_MODEL :: "GICState \<Rightarrow> nat \<Rightarrow> bool \<Rightarrow> c_error + GICState" where
  "GIC_PUT_MODEL s irq b = on_irq (\<lambda>t. t\<lparr> st_model := b \<rparr>) s irq"

definition GIC_TEST_MODEL :: "GICState \<Rightarrow> nat \<Rightarrow> c_error + bool" where
  "GIC_TEST_MODEL s irq = at1 GIC_MAXIRQ irq (st_model (irq_state s irq))"

definition GIC_SET_LEVEL :: "GICState \<Rightarrow> nat \<Rightarrow> u8 \<Rightarrow> c_error + GICState" where
  "GIC_SET_LEVEL s irq cm = on_irq (\<lambda>t. t\<lparr> st_level := st_level t OR cm \<rparr>) s irq"

definition GIC_CLEAR_LEVEL :: "GICState \<Rightarrow> nat \<Rightarrow> u8 \<Rightarrow> c_error + GICState" where
  "GIC_CLEAR_LEVEL s irq cm = on_irq (\<lambda>t. t\<lparr> st_level := st_level t AND NOT cm \<rparr>) s irq"

definition GIC_TEST_LEVEL :: "GICState \<Rightarrow> nat \<Rightarrow> u8 \<Rightarrow> c_error + bool" where
  "GIC_TEST_LEVEL s irq cm = at1 GIC_MAXIRQ irq (st_level (irq_state s irq) AND cm \<noteq> 0)"

definition GIC_PUT_EDGE_TRIGGER :: "GICState \<Rightarrow> nat \<Rightarrow> bool \<Rightarrow> c_error + GICState" where
  "GIC_PUT_EDGE_TRIGGER s irq b = on_irq (\<lambda>t. t\<lparr> st_edge_trigger := b \<rparr>) s irq"

definition GIC_TEST_EDGE_TRIGGER :: "GICState \<Rightarrow> nat \<Rightarrow> c_error + bool" where
  "GIC_TEST_EDGE_TRIGGER s irq = at1 GIC_MAXIRQ irq (st_edge_trigger (irq_state s irq))"

definition GIC_GET_PRIORITY :: "GICState \<Rightarrow> nat \<Rightarrow> nat \<Rightarrow> c_error + u8" where
  "GIC_GET_PRIORITY s irq cpu =
     (if irq < GIC_INTERNAL then at2 GIC_INTERNAL irq GIC_NCPU cpu (priority1 s irq cpu)
      else at1 (GIC_MAXIRQ - GIC_INTERNAL) (irq - GIC_INTERNAL) (priority2 s (irq - GIC_INTERNAL)))"

definition GIC_TARGET :: "GICState \<Rightarrow> nat \<Rightarrow> c_error + u8" where
  "GIC_TARGET s irq = at1 GIC_MAXIRQ irq (irq_target s irq)"

definition gic_test_pending :: "GICState \<Rightarrow> nat \<Rightarrow> u8 \<Rightarrow> c_error + bool" where
  "gic_test_pending s irq cm =
     (if legacy s then at1 GIC_MAXIRQ irq (st_pending (irq_state s irq) AND cm \<noteq> 0)
      else at1 GIC_MAXIRQ irq (st_pending (irq_state s irq) AND cm \<noteq> 0 \<or>
             \<not> st_edge_trigger (irq_state s irq) \<and> st_level (irq_state s irq) AND cm \<noteq> 0))"

section \<open>The output lines\<close>

definition gic_get_current_cpu :: "GICState \<Rightarrow> nat \<Rightarrow> nat" where
  "gic_get_current_cpu s current = (if num_cpu s > 1 then current else 0)"

text \<open>The loop over the interrupts in \<open>gic_update\<close>: \<open>n\<close> of them from \<open>irq\<close> on.\<close>

fun best_pending :: "GICState \<Rightarrow> nat \<Rightarrow> nat \<Rightarrow> nat \<Rightarrow> nat \<Rightarrow> nat \<Rightarrow> c_error + nat \<times> nat" where
  "best_pending s cpu irq 0 best_prio best_irq = Inr (best_prio, best_irq)"
| "best_pending s cpu irq (Suc n) best_prio best_irq =
     sbind (GIC_TEST_ENABLED s irq (cpu_mask cpu)) (\<lambda>e.
     sbind (if e then gic_test_pending s irq (cpu_mask cpu) else Inr False) (\<lambda>p.
       if e \<and> p
       then sbind (GIC_GET_PRIORITY s irq cpu) (\<lambda>prio.
              if unat prio < best_prio then best_pending s cpu (Suc irq) n (unat prio) irq
              else best_pending s cpu (Suc irq) n best_prio best_irq)
       else best_pending s cpu (Suc irq) n best_prio best_irq))"

definition gic_update_cpu :: "GICState \<Rightarrow> nat \<Rightarrow> c_error + GICState" where
  "gic_update_cpu s cpu =
     sbind (best_pending s cpu 0 (num_irq s) 0x100 1023) (\<lambda>(best_prio, best_irq).
     sbind (at1 GIC_NCPU cpu ()) (\<lambda>_.
       if best_prio < unat (priority_mask s cpu)
       then Inr (s\<lparr> current_pending := (current_pending s)(cpu := of_nat best_irq),
                    parent_irq := (parent_irq s)(cpu := best_prio < unat (running_priority s cpu)) \<rparr>)
       else Inr (s\<lparr> parent_irq := (parent_irq s)(cpu := False) \<rparr>)))"

fun gic_update_from :: "GICState \<Rightarrow> nat \<Rightarrow> nat \<Rightarrow> c_error + GICState" where
  "gic_update_from s cpu 0 = Inr s"
| "gic_update_from s cpu (Suc n) =
     sbind (at1 GIC_NCPU cpu (s\<lparr> current_pending := (current_pending s)(cpu := 1023) \<rparr>)) (\<lambda>s.
       if \<not> gic_enabled s \<or> \<not> cpu_enabled s cpu
       then Inr (s\<lparr> parent_irq := (parent_irq s)(cpu := False) \<rparr>)
       else sbind (gic_update_cpu s cpu) (\<lambda>s. gic_update_from s (Suc cpu) n))"

definition gic_update :: "GICState \<Rightarrow> c_error + GICState" where
  "gic_update s = gic_update_from s 0 (num_cpu s)"

definition gic_set_pending_private :: "GICState \<Rightarrow> nat \<Rightarrow> nat \<Rightarrow> c_error + GICState" where
  "gic_set_pending_private s cpu irq =
     sbind (gic_test_pending s irq (cpu_mask cpu)) (\<lambda>p.
       if p then Inr s
       else sbind (GIC_SET_PENDING s irq (cpu_mask cpu)) gic_update)"

section \<open>The input lines\<close>

definition gic_set_irq_11mpcore :: "GICState \<Rightarrow> nat \<Rightarrow> int \<Rightarrow> u8 \<Rightarrow> u8 \<Rightarrow> c_error + GICState" where
  "gic_set_irq_11mpcore s irq level cm target =
     (if level \<noteq> 0
      then sbind (GIC_SET_LEVEL s irq cm) (\<lambda>s.
           sbind (GIC_TEST_EDGE_TRIGGER s irq) (\<lambda>edge.
           sbind (GIC_TEST_ENABLED s irq cm) (\<lambda>e.
             if edge \<or> e then GIC_SET_PENDING s irq target else Inr s)))
      else GIC_CLEAR_LEVEL s irq cm)"

definition gic_set_irq_generic :: "GICState \<Rightarrow> nat \<Rightarrow> int \<Rightarrow> u8 \<Rightarrow> u8 \<Rightarrow> c_error + GICState" where
  "gic_set_irq_generic s irq level cm target =
     (if level \<noteq> 0
      then sbind (GIC_SET_LEVEL s irq cm) (\<lambda>s.
           sbind (GIC_TEST_EDGE_TRIGGER s irq) (\<lambda>edge.
             if edge then GIC_SET_PENDING s irq target else Inr s))
      else GIC_CLEAR_LEVEL s irq cm)"

definition gic_set_irq :: "GICState \<Rightarrow> nat \<Rightarrow> int \<Rightarrow> c_error + GICState" where
  "gic_set_irq s line level =
     sbind (if line < num_irq s - GIC_INTERNAL
            then sbind (GIC_TARGET s (line + GIC_INTERNAL)) (\<lambda>target. Inr (line + GIC_INTERNAL, ALL_CPU_MASK, target))
            else let k = line - (num_irq s - GIC_INTERNAL); cm = cpu_mask (k div GIC_INTERNAL)
                 in Inr (k mod GIC_INTERNAL, cm, cm)) (\<lambda>(irq, cm, target).
     sbind (c_assert (irq \<ge> GIC_NR_SGIS)) (\<lambda>_.
     sbind (GIC_TEST_LEVEL s irq cm) (\<lambda>old.
       if level = (if old then 1 else 0) then Inr s
       else sbind (if legacy s then gic_set_irq_11mpcore s irq level cm target
                   else gic_set_irq_generic s irq level cm target) gic_update)))"

section \<open>Acknowledge and end of interrupt\<close>

definition gic_set_running_irq :: "GICState \<Rightarrow> nat \<Rightarrow> nat \<Rightarrow> c_error + GICState" where
  "gic_set_running_irq s cpu irq =
     sbind (at1 GIC_NCPU cpu (s\<lparr> running_irq := (running_irq s)(cpu := of_nat irq) \<rparr>)) (\<lambda>s.
     sbind (if irq = 1023 then Inr 0x100
            else sbind (GIC_GET_PRIORITY s irq cpu) (\<lambda>prio. Inr (ucast prio))) (\<lambda>prio.
       gic_update (s\<lparr> running_priority := (running_priority s)(cpu := prio) \<rparr>)))"

definition clear_acknowledged :: "GICState \<Rightarrow> nat \<Rightarrow> nat \<Rightarrow> c_error + GICState" where
  "clear_acknowledged s irq cpu =
     sbind (GIC_TEST_MODEL s irq) (\<lambda>model.
       GIC_CLEAR_PENDING s irq (if model then ALL_CPU_MASK else cpu_mask cpu))"

text \<open>The acknowledged interrupt stops being pending; a software generated one also tells its source.\<close>

definition take_pending :: "GICState \<Rightarrow> nat \<Rightarrow> nat \<Rightarrow> c_error + u32 \<times> GICState" where
  "take_pending s irq cpu =
     (if legacy s \<or> irq \<ge> GIC_NR_SGIS
      then sbind (clear_acknowledged s irq cpu) (\<lambda>s. Inr (of_nat irq, s))
      else sbind (at2 GIC_NR_SGIS irq GIC_NCPU cpu (sgi_pending s irq cpu)) (\<lambda>p.
           sbind (c_assert (p \<noteq> 0)) (\<lambda>_.
             let src = ctz32 (ucast p); p = p AND NOT (push_bit src 1);
                 s = s\<lparr> sgi_pending := upd2 (sgi_pending s) irq cpu p \<rparr>
             in sbind (if p = 0 then clear_acknowledged s irq cpu else Inr s) (\<lambda>s.
                  Inr (of_nat irq OR push_bit 10 (of_nat src AND 7), s)))))"

definition gic_acknowledge_irq :: "GICState \<Rightarrow> nat \<Rightarrow> c_error + u32 \<times> GICState" where
  "gic_acknowledge_irq s cpu =
     sbind (at1 GIC_NCPU cpu (unat (current_pending s cpu))) (\<lambda>irq.
     sbind (if irq = 1023 then Inr True
            else sbind (GIC_GET_PRIORITY s irq cpu) (\<lambda>prio. Inr (unat prio \<ge> unat (running_priority s cpu)))) (\<lambda>none.
       if none then Inr (1023, s)
       else
         sbind (at2 GIC_MAXIRQ irq GIC_NCPU cpu
                 (s\<lparr> last_active := upd2 (last_active s) irq cpu (running_irq s cpu) \<rparr>)) (\<lambda>s.
         sbind (take_pending s irq cpu) (\<lambda>(ret, s).
         sbind (gic_set_running_irq s cpu irq) (\<lambda>s. Inr (ret, s))))))"

definition gic_set_priority :: "GICState \<Rightarrow> nat \<Rightarrow> nat \<Rightarrow> u8 \<Rightarrow> c_error + GICState" where
  "gic_set_priority s cpu irq val =
     (if irq < GIC_INTERNAL
      then at2 GIC_INTERNAL irq GIC_NCPU cpu (s\<lparr> priority1 := upd2 (priority1 s) irq cpu val \<rparr>)
      else at1 (GIC_MAXIRQ - GIC_INTERNAL) (irq - GIC_INTERNAL)
             (s\<lparr> priority2 := (priority2 s)(irq - GIC_INTERNAL := val) \<rparr>))"

text \<open>The loop that takes an interrupt out of the list of active ones.  It need not end, so it has fuel.\<close>

fun drop_active :: "nat \<Rightarrow> GICState \<Rightarrow> nat \<Rightarrow> nat \<Rightarrow> nat \<Rightarrow> c_error + GICState" where
  "drop_active 0 s cpu irq tmp = Inl No_return"
| "drop_active (Suc fuel) s cpu irq tmp =
     sbind (at2 GIC_MAXIRQ tmp GIC_NCPU cpu (unat (last_active s tmp cpu))) (\<lambda>nxt.
       if nxt = 1023 then Inr s
       else if nxt = irq
       then sbind (at2 GIC_MAXIRQ irq GIC_NCPU cpu (last_active s irq cpu)) (\<lambda>l.
              Inr (s\<lparr> last_active := upd2 (last_active s) tmp cpu l \<rparr>))
       else drop_active fuel s cpu irq nxt)"

definition reassert_level :: "GICState \<Rightarrow> nat \<Rightarrow> nat \<Rightarrow> c_error + bool \<times> GICState" where
  "reassert_level s cpu irq =
     sbind (GIC_TEST_EDGE_TRIGGER s irq) (\<lambda>edge.
     sbind (GIC_TEST_ENABLED s irq (cpu_mask cpu)) (\<lambda>e.
     sbind (GIC_TEST_LEVEL s irq (cpu_mask cpu)) (\<lambda>l.
     sbind (GIC_TARGET s irq) (\<lambda>target.
       if \<not> edge \<and> e \<and> l \<and> target AND cpu_mask cpu \<noteq> 0
       then sbind (GIC_SET_PENDING s irq (cpu_mask cpu)) (\<lambda>s. Inr (True, s))
       else Inr (False, s)))))"

definition gic_complete_irq :: "nat \<Rightarrow> GICState \<Rightarrow> nat \<Rightarrow> nat \<Rightarrow> c_error + GICState" where
  "gic_complete_irq fuel s cpu irq =
     (if irq \<ge> num_irq s then Inr s
      else sbind (at1 GIC_NCPU cpu (unat (running_irq s cpu))) (\<lambda>running.
        if running = 1023 then Inr s
        else sbind (if legacy s then reassert_level s cpu irq else Inr (False, s)) (\<lambda>(update, s).
          if irq \<noteq> running
          then sbind (drop_active fuel s cpu irq running) (\<lambda>s. if update then gic_update s else Inr s)
          else sbind (at2 GIC_MAXIRQ running GIC_NCPU cpu (unat (last_active s running cpu))) (\<lambda>l.
                 gic_set_running_irq s cpu l))))"

section \<open>Reads of the distributor\<close>

text \<open>The loops that collect one bit, or the two configuration bits, of consecutive interrupts.\<close>

fun gather :: "(nat \<Rightarrow> c_error + u32) \<Rightarrow> nat \<Rightarrow> nat \<Rightarrow> u32 \<Rightarrow> c_error + u32" where
  "gather f i 0 res = Inr res"
| "gather f i (Suc n) res = sbind (f i) (\<lambda>b. gather f (Suc i) n (res OR b))"

definition test_bit8 :: "(nat \<Rightarrow> c_error + bool) \<Rightarrow> c_error + u32" where
  "test_bit8 test = gather (\<lambda>i. sbind (test i) (\<lambda>b. Inr (if b then push_bit i 1 else 0))) 0 8 0"

definition gic_id :: "nat \<Rightarrow> u32" where
  "gic_id i = [0x90, 0x13, 0x04, 0x00, 0x0d, 0xf0, 0x05, 0xb1] ! i"

definition read_control :: "GICState \<Rightarrow> nat \<Rightarrow> c_error + u32" where
  "read_control s offset =
     (if offset = 0 then Inr (if gic_enabled s then 1 else 0)
      else if offset = 4 then Inr ((of_nat (num_irq s div 32) - 1) OR push_bit 5 (of_nat (num_cpu s) - 1))
      else Inr 0)"

definition read_enabled :: "GICState \<Rightarrow> nat \<Rightarrow> nat \<Rightarrow> c_error + u32" where
  "read_enabled s cpu offset =
     (let irq = (if offset < 0x180 then (offset - 0x100) * 8 else (offset - 0x180) * 8) + GIC_BASE_IRQ s
      in if irq \<ge> num_irq s then Inr 0
         else test_bit8 (\<lambda>i. GIC_TEST_ENABLED s (irq + i) (cpu_mask cpu)))"

definition read_pending :: "GICState \<Rightarrow> nat \<Rightarrow> nat \<Rightarrow> c_error + u32" where
  "read_pending s cpu offset =
     (let irq = (if offset < 0x280 then (offset - 0x200) * 8 else (offset - 0x280) * 8) + GIC_BASE_IRQ s;
          mask = (if irq < GIC_INTERNAL then cpu_mask cpu else ALL_CPU_MASK)
      in if irq \<ge> num_irq s then Inr 0
         else test_bit8 (\<lambda>i. gic_test_pending s (irq + i) mask))"

definition read_active :: "GICState \<Rightarrow> nat \<Rightarrow> nat \<Rightarrow> c_error + u32" where
  "read_active s cpu offset =
     (let irq = (offset - 0x300) * 8 + GIC_BASE_IRQ s;
          mask = (if irq < GIC_INTERNAL then cpu_mask cpu else ALL_CPU_MASK)
      in if irq \<ge> num_irq s then Inr 0
         else test_bit8 (\<lambda>i. GIC_TEST_ACTIVE s (irq + i) mask))"

definition read_priority :: "GICState \<Rightarrow> nat \<Rightarrow> nat \<Rightarrow> c_error + u32" where
  "read_priority s cpu offset =
     (let irq = offset - 0x400 + GIC_BASE_IRQ s
      in if irq \<ge> num_irq s then Inr 0
         else sbind (GIC_GET_PRIORITY s irq cpu) (\<lambda>prio. Inr (ucast prio)))"

definition read_target :: "GICState \<Rightarrow> nat \<Rightarrow> nat \<Rightarrow> c_error + u32" where
  "read_target s cpu offset =
     (if num_cpu s = 1 \<and> revision s \<noteq> REV_11MPCORE then Inr 0
      else let irq = offset - 0x800 + GIC_BASE_IRQ s
           in if irq \<ge> num_irq s then Inr 0
              else if irq \<ge> 29 \<and> irq \<le> 31 then Inr (ucast (cpu_mask cpu))
              else sbind (GIC_TARGET s irq) (\<lambda>t. Inr (ucast t)))"

definition read_config :: "GICState \<Rightarrow> nat \<Rightarrow> c_error + u32" where
  "read_config s offset =
     (let irq = (offset - 0xc00) * 2 + GIC_BASE_IRQ s
      in if irq \<ge> num_irq s then Inr 0
         else gather (\<lambda>i.
           sbind (GIC_TEST_MODEL s (irq + i)) (\<lambda>model.
           sbind (GIC_TEST_EDGE_TRIGGER s (irq + i)) (\<lambda>edge.
             Inr ((if model then push_bit (i * 2) 1 else 0) OR (if edge then push_bit (i * 2) 2 else 0))))) 0 4 0)"

definition read_sgi :: "GICState \<Rightarrow> nat \<Rightarrow> nat \<Rightarrow> c_error + u32" where
  "read_sgi s cpu offset =
     (if legacy s then Inr 0
      else let irq = (if offset < 0xf20 then offset - 0xf10 else offset - 0xf20)
           in at2 GIC_NR_SGIS irq GIC_NCPU cpu (ucast (sgi_pending s irq cpu)))"

definition gic_dist_readb :: "GICState \<Rightarrow> nat \<Rightarrow> nat \<Rightarrow> c_error + u32" where
  "gic_dist_readb s current offset =
     (let cpu = gic_get_current_cpu s current
      in if offset < 0x100 then read_control s offset
         else if offset < 0x200 then read_enabled s cpu offset
         else if offset < 0x300 then read_pending s cpu offset
         else if offset < 0x400 then read_active s cpu offset
         else if offset < 0x800 then read_priority s cpu offset
         else if offset < 0xc00 then read_target s cpu offset
         else if offset < 0xf00 then read_config s offset
         else if offset < 0xf10 then Inr 0
         else if offset < 0xf30 then read_sgi s cpu offset
         else if offset < 0xfe0 then Inr 0
         else if offset mod 4 \<noteq> 0 then Inr 0
         else at1 8 ((offset - 0xfe0) div 4) (gic_id ((offset - 0xfe0) div 4)))"

definition gic_dist_readw :: "GICState \<Rightarrow> nat \<Rightarrow> nat \<Rightarrow> c_error + u32" where
  "gic_dist_readw s current offset =
     sbind (gic_dist_readb s current offset) (\<lambda>lo.
     sbind (gic_dist_readb s current (offset + 1)) (\<lambda>hi. Inr (lo OR push_bit 8 hi)))"

definition gic_dist_readl :: "GICState \<Rightarrow> nat \<Rightarrow> nat \<Rightarrow> c_error + u32" where
  "gic_dist_readl s current offset =
     sbind (gic_dist_readw s current offset) (\<lambda>lo.
     sbind (gic_dist_readw s current (offset + 2)) (\<lambda>hi. Inr (lo OR push_bit 16 hi)))"

section \<open>Writes to the distributor\<close>

text \<open>The loops over the \<open>n\<close> interrupts of a register.\<close>

fun each :: "(nat \<Rightarrow> GICState \<Rightarrow> c_error + GICState) \<Rightarrow> nat \<Rightarrow> nat \<Rightarrow> GICState \<Rightarrow> c_error + GICState" where
  "each f i 0 s = Inr s"
| "each f i (Suc n) s = sbind (f i s) (each f (Suc i) n)"

definition each_set :: "u32 \<Rightarrow> (nat \<Rightarrow> GICState \<Rightarrow> c_error + GICState) \<Rightarrow> GICState \<Rightarrow> c_error + GICState" where
  "each_set value f s = each (\<lambda>i s. if bit value i then f i s else Inr s) 0 8 s"

definition write_control :: "GICState \<Rightarrow> nat \<Rightarrow> u32 \<Rightarrow> (c_error + GICState) option" where
  "write_control s offset value =
     (if offset = 0 then Some (Inr (s\<lparr> gic_enabled := bit value 0 \<rparr>))
      else if offset < 4 then Some (Inr s)
      else if offset \<ge> 0x80 then Some (Inr s)
      else None)"

definition write_set_enable :: "GICState \<Rightarrow> nat \<Rightarrow> nat \<Rightarrow> u32 \<Rightarrow> (c_error + GICState) option" where
  "write_set_enable s cpu offset value =
     (let irq = (offset - 0x100) * 8 + GIC_BASE_IRQ s
      in if irq \<ge> num_irq s then None
         else Some (each_set (if irq < GIC_NR_SGIS then 0xff else value) (\<lambda>i s.
           sbind (if irq < GIC_INTERNAL then Inr (cpu_mask cpu) else GIC_TARGET s (irq + i)) (\<lambda>mask.
           let cm = (if irq < GIC_INTERNAL then cpu_mask cpu else ALL_CPU_MASK)
           in sbind (GIC_SET_ENABLED s (irq + i) cm) (\<lambda>s.
              sbind (GIC_TEST_LEVEL s (irq + i) mask) (\<lambda>l.
              sbind (GIC_TEST_EDGE_TRIGGER s (irq + i)) (\<lambda>edge.
                if l \<and> \<not> edge then GIC_SET_PENDING s (irq + i) mask else Inr s))))) s))"

definition write_clear_enable :: "GICState \<Rightarrow> nat \<Rightarrow> nat \<Rightarrow> u32 \<Rightarrow> (c_error + GICState) option" where
  "write_clear_enable s cpu offset value =
     (let irq = (offset - 0x180) * 8 + GIC_BASE_IRQ s;
          cm = (if irq < GIC_INTERNAL then cpu_mask cpu else ALL_CPU_MASK)
      in if irq \<ge> num_irq s then None
         else Some (each_set (if irq < GIC_NR_SGIS then 0 else value) (\<lambda>i s. GIC_CLEAR_ENABLED s (irq + i) cm) s))"

definition write_set_pending :: "GICState \<Rightarrow> nat \<Rightarrow> u32 \<Rightarrow> (c_error + GICState) option" where
  "write_set_pending s offset value =
     (let irq = (offset - 0x200) * 8 + GIC_BASE_IRQ s
      in if irq \<ge> num_irq s then None
         else Some (each_set (if irq < GIC_NR_SGIS then 0 else value) (\<lambda>i s.
           sbind (GIC_TARGET s (irq + i)) (\<lambda>target. GIC_SET_PENDING s (irq + i) target)) s))"

definition write_clear_pending :: "GICState \<Rightarrow> nat \<Rightarrow> u32 \<Rightarrow> (c_error + GICState) option" where
  "write_clear_pending s offset value =
     (let irq = (offset - 0x280) * 8 + GIC_BASE_IRQ s
      in if irq \<ge> num_irq s then None
         else Some (each_set (if irq < GIC_NR_SGIS then 0 else value) (\<lambda>i s. GIC_CLEAR_PENDING s (irq + i) ALL_CPU_MASK) s))"

definition write_priority :: "GICState \<Rightarrow> nat \<Rightarrow> nat \<Rightarrow> u32 \<Rightarrow> (c_error + GICState) option" where
  "write_priority s cpu offset value =
     (let irq = offset - 0x400 + GIC_BASE_IRQ s
      in if irq \<ge> num_irq s then None else Some (gic_set_priority s cpu irq (ucast value)))"

definition write_target :: "GICState \<Rightarrow> nat \<Rightarrow> u32 \<Rightarrow> (c_error + GICState) option" where
  "write_target s offset value =
     (if num_cpu s \<noteq> 1 \<or> revision s = REV_11MPCORE
      then let irq = offset - 0x800 + GIC_BASE_IRQ s
           in if irq \<ge> num_irq s then None
              else let value = (if irq < 29 then 0 else if irq < GIC_INTERNAL then ucast ALL_CPU_MASK else value)
                   in Some (at1 GIC_MAXIRQ irq (s\<lparr> irq_target := (irq_target s)(irq := ucast value AND ALL_CPU_MASK) \<rparr>))
      else Some (Inr s))"

definition write_config :: "GICState \<Rightarrow> nat \<Rightarrow> u32 \<Rightarrow> (c_error + GICState) option" where
  "write_config s offset value =
     (let irq = (offset - 0xc00) * 4 + GIC_BASE_IRQ s
      in if irq \<ge> num_irq s then None
         else let value = (if irq < GIC_INTERNAL then value OR 0xaa else value)
              in Some (each (\<lambda>i s.
                   sbind (GIC_PUT_MODEL s (irq + i) (bit value (i * 2))) (\<lambda>s.
                     GIC_PUT_EDGE_TRIGGER s (irq + i) (bit value (i * 2 + 1)))) 0 4 s))"

definition write_sgi_clear :: "GICState \<Rightarrow> nat \<Rightarrow> nat \<Rightarrow> u32 \<Rightarrow> (c_error + GICState) option" where
  "write_sgi_clear s cpu offset value =
     (if legacy s then None
      else let irq = offset - 0xf10
           in Some (sbind (at2 GIC_NR_SGIS irq GIC_NCPU cpu
                (s\<lparr> sgi_pending := upd2 (sgi_pending s) irq cpu (sgi_pending s irq cpu AND NOT (ucast value)) \<rparr>)) (\<lambda>s.
                if sgi_pending s irq cpu = 0 then GIC_CLEAR_PENDING s irq (cpu_mask cpu) else Inr s)))"

definition write_sgi_set :: "GICState \<Rightarrow> nat \<Rightarrow> nat \<Rightarrow> u32 \<Rightarrow> (c_error + GICState) option" where
  "write_sgi_set s cpu offset value =
     (if legacy s then None
      else let irq = offset - 0xf20
           in Some (sbind (GIC_SET_PENDING s irq (cpu_mask cpu)) (\<lambda>s.
                at2 GIC_NR_SGIS irq GIC_NCPU cpu
                  (s\<lparr> sgi_pending := upd2 (sgi_pending s) irq cpu (sgi_pending s irq cpu OR ucast value) \<rparr>))))"

text \<open>A write of one byte; \<open>None\<close> is the jump to \<open>bad_reg\<close>, which skips the update of the output lines.\<close>

definition dist_write :: "GICState \<Rightarrow> nat \<Rightarrow> nat \<Rightarrow> u32 \<Rightarrow> (c_error + GICState) option" where
  "dist_write s cpu offset value =
     (if offset < 0x100 then write_control s offset value
      else if offset < 0x180 then write_set_enable s cpu offset value
      else if offset < 0x200 then write_clear_enable s cpu offset value
      else if offset < 0x280 then write_set_pending s offset value
      else if offset < 0x300 then write_clear_pending s offset value
      else if offset < 0x400 then None
      else if offset < 0x800 then write_priority s cpu offset value
      else if offset < 0xc00 then write_target s offset value
      else if offset < 0xf00 then write_config s offset value
      else if offset < 0xf10 then None
      else if offset < 0xf20 then write_sgi_clear s cpu offset value
      else if offset < 0xf30 then write_sgi_set s cpu offset value
      else None)"

definition gic_dist_writeb :: "GICState \<Rightarrow> nat \<Rightarrow> nat \<Rightarrow> u32 \<Rightarrow> c_error + GICState" where
  "gic_dist_writeb s current offset value =
     (case dist_write s (gic_get_current_cpu s current) offset value of
        None \<Rightarrow> Inr s
      | Some r \<Rightarrow> sbind r gic_update)"

definition gic_dist_writew :: "GICState \<Rightarrow> nat \<Rightarrow> nat \<Rightarrow> u32 \<Rightarrow> c_error + GICState" where
  "gic_dist_writew s current offset value =
     sbind (gic_dist_writeb s current offset (value AND 0xff)) (\<lambda>s.
       gic_dist_writeb s current (offset + 1) (drop_bit 8 value))"

text \<open>The loop over the target CPUs of a software generated interrupt; each round clears the lowest bit of the mask.\<close>

lemma ctz_byte_bit: "ctz32 (ucast (m :: u8)) < GIC_NCPU \<Longrightarrow> bit m (ctz32 (ucast m))"
  using ctz32_spec [of "ucast m"] by (auto simp: ctz_spec_def GIC_NCPU_def bit_simps)

lemma ctz_byte_less: "m \<noteq> 0 \<Longrightarrow> ctz32 (ucast (m :: u8)) < GIC_NCPU"
proof (rule ccontr)
  assume nz: "m \<noteq> 0" and "\<not> ctz32 (ucast m) < GIC_NCPU"
  then have "\<not> bit m i" if "i < 8" for i
    using ctz32_spec [of "ucast m"] that by (auto simp: ctz_spec_def all_in_def GIC_NCPU_def bit_simps)
  then show False using nz by (auto simp: word_eq_bits)
qed

lemma clear_ctz_less:
  assumes "ctz32 (ucast (m :: u8)) < GIC_NCPU"
  shows "unat (m AND NOT (push_bit (ctz32 (ucast m)) 1)) < unat m"
proof -
  let ?n = "m AND NOT (push_bit (ctz32 (ucast m)) 1)"
  have "bit m (ctz32 (ucast m))" "\<not> bit ?n (ctz32 (ucast m))"
    using ctz_byte_bit [OF assms] assms by (auto simp: bit_simps GIC_NCPU_def)
  then have "?n \<noteq> m" by metis
  moreover have "?n \<le> m" by (rule word_and_le2)
  ultimately show ?thesis by (simp add: word_less_nat_alt [symmetric])
qed

function sgi_targets :: "GICState \<Rightarrow> nat \<Rightarrow> nat \<Rightarrow> u8 \<Rightarrow> c_error + GICState" where
  "sgi_targets s cpu irq m =
     (let target_cpu = ctz32 (ucast m)
      in if target_cpu < GIC_NCPU
         then sbind (at2 GIC_NR_SGIS irq GIC_NCPU target_cpu
                (s\<lparr> sgi_pending := upd2 (sgi_pending s) irq target_cpu (sgi_pending s irq target_cpu OR cpu_mask cpu) \<rparr>)) (\<lambda>s.
                sgi_targets s cpu irq (m AND NOT (push_bit target_cpu 1)))
         else Inr s)"
  by pat_completeness auto

termination sgi_targets
  by (relation "measure (\<lambda>(s, cpu, irq, m). unat m)") (use clear_ctz_less in auto)

declare sgi_targets.simps [simp del]

definition sgi_mask :: "nat \<Rightarrow> u32 \<Rightarrow> u8" where
  "sgi_mask cpu value =
     (let filt = unat (drop_bit 24 value AND 3)
      in if filt = 0 then ucast (drop_bit 16 value) AND ALL_CPU_MASK
         else if filt = 1 then ALL_CPU_MASK XOR cpu_mask cpu
         else if filt = 2 then cpu_mask cpu
         else ALL_CPU_MASK)"

definition gic_dist_sgir :: "GICState \<Rightarrow> nat \<Rightarrow> u32 \<Rightarrow> c_error + GICState" where
  "gic_dist_sgir s cpu value =
     (let irq = unat (value AND 0x3ff); m = sgi_mask cpu value
      in sbind (GIC_SET_PENDING s irq m) (\<lambda>s. sbind (sgi_targets s cpu irq m) gic_update))"

definition gic_dist_writel :: "GICState \<Rightarrow> nat \<Rightarrow> nat \<Rightarrow> u32 \<Rightarrow> c_error + GICState" where
  "gic_dist_writel s current offset value =
     (if offset = 0xf00 then gic_dist_sgir s (gic_get_current_cpu s current) value
      else sbind (gic_dist_writew s current offset (value AND 0xffff)) (\<lambda>s.
             gic_dist_writew s current (offset + 2) (drop_bit 16 value)))"

section \<open>The CPU interfaces\<close>

definition gic_cpu_read :: "GICState \<Rightarrow> nat \<Rightarrow> nat \<Rightarrow> c_error + u32 \<times> GICState" where
  "gic_cpu_read s cpu offset =
     (if offset = 0x00 then at1 GIC_NCPU cpu (if cpu_enabled s cpu then 1 else 0, s)
      else if offset = 0x04 then at1 GIC_NCPU cpu (ucast (priority_mask s cpu), s)
      else if offset = 0x08 then at1 GIC_NCPU cpu (ucast (bpr s cpu), s)
      else if offset = 0x0c then gic_acknowledge_irq s cpu
      else if offset = 0x14 then at1 GIC_NCPU cpu (ucast (running_priority s cpu), s)
      else if offset = 0x18 then at1 GIC_NCPU cpu (ucast (current_pending s cpu), s)
      else if offset = 0x1c then at1 GIC_NCPU cpu (ucast (abpr s cpu), s)
      else if offset = 0xd0 \<or> offset = 0xd4 \<or> offset = 0xd8 \<or> offset = 0xdc
      then at2 GIC_NR_APRS ((offset - 0xd0) div 4) GIC_NCPU cpu (apr s ((offset - 0xd0) div 4) cpu, s)
      else Inr (0, s))"

definition gic_cpu_write :: "nat \<Rightarrow> GICState \<Rightarrow> nat \<Rightarrow> nat \<Rightarrow> u32 \<Rightarrow> c_error + GICState" where
  "gic_cpu_write fuel s cpu offset value =
     (if offset = 0x00
      then sbind (at1 GIC_NCPU cpu (s\<lparr> cpu_enabled := (cpu_enabled s)(cpu := bit value 0) \<rparr>)) gic_update
      else if offset = 0x04
      then sbind (at1 GIC_NCPU cpu (s\<lparr> priority_mask := (priority_mask s)(cpu := ucast (value AND 0xff)) \<rparr>)) gic_update
      else if offset = 0x08
      then sbind (at1 GIC_NCPU cpu (s\<lparr> bpr := (bpr s)(cpu := ucast (value AND 7)) \<rparr>)) gic_update
      else if offset = 0x10 then gic_complete_irq fuel s cpu (unat (value AND 0x3ff))
      else if offset = 0x1c
      then sbind (if revision s \<ge> 2 then at1 GIC_NCPU cpu (s\<lparr> abpr := (abpr s)(cpu := ucast (value AND 7)) \<rparr>) else Inr s) gic_update
      else if offset = 0xd0 \<or> offset = 0xd4 \<or> offset = 0xd8 \<or> offset = 0xdc then gic_update s
      else Inr s)"

definition gic_thiscpu_read :: "GICState \<Rightarrow> nat \<Rightarrow> nat \<Rightarrow> c_error + u32 \<times> GICState" where
  "gic_thiscpu_read s current addr = gic_cpu_read s (gic_get_current_cpu s current) addr"

definition gic_thiscpu_write :: "nat \<Rightarrow> GICState \<Rightarrow> nat \<Rightarrow> nat \<Rightarrow> u32 \<Rightarrow> c_error + GICState" where
  "gic_thiscpu_write fuel s current addr value = gic_cpu_write fuel s (gic_get_current_cpu s current) addr value"

text \<open>The regions of the single CPUs, whose number is the distance of the opaque pointer from \<open>backref\<close>.\<close>

definition gic_do_cpu_read :: "GICState \<Rightarrow> nat \<Rightarrow> nat \<Rightarrow> c_error + u32 \<times> GICState" where
  "gic_do_cpu_read s i addr = gic_cpu_read s i addr"

definition gic_do_cpu_write :: "nat \<Rightarrow> GICState \<Rightarrow> nat \<Rightarrow> nat \<Rightarrow> u32 \<Rightarrow> c_error + GICState" where
  "gic_do_cpu_write fuel s i addr value = gic_cpu_write fuel s i addr value"

section \<open>Realize and reset\<close>

datatype gic_error = Too_many_cpus nat | Too_many_irqs nat | Bad_irqs nat

definition arm_gic_common_realize :: "GICState \<Rightarrow> gic_error + GICState" where
  "arm_gic_common_realize s =
     (if num_cpu s > GIC_NCPU then Inl (Too_many_cpus (num_cpu s))
      else let n = num_irq s; s = s\<lparr> num_irq := (num_irq s + GIC_BASE_IRQ s) mod 2 ^ 32 \<rparr>
           in if num_irq s > GIC_MAXIRQ then Inl (Too_many_irqs n)
              else if num_irq s < 32 \<or> num_irq s mod 32 \<noteq> 0 then Inl (Bad_irqs n)
              else Inr s)"

definition clear_irq_state :: gic_irq_state where
  "clear_irq_state = \<lparr> st_enabled = 0, st_pending = 0, st_active = 0, st_level = 0, st_model = False, st_edge_trigger = False \<rparr>"

definition arm_gic_common_reset :: "GICState \<Rightarrow> GICState" where
  "arm_gic_common_reset s =
     (let below = (\<lambda>new old i. if i < num_cpu s then new else old i)
      in s\<lparr> irq_state := (\<lambda>i. if i < 16 then clear_irq_state\<lparr> st_enabled := ALL_CPU_MASK, st_edge_trigger := True \<rparr>
                               else if i < GIC_MAXIRQ then clear_irq_state else irq_state s i),
            priority_mask := below (if revision s = REV_11MPCORE then 0xf0 else 0) (priority_mask s),
            current_pending := below 1023 (current_pending s),
            running_irq := below 1023 (running_irq s),
            running_priority := below 0x100 (running_priority s),
            cpu_enabled := (\<lambda>i. if i < num_cpu s then False else cpu_enabled s i),
            irq_target := (\<lambda>i. if num_cpu s = 1 \<and> i < GIC_MAXIRQ then 1 else irq_target s i),
            gic_enabled := False \<rparr>)"

end
