(* ===== verification/Arm_Gic_Update.thy ===== *)
theory Arm_Gic_Update
  imports Arm_Gic
begin

text \<open>
  What the update of the output lines of the interrupt controller computes: the search over the interrupts against a
  specification of the interrupt to show, and the loop over the CPU interfaces, which ends at the first disabled one.
\<close>

section \<open>What the output lines show\<close>

text \<open>
  An interrupt is a candidate for a CPU when it is enabled and pending there.  \<open>chosen\<close> is the contract of the
  priority logic: the candidate of least priority value (the first one among equals) is shown when it is below
  the priority mask, and the line is high when it also preempts what is running.
\<close>

named_theorems gic_macros

lemmas gic_constants [gic_macros] =
  GIC_MAXIRQ_def GIC_INTERNAL_def GIC_NCPU_def GIC_NR_SGIS_def

lemmas gic_accesses [gic_macros] =
  GIC_SET_ENABLED_def GIC_CLEAR_ENABLED_def GIC_TEST_ENABLED_def GIC_SET_PENDING_def GIC_CLEAR_PENDING_def
  GIC_TEST_ACTIVE_def GIC_PUT_MODEL_def GIC_TEST_MODEL_def GIC_SET_LEVEL_def GIC_CLEAR_LEVEL_def
  GIC_TEST_LEVEL_def GIC_PUT_EDGE_TRIGGER_def GIC_TEST_EDGE_TRIGGER_def GIC_GET_PRIORITY_def GIC_TARGET_def
  gic_test_pending_def on_irq_def at1_def at2_def

definition pending_on :: "GICState \<Rightarrow> nat \<Rightarrow> u8 \<Rightarrow> bool" where
  "pending_on s irq cm \<longleftrightarrow> st_pending (irq_state s irq) AND cm \<noteq> 0 \<or>
     \<not> legacy s \<and> \<not> st_edge_trigger (irq_state s irq) \<and> st_level (irq_state s irq) AND cm \<noteq> 0"

definition candidate :: "GICState \<Rightarrow> nat \<Rightarrow> nat \<Rightarrow> bool" where
  "candidate s cpu irq \<longleftrightarrow> st_enabled (irq_state s irq) AND cpu_mask cpu \<noteq> 0 \<and> pending_on s irq (cpu_mask cpu)"

definition irq_prio :: "GICState \<Rightarrow> nat \<Rightarrow> nat \<Rightarrow> nat" where
  "irq_prio s cpu irq = unat (if irq < GIC_INTERNAL then priority1 s irq cpu else priority2 s (irq - GIC_INTERNAL))"

definition first_best :: "GICState \<Rightarrow> nat \<Rightarrow> nat \<Rightarrow> nat \<Rightarrow> nat \<Rightarrow> bool" where
  "first_best s cpu lo hi i \<longleftrightarrow> lo \<le> i \<and> i < hi \<and> candidate s cpu i \<and>
     (\<forall>j. lo \<le> j \<and> j < hi \<and> candidate s cpu j \<longrightarrow>
        irq_prio s cpu i < irq_prio s cpu j \<or> irq_prio s cpu i = irq_prio s cpu j \<and> i \<le> j)"

definition chosen :: "GICState \<Rightarrow> nat \<Rightarrow> u16 \<Rightarrow> bool \<Rightarrow> bool" where
  "chosen s cpu cur line \<longleftrightarrow>
     (\<exists>i. first_best s cpu 0 (num_irq s) i \<and> irq_prio s cpu i < unat (priority_mask s cpu) \<and>
          cur = of_nat i \<and> line = (irq_prio s cpu i < unat (running_priority s cpu))) \<or>
     (\<forall>j < num_irq s. candidate s cpu j \<longrightarrow> unat (priority_mask s cpu) \<le> irq_prio s cpu j) \<and> cur = 1023 \<and> \<not> line"

lemma irq_prio_less: "irq_prio s cpu irq < 0x100"
proof -
  have "unat x < 2 ^ LENGTH(8)" for x :: u8 by (rule unsigned_less)
  then show ?thesis by (simp add: irq_prio_def)
qed

lemma get_priority [simp]:
  "irq < GIC_MAXIRQ \<Longrightarrow> cpu < GIC_NCPU \<Longrightarrow>
   GIC_GET_PRIORITY s irq cpu = Inr (if irq < GIC_INTERNAL then priority1 s irq cpu else priority2 s (irq - GIC_INTERNAL))"
  by (auto simp: gic_macros)

lemma test_pending [simp]: "irq < GIC_MAXIRQ \<Longrightarrow> gic_test_pending s irq cm = Inr (pending_on s irq cm)"
  by (auto simp: gic_test_pending_def pending_on_def at1_def)

lemma best_step:
  assumes "irq < GIC_MAXIRQ" "cpu < GIC_NCPU"
  shows "best_pending s cpu irq (Suc n) p b =
    (if candidate s cpu irq \<and> irq_prio s cpu irq < p then best_pending s cpu (Suc irq) n (irq_prio s cpu irq) irq
     else best_pending s cpu (Suc irq) n p b)"
  using assms by (auto simp: GIC_TEST_ENABLED_def at1_def candidate_def irq_prio_def)

definition best_from :: "GICState \<Rightarrow> nat \<Rightarrow> nat \<Rightarrow> nat \<Rightarrow> nat \<Rightarrow> nat \<Rightarrow> nat \<times> nat \<Rightarrow> bool" where
  "best_from s cpu lo hi p b r \<longleftrightarrow>
     r = (p, b) \<and> (\<forall>j. lo \<le> j \<and> j < hi \<and> candidate s cpu j \<longrightarrow> p \<le> irq_prio s cpu j) \<or>
     (\<exists>i. first_best s cpu lo hi i \<and> r = (irq_prio s cpu i, i) \<and> irq_prio s cpu i < p)"

lemma best_from_empty: "best_from s cpu irq irq p b (p, b)"
  by (simp add: best_from_def)

lemma best_from_skip:
  assumes r: "best_from s cpu (Suc irq) hi p b r" and c: "candidate s cpu irq \<longrightarrow> p \<le> irq_prio s cpu irq"
  shows "best_from s cpu irq hi p b r"
proof -
  have S: "irq \<le> j \<longleftrightarrow> j = irq \<or> Suc irq \<le> j" for j by auto
  from r consider
      (a) "r = (p, b)" "\<forall>j. Suc irq \<le> j \<and> j < hi \<and> candidate s cpu j \<longrightarrow> p \<le> irq_prio s cpu j"
    | (b) i where "first_best s cpu (Suc irq) hi i" "r = (irq_prio s cpu i, i)" "irq_prio s cpu i < p"
    unfolding best_from_def by blast
  then show ?thesis
  proof cases
    case a
    then show ?thesis using c unfolding best_from_def S by blast
  next
    case b
    then have "first_best s cpu irq hi i"
      using c unfolding first_best_def S by (metis order.strict_trans1 order.strict_trans2)
    then show ?thesis using b unfolding best_from_def by blast
  qed
qed

lemma best_from_take:
  assumes r: "best_from s cpu (Suc irq) hi (irq_prio s cpu irq) irq r" and c: "candidate s cpu irq"
    and p: "irq_prio s cpu irq < p" and h: "irq < hi"
  shows "best_from s cpu irq hi p b r"
proof -
  have S: "irq \<le> j \<longleftrightarrow> j = irq \<or> Suc irq \<le> j" for j by auto
  from r consider
      (a) "r = (irq_prio s cpu irq, irq)"
          "\<forall>j. Suc irq \<le> j \<and> j < hi \<and> candidate s cpu j \<longrightarrow> irq_prio s cpu irq \<le> irq_prio s cpu j"
    | (b) i where "first_best s cpu (Suc irq) hi i" "r = (irq_prio s cpu i, i)" "irq_prio s cpu i < irq_prio s cpu irq"
    unfolding best_from_def by blast
  then show ?thesis
  proof cases
    case a
    then have "first_best s cpu irq hi irq"
      using c h unfolding first_best_def by (metis order.refl le_neq_implies_less Suc_leI)
    then show ?thesis using a p unfolding best_from_def by blast
  next
    case b
    then have "first_best s cpu irq hi i"
      unfolding first_best_def S by blast
    then show ?thesis using b p unfolding best_from_def by (metis order.strict_trans)
  qed
qed

lemma best_pending_spec:
  assumes "irq + n \<le> GIC_MAXIRQ" "cpu < GIC_NCPU"
  shows "\<exists>r. best_pending s cpu irq n p b = Inr r \<and> best_from s cpu irq (irq + n) p b r"
  using assms
proof (induction n arbitrary: irq p b)
  case 0
  then show ?case by (simp add: best_from_empty)
next
  case (Suc n)
  then have lt: "irq < GIC_MAXIRQ" "Suc irq + n \<le> GIC_MAXIRQ" by simp_all
  note IH = Suc.IH [OF lt(2) Suc.prems(2), unfolded add_Suc_shift]
  show ?case
  proof (cases "candidate s cpu irq \<and> irq_prio s cpu irq < p")
    case True
    obtain r where "best_pending s cpu (Suc irq) n (irq_prio s cpu irq) irq = Inr r"
      "best_from s cpu (Suc irq) (irq + Suc n) (irq_prio s cpu irq) irq r"
      using IH by blast
    moreover from this have "best_from s cpu irq (irq + Suc n) p b r"
      using True best_from_take by simp
    ultimately show ?thesis
      unfolding best_step [OF lt(1) Suc.prems(2)] if_P [OF True] by blast
  next
    case False
    obtain r where "best_pending s cpu (Suc irq) n p b = Inr r" "best_from s cpu (Suc irq) (irq + Suc n) p b r"
      using IH by blast
    moreover from this have "best_from s cpu irq (irq + Suc n) p b r"
      using False best_from_skip linorder_not_less by blast
    ultimately show ?thesis
      unfolding best_step [OF lt(1) Suc.prems(2)] if_not_P [OF False] by blast
  qed
qed

text \<open>The part of the state an update looks at, apart from the two arrays it writes.\<close>

definition same_inputs :: "GICState \<Rightarrow> GICState \<Rightarrow> bool" where
  "same_inputs s s' \<longleftrightarrow> (\<exists>c l. s' = s\<lparr> current_pending := c, parent_irq := l \<rparr>)"

lemma same_inputs_refl: "same_inputs s s"
  unfolding same_inputs_def by (rule exI [of _ "current_pending s"], rule exI [of _ "parent_irq s"]) simp

lemma same_inputsI: "same_inputs s (s\<lparr> current_pending := c, parent_irq := l \<rparr>)"
  unfolding same_inputs_def by (intro exI) (rule refl)

lemma same_inputs_trans:
  assumes "same_inputs s t" "same_inputs t u"
  shows "same_inputs s u"
proof -
  obtain c l where "u = s\<lparr> current_pending := c, parent_irq := l \<rparr>"
    using assms unfolding same_inputs_def by auto
  then show ?thesis by (simp only: same_inputsI)
qed

lemma same_inputsD:
  assumes "same_inputs s s'"
  shows "gic_enabled s' = gic_enabled s" "cpu_enabled s' = cpu_enabled s" "irq_state s' = irq_state s"
    "irq_target s' = irq_target s" "priority1 s' = priority1 s" "priority2 s' = priority2 s"
    "last_active s' = last_active s" "sgi_pending s' = sgi_pending s" "priority_mask s' = priority_mask s"
    "running_irq s' = running_irq s" "running_priority s' = running_priority s"
    "num_cpu s' = num_cpu s" "num_irq s' = num_irq s" "revision s' = revision s"
  using assms unfolding same_inputs_def by auto

lemma same_inputs_candidate:
  assumes "same_inputs s s'"
  shows "legacy s' = legacy s" "candidate s' = candidate s" "irq_prio s' = irq_prio s" "chosen s' = chosen s"
proof -
  note D = same_inputsD [OF assms]
  show L: "legacy s' = legacy s" by (simp add: legacy_def D)
  show C: "candidate s' = candidate s" by (intro ext) (simp add: candidate_def pending_on_def D L)
  show P: "irq_prio s' = irq_prio s" by (intro ext) (simp add: irq_prio_def D)
  show "chosen s' = chosen s" by (intro ext) (simp add: chosen_def first_best_def C P D)
qed

lemma update_cpu_spec:
  assumes cpu: "cpu < GIC_NCPU" and n: "num_irq s \<le> GIC_MAXIRQ" and cur: "current_pending s cpu = 1023"
    and run: "unat (running_priority s cpu) \<le> 0x100"
  shows "\<exists>s'. gic_update_cpu s cpu = Inr s' \<and> same_inputs s s' \<and>
      chosen s cpu (current_pending s' cpu) (parent_irq s' cpu) \<and>
      (\<forall>c. c \<noteq> cpu \<longrightarrow> current_pending s' c = current_pending s c \<and> parent_irq s' c = parent_irq s c)"
proof -
  obtain p b where B: "best_pending s cpu 0 (num_irq s) 0x100 1023 = Inr (p, b)"
    and F: "best_from s cpu 0 (num_irq s) 0x100 1023 (p, b)"
    using best_pending_spec [of 0 "num_irq s" cpu s "0x100" 1023] n cpu by auto
  let ?u = "\<lambda>c l. s\<lparr> current_pending := (current_pending s)(cpu := c), parent_irq := (parent_irq s)(cpu := l) \<rparr>"
  have U: "gic_update_cpu s cpu = Inr (if p < unat (priority_mask s cpu)
      then ?u (of_nat b) (p < unat (running_priority s cpu)) else ?u 1023 False)"
    using B cpu cur by (auto simp: gic_update_cpu_def at1_def fun_upd_idem)
  have K: "chosen s cpu (if p < unat (priority_mask s cpu) then of_nat b else 1023)
      (p < unat (priority_mask s cpu) \<and> p < unat (running_priority s cpu))"
  proof (cases "\<exists>i. first_best s cpu 0 (num_irq s) i \<and> (p, b) = (irq_prio s cpu i, i)")
    case True
    then obtain i where i: "first_best s cpu 0 (num_irq s) i" "p = irq_prio s cpu i" "b = i" by blast
    then show ?thesis unfolding chosen_def first_best_def by auto
  next
    case False
    then have e: "p = 0x100" "b = 1023" and "\<forall>j. 0 \<le> j \<and> j < num_irq s \<and> candidate s cpu j \<longrightarrow> 0x100 \<le> irq_prio s cpu j"
      using F unfolding best_from_def by auto
    then have "\<forall>j < num_irq s. \<not> candidate s cpu j"
      using irq_prio_less [of s cpu] by (meson le0 linorder_not_less)
    then show ?thesis using e run unfolding chosen_def by auto
  qed
  show ?thesis
  proof (cases "p < unat (priority_mask s cpu)")
    case True
    then show ?thesis
      using K U same_inputsI [of s "(parent_irq s)(cpu := p < unat (running_priority s cpu))" "(current_pending s)(cpu := of_nat b)"]
      by simp
  next
    case False
    then show ?thesis
      using K U same_inputsI [of s "(parent_irq s)(cpu := False)" "(current_pending s)(cpu := 1023)"] by simp
  qed
qed

text \<open>
  The loop over the CPUs.  A CPU interface is reached only when the distributor and every interface before it are
  enabled: the loop stops at the first one that is not.
\<close>

definition active_cpu :: "GICState \<Rightarrow> nat \<Rightarrow> bool" where
  "active_cpu s cpu \<longleftrightarrow> gic_enabled s \<and> cpu_enabled s cpu"

definition updated :: "GICState \<Rightarrow> nat \<Rightarrow> nat \<Rightarrow> GICState \<Rightarrow> nat \<Rightarrow> bool" where
  "updated s lo hi s' c \<longleftrightarrow>
     (if lo \<le> c \<and> c < hi \<and> (\<forall>d. lo \<le> d \<and> d < c \<longrightarrow> active_cpu s d)
      then if active_cpu s c then chosen s c (current_pending s' c) (parent_irq s' c)
           else current_pending s' c = 1023 \<and> \<not> parent_irq s' c
      else current_pending s' c = current_pending s c \<and> parent_irq s' c = parent_irq s c)"

lemma updated_stop:
  assumes "\<not> active_cpu s lo" "lo < hi"
    "\<forall>c. c \<noteq> lo \<longrightarrow> current_pending s' c = current_pending s c \<and> parent_irq s' c = parent_irq s c"
    "current_pending s' lo = 1023" "\<not> parent_irq s' lo"
  shows "updated s lo hi s' c"
proof (cases "c = lo")
  case True
  then show ?thesis using assms unfolding updated_def by auto
next
  case False
  then have "\<not> (lo \<le> c \<and> c < hi \<and> (\<forall>d. lo \<le> d \<and> d < c \<longrightarrow> active_cpu s d))"
    using assms(1) by (metis le_neq_implies_less order.refl)
  then show ?thesis using False assms(3) unfolding updated_def by (simp only: if_False) simp
qed

lemma updated_step:
  assumes a: "active_cpu s lo" and h: "lo < hi" and i: "same_inputs s t"
    and ch: "chosen s lo (current_pending t lo) (parent_irq t lo)"
    and k: "\<forall>c. c \<noteq> lo \<longrightarrow> current_pending t c = current_pending s c \<and> parent_irq t c = parent_irq s c"
    and u: "updated t (Suc lo) hi s' c"
  shows "updated s lo hi s' c"
proof -
  have A: "active_cpu t = active_cpu s"
    by (intro ext) (simp add: active_cpu_def same_inputsD [OF i])
  note C = same_inputs_candidate(4) [OF i]
  consider "c < lo" | "c = lo" | "Suc lo \<le> c" by linarith
  then show ?thesis
  proof cases
    case 1
    then show ?thesis using u k unfolding updated_def by simp
  next
    case 2
    then show ?thesis using u a h ch unfolding updated_def by auto
  next
    case 3
    then have "(\<forall>d. lo \<le> d \<and> d < c \<longrightarrow> active_cpu s d) \<longleftrightarrow> (\<forall>d. Suc lo \<le> d \<and> d < c \<longrightarrow> active_cpu s d)"
      using a by (metis Suc_leD Suc_leI le_neq_implies_less)
    then show ?thesis using 3 u k unfolding updated_def A C by simp
  qed
qed

lemma update_from_spec:
  assumes "cpu + n \<le> GIC_NCPU" "num_irq s \<le> GIC_MAXIRQ" "\<forall>c < GIC_NCPU. unat (running_priority s c) \<le> 0x100"
  shows "\<exists>s'. gic_update_from s cpu n = Inr s' \<and> same_inputs s s' \<and> (\<forall>c. updated s cpu (cpu + n) s' c)"
  using assms
proof (induction n arbitrary: s cpu)
  case 0
  then show ?case by (auto simp: same_inputs_refl updated_def)
next
  case (Suc n)
  define t where "t = s\<lparr> current_pending := (current_pending s)(cpu := 1023) \<rparr>"
  have lt: "cpu < GIC_NCPU" using Suc.prems by simp
  have st: "same_inputs s t"
    using same_inputsI [of s "parent_irq s" "(current_pending s)(cpu := 1023)"] by (simp add: t_def)
  note D = same_inputsD [OF st] and C = same_inputs_candidate [OF st]
  have U: "gic_update_from s cpu (Suc n) =
      (if \<not> active_cpu s cpu then Inr (t\<lparr> parent_irq := (parent_irq t)(cpu := False) \<rparr>)
       else sbind (gic_update_cpu t cpu) (\<lambda>s. gic_update_from s (Suc cpu) n))"
    using lt by (simp add: at1_def t_def [symmetric] active_cpu_def D)
  show ?case
  proof (cases "active_cpu s cpu")
    case False
    let ?r = "t\<lparr> parent_irq := (parent_irq t)(cpu := False) \<rparr>"
    have "same_inputs s ?r"
      using same_inputsI [of s "(parent_irq s)(cpu := False)" "(current_pending s)(cpu := 1023)"] by (simp add: t_def)
    moreover have "\<forall>c. updated s cpu (cpu + Suc n) ?r c"
      by (rule allI, rule updated_stop [OF False]) (auto simp: t_def)
    ultimately show ?thesis unfolding U if_P [OF False] by blast
  next
    case True
    obtain v where v: "gic_update_cpu t cpu = Inr v" "same_inputs t v" "chosen t cpu (current_pending v cpu) (parent_irq v cpu)"
      and k: "\<forall>c. c \<noteq> cpu \<longrightarrow> current_pending v c = current_pending t c \<and> parent_irq v c = parent_irq t c"
      using update_cpu_spec [of cpu t] lt Suc.prems by (auto simp: D t_def)
    have sv: "same_inputs s v" using same_inputs_trans [OF st v(2)] .
    obtain s' where s': "gic_update_from v (Suc cpu) n = Inr s'" "same_inputs v s'" "\<forall>c. updated v (Suc cpu) (Suc cpu + n) s' c"
      using Suc.IH [of "Suc cpu" v] Suc.prems by (auto simp: same_inputsD [OF sv])
    have "\<forall>c. updated s cpu (cpu + Suc n) s' c"
      by (rule allI, rule updated_step [OF True _ sv]) (use v(3) [unfolded C] k s'(3) in \<open>auto simp: t_def\<close>)
    moreover have "gic_update_from s cpu (Suc n) = Inr s'"
      unfolding U using True v(1) s'(1) by simp
    ultimately show ?thesis using same_inputs_trans [OF sv s'(2)] by blast
  qed
qed

lemma gic_update_spec:
  assumes "num_cpu s \<le> GIC_NCPU" "num_irq s \<le> GIC_MAXIRQ" "\<forall>c < GIC_NCPU. unat (running_priority s c) \<le> 0x100"
  shows "\<exists>s'. gic_update s = Inr s' \<and> same_inputs s s' \<and> (\<forall>c. updated s 0 (num_cpu s) s' c)"
  using update_from_spec [of 0 "num_cpu s" s] assms by (simp add: gic_update_def)

end
