(* ===== verification/Arm_Gic_Inv.thy ===== *)
theory Arm_Gic_Inv
  imports Arm_Gic_Update
begin

text \<open>
  The invariant of the interrupt controller: identifiers are in range and, for the revisions that record the sources of
  software generated interrupts, a pending one has a source.  Every access, interrupt line and reset is shown to return and to keep it,
  apart from the accesses named by \<open>gic_guard\<close> and \<open>ends_other\<close>; sequences of accesses follow by rule induction.
\<close>

section \<open>The invariant of the device\<close>

text \<open>
  Identifiers of interrupts are below \<open>num_irq\<close> or 1023.  In the later revisions a software generated interrupt
  that is pending on the only CPU has a source in \<open>sgi_pending\<close>.
\<close>

definition id_ok :: "GICState \<Rightarrow> u16 \<Rightarrow> bool" where
  "id_ok s x \<longleftrightarrow> x = 1023 \<or> unat x < num_irq s"

definition gic_shape :: "GICState \<Rightarrow> bool" where
  "gic_shape s \<longleftrightarrow> 0 < num_cpu s \<and> num_cpu s \<le> GIC_NCPU \<and> 32 \<le> num_irq s \<and> num_irq s \<le> GIC_MAXIRQ \<and> num_irq s mod 32 = 0"

definition gic_ids :: "GICState \<Rightarrow> bool" where
  "gic_ids s \<longleftrightarrow> (\<forall>c < GIC_NCPU. unat (running_priority s c) \<le> 0x100 \<and> id_ok s (running_irq s c) \<and>
     id_ok s (current_pending s c) \<and> (\<forall>i < GIC_MAXIRQ. id_ok s (last_active s i c)))"

definition sgi_sources :: "GICState \<Rightarrow> bool" where
  "sgi_sources s \<longleftrightarrow> legacy s \<or> num_cpu s = 1 \<and>
     (\<forall>i < GIC_NR_SGIS. st_edge_trigger (irq_state s i) \<and> (bit (st_pending (irq_state s i)) 0 \<longrightarrow> sgi_pending s i 0 \<noteq> 0))"

definition gic_wf :: "GICState \<Rightarrow> bool" where
  "gic_wf s \<longleftrightarrow> gic_shape s \<and> gic_ids s \<and> sgi_sources s"

definition sgi_current :: "GICState \<Rightarrow> bool" where
  "sgi_current s \<longleftrightarrow> legacy s \<or>
     (unat (current_pending s 0) < GIC_NR_SGIS \<longrightarrow> sgi_pending s (unat (current_pending s 0)) 0 \<noteq> 0)"

definition gic_inv :: "GICState \<Rightarrow> bool" where
  "gic_inv s \<longleftrightarrow> gic_wf s \<and> sgi_current s"

text \<open>Success with a property of the result, and its rules.\<close>

definition succeeds :: "('a \<Rightarrow> bool) \<Rightarrow> c_error + 'a \<Rightarrow> bool" where
  "succeeds P r \<longleftrightarrow> (\<exists>x. r = Inr x \<and> P x)"

lemma succeeds_Inr [simp]: "succeeds P (Inr x) = P x" "succeeds P (Inl e) = False"
  by (simp_all add: succeeds_def)

lemma succeeds_sbind: "succeeds P r \<Longrightarrow> (\<And>x. P x \<Longrightarrow> succeeds Q (f x)) \<Longrightarrow> succeeds Q (sbind r f)"
  by (auto simp: succeeds_def)

lemma succeeds_mono: "succeeds P r \<Longrightarrow> (\<And>x. P x \<Longrightarrow> Q x) \<Longrightarrow> succeeds Q r"
  by (auto simp: succeeds_def)

lemma succeeds_each:
  "P s \<Longrightarrow> (\<And>k t. i \<le> k \<Longrightarrow> k < i + n \<Longrightarrow> P t \<Longrightarrow> succeeds P (f k t)) \<Longrightarrow> succeeds P (each f i n s)"
proof (induction n arbitrary: i s)
  case (Suc n)
  show ?case
    by (simp, rule succeeds_sbind [of P], rule Suc.prems(2)) (use Suc in auto)
qed simp

lemma id_ok_1023 [simp]: "id_ok s 1023"
  by (simp add: id_ok_def)

lemma id_ok_of_nat: "i < num_irq s \<Longrightarrow> num_irq s \<le> GIC_MAXIRQ \<Longrightarrow> id_ok s (of_nat i)"
  by (simp add: id_ok_def GIC_MAXIRQ_def unat_of_nat)

lemma cpu0_mask: "x AND cpu_mask 0 \<noteq> 0 \<longleftrightarrow> bit x 0" for x :: u8
  using and_exp_eq_0_iff_not_bit [of x 0] by (simp add: cpu_mask_def)

lemma chosen_id:
  assumes "chosen s c cur l" "num_irq s \<le> GIC_MAXIRQ"
  shows "id_ok s cur" and "cur \<noteq> 1023 \<Longrightarrow> candidate s c (unat cur)"
proof -
  have u: "unat (of_nat i :: u16) = i" if "i < num_irq s" for i
    using that assms(2) by (simp add: GIC_MAXIRQ_def unat_of_nat)
  show "id_ok s cur" "cur \<noteq> 1023 \<Longrightarrow> candidate s c (unat cur)"
    using assms(1) by (auto simp: chosen_def first_best_def u id_ok_def)
qed

lemma update_inv:
  assumes wf: "gic_wf s"
  shows "succeeds (\<lambda>s'. gic_inv s' \<and> same_inputs s s' \<and> (\<forall>c. updated s 0 (num_cpu s) s' c)) (gic_update s)"
proof -
  have n: "num_irq s \<le> GIC_MAXIRQ" and c0: "0 < num_cpu s" "num_cpu s \<le> GIC_NCPU"
    using wf by (auto simp: gic_wf_def gic_shape_def)
  obtain s' where s': "gic_update s = Inr s'" "same_inputs s s'" "\<forall>c. updated s 0 (num_cpu s) s' c"
    using gic_update_spec [of s] wf by (auto simp: gic_wf_def gic_shape_def gic_ids_def)
  note D = same_inputsD [OF s'(2)] and C = same_inputs_candidate [OF s'(2)]
  have I: "id_ok s' = id_ok s" by (intro ext) (simp add: id_ok_def D)
  have cur: "id_ok s (current_pending s' c)" if "c < GIC_NCPU" for c
    using s'(3) [rule_format, of c] that wf chosen_id(1) [OF _ n]
    by (auto simp: updated_def gic_wf_def gic_ids_def split: if_splits)
  have wf': "gic_wf s'"
    using wf cur unfolding gic_wf_def gic_shape_def gic_ids_def sgi_sources_def D C I by blast
  have "sgi_current s'"
  proof (cases "legacy s \<or> current_pending s' 0 = 1023")
    case True
    then show ?thesis by (auto simp: sgi_current_def C GIC_NR_SGIS_def)
  next
    case False
    then have "chosen s 0 (current_pending s' 0) (parent_irq s' 0)"
      using s'(3) [rule_format, of 0] c0 by (auto simp: updated_def split: if_splits)
    then have cand: "candidate s 0 (unat (current_pending s' 0))"
      using chosen_id(2) [OF _ n] False by blast
    show ?thesis
      using cand wf False unfolding sgi_current_def gic_wf_def sgi_sources_def candidate_def pending_on_def cpu0_mask D C
      by blast
  qed
  then show ?thesis using wf' s' by (simp add: gic_inv_def)
qed

lemma inv_wf: "gic_inv s \<Longrightarrow> gic_wf s"
  by (simp add: gic_inv_def)

lemma update_keeps: "gic_wf s \<Longrightarrow> succeeds gic_inv (gic_update s)"
  by (rule succeeds_mono [OF update_inv]) auto

lemma on_irq_keeps:
  assumes wf: "gic_wf s" and irq: "irq < GIC_MAXIRQ"
    and edge: "irq < GIC_NR_SGIS \<Longrightarrow> \<not> legacy s \<Longrightarrow> st_edge_trigger (g (irq_state s irq))"
    and pend: "irq < GIC_NR_SGIS \<Longrightarrow> \<not> legacy s \<Longrightarrow> bit (st_pending (g (irq_state s irq))) 0 \<Longrightarrow> bit (st_pending (irq_state s irq)) 0"
  shows "succeeds gic_wf (on_irq g s irq)"
proof -
  let ?t = "s\<lparr> irq_state := (irq_state s)(irq := g (irq_state s irq)) \<rparr>"
  have L: "legacy ?t = legacy s" by (simp add: legacy_def)
  have I: "id_ok ?t = id_ok s" by (intro ext) (simp add: id_ok_def)
  have "sgi_sources ?t"
    using wf edge pend unfolding gic_wf_def sgi_sources_def L by auto
  moreover have "gic_shape ?t" "gic_ids ?t"
    using wf unfolding gic_wf_def gic_shape_def gic_ids_def I by auto
  ultimately show ?thesis
    using irq by (simp add: on_irq_def at1_def gic_wf_def)
qed

section \<open>The accesses keep the invariant\<close>

lemma wf_other_fields [simp]:
  "gic_wf (s\<lparr> gic_enabled := e \<rparr>) = gic_wf s" "gic_wf (s\<lparr> cpu_enabled := ce \<rparr>) = gic_wf s"
  "gic_wf (s\<lparr> irq_target := t \<rparr>) = gic_wf s" "gic_wf (s\<lparr> priority1 := p1 \<rparr>) = gic_wf s"
  "gic_wf (s\<lparr> priority2 := p2 \<rparr>) = gic_wf s" "gic_wf (s\<lparr> priority_mask := pm \<rparr>) = gic_wf s"
  "gic_wf (s\<lparr> bpr := b \<rparr>) = gic_wf s" "gic_wf (s\<lparr> abpr := ab \<rparr>) = gic_wf s"
  by (simp_all add: gic_wf_def gic_shape_def gic_ids_def id_ok_def sgi_sources_def legacy_def)

lemma wf_bounds:
  assumes "gic_wf s"
  shows "0 < num_cpu s" "num_cpu s \<le> GIC_NCPU" "num_irq s \<le> GIC_MAXIRQ" "num_irq s mod 32 = 0" "32 \<le> num_irq s"
  using assms by (auto simp: gic_wf_def gic_shape_def)

lemma current_cpu_less: "gic_wf s \<Longrightarrow> cpu < num_cpu s \<Longrightarrow> gic_get_current_cpu s cpu < num_cpu s"
  using wf_bounds [of s] by (simp add: gic_get_current_cpu_def)

lemma block_less:
  assumes "gic_wf s" "irq < num_irq s" "k dvd irq" "k dvd 32" "i < k"
  shows "irq + i < GIC_MAXIRQ"
proof -
  have "k dvd num_irq s"
    using wf_bounds(4) [OF assms(1)] assms(4) by (meson dvd_trans mod_0_imp_dvd)
  then obtain a b where "irq = k * a" "num_irq s = k * b" using assms(3) by (auto elim!: dvdE)
  moreover from this have "a < b" using assms(2) by simp
  then have "k * Suc a \<le> k * b" by (intro mult_le_mono2) simp
  ultimately show ?thesis using wf_bounds(3) [OF assms(1)] assms(5) by simp
qed

lemma set_pending_keeps:
  "gic_wf s \<Longrightarrow> irq < GIC_MAXIRQ \<Longrightarrow> legacy s \<or> GIC_NR_SGIS \<le> irq \<or> \<not> st_edge_trigger (irq_state s irq) \<Longrightarrow>
   succeeds gic_wf (GIC_SET_PENDING s irq cm)"
  unfolding GIC_SET_PENDING_def by (rule on_irq_keeps) (auto simp: gic_wf_def sgi_sources_def)

lemma clear_pending_keeps: "gic_wf s \<Longrightarrow> irq < GIC_MAXIRQ \<Longrightarrow> succeeds gic_wf (GIC_CLEAR_PENDING s irq cm)"
  unfolding GIC_CLEAR_PENDING_def by (rule on_irq_keeps) (auto simp: gic_wf_def sgi_sources_def bit_simps)

lemma set_enabled_keeps: "gic_wf s \<Longrightarrow> irq < GIC_MAXIRQ \<Longrightarrow> succeeds gic_wf (GIC_SET_ENABLED s irq cm)"
  unfolding GIC_SET_ENABLED_def by (rule on_irq_keeps) (auto simp: gic_wf_def sgi_sources_def)

lemma clear_enabled_keeps: "gic_wf s \<Longrightarrow> irq < GIC_MAXIRQ \<Longrightarrow> succeeds gic_wf (GIC_CLEAR_ENABLED s irq cm)"
  unfolding GIC_CLEAR_ENABLED_def by (rule on_irq_keeps) (auto simp: gic_wf_def sgi_sources_def)

lemma set_level_keeps: "gic_wf s \<Longrightarrow> irq < GIC_MAXIRQ \<Longrightarrow> succeeds gic_wf (GIC_SET_LEVEL s irq cm)"
  unfolding GIC_SET_LEVEL_def by (rule on_irq_keeps) (auto simp: gic_wf_def sgi_sources_def)

lemma clear_level_keeps: "gic_wf s \<Longrightarrow> irq < GIC_MAXIRQ \<Longrightarrow> succeeds gic_wf (GIC_CLEAR_LEVEL s irq cm)"
  unfolding GIC_CLEAR_LEVEL_def by (rule on_irq_keeps) (auto simp: gic_wf_def sgi_sources_def)

lemma put_model_keeps: "gic_wf s \<Longrightarrow> irq < GIC_MAXIRQ \<Longrightarrow> succeeds gic_wf (GIC_PUT_MODEL s irq b)"
  unfolding GIC_PUT_MODEL_def by (rule on_irq_keeps) (auto simp: gic_wf_def sgi_sources_def)

lemma put_edge_keeps:
  "gic_wf s \<Longrightarrow> irq < GIC_MAXIRQ \<Longrightarrow> (irq < GIC_NR_SGIS \<Longrightarrow> b) \<Longrightarrow> succeeds gic_wf (GIC_PUT_EDGE_TRIGGER s irq b)"
  unfolding GIC_PUT_EDGE_TRIGGER_def by (rule on_irq_keeps) (auto simp: gic_wf_def sgi_sources_def)

lemma each_set_keeps:
  "gic_wf s \<Longrightarrow> (\<And>i t. i < 8 \<Longrightarrow> bit value i \<Longrightarrow> gic_wf t \<Longrightarrow> succeeds gic_wf (f i t)) \<Longrightarrow> succeeds gic_wf (each_set value f s)"
  unfolding each_set_def by (rule succeeds_each) auto

definition opt_keeps :: "(c_error + GICState) option \<Rightarrow> bool" where
  "opt_keeps r \<longleftrightarrow> (case r of None \<Rightarrow> True | Some r \<Rightarrow> succeeds gic_wf r)"

lemma block8:
  assumes "gic_wf s" "irq = k * 8 + GIC_BASE_IRQ s" "irq < num_irq s" "i < 8"
  shows "irq + i < GIC_MAXIRQ"
  by (rule block_less [OF assms(1) assms(3), of 8]) (use assms in \<open>auto simp: GIC_BASE_IRQ_def\<close>)

lemma set_enable_step:
  assumes wf: "gic_wf t" and irq: "irq < GIC_MAXIRQ"
  shows "succeeds gic_wf (sbind (GIC_SET_ENABLED t irq cm) (\<lambda>s.
              sbind (GIC_TEST_LEVEL s irq m) (\<lambda>l.
              sbind (GIC_TEST_EDGE_TRIGGER s irq) (\<lambda>edge.
                if l \<and> \<not> edge then GIC_SET_PENDING s irq m else Inr s))))"
proof (rule succeeds_sbind [OF set_enabled_keeps [OF wf irq]])
  fix s assume "gic_wf s"
  then show "succeeds gic_wf (sbind (GIC_TEST_LEVEL s irq m) (\<lambda>l. sbind (GIC_TEST_EDGE_TRIGGER s irq) (\<lambda>edge.
                if l \<and> \<not> edge then GIC_SET_PENDING s irq m else Inr s)))"
    using irq set_pending_keeps [of s irq m] by (auto simp: GIC_TEST_LEVEL_def GIC_TEST_EDGE_TRIGGER_def at1_def)
qed

lemma write_set_enable_keeps:
  assumes "gic_wf s"
  shows "opt_keeps (write_set_enable s cpu offset value)"
proof -
  define irq where "irq = (offset - 0x100) * 8 + GIC_BASE_IRQ s"
  show ?thesis
  proof (cases "irq < num_irq s")
    case True
    have lt: "irq + i < GIC_MAXIRQ" if "i < 8" for i
      using block8 [OF assms irq_def True that] .
    show ?thesis
      unfolding write_set_enable_def irq_def [symmetric] Let_def opt_keeps_def
      using True assms lt by (auto intro!: each_set_keeps set_enable_step simp: GIC_TARGET_def at1_def)
  qed (simp add: write_set_enable_def irq_def opt_keeps_def Let_def)
qed

lemma write_clear_enable_keeps: "gic_wf s \<Longrightarrow> opt_keeps (write_clear_enable s cpu offset value)"
  using block8 [of s _ "offset - 0x180"]
  by (auto simp: write_clear_enable_def Let_def opt_keeps_def intro!: each_set_keeps clear_enabled_keeps)

lemma write_clear_pending_keeps: "gic_wf s \<Longrightarrow> opt_keeps (write_clear_pending s offset value)"
  using block8 [of s _ "offset - 0x280"]
  by (auto simp: write_clear_pending_def Let_def opt_keeps_def intro!: each_set_keeps clear_pending_keeps)

lemma write_set_pending_keeps:
  assumes "gic_wf s"
  shows "opt_keeps (write_set_pending s offset value)"
proof -
  define irq where "irq = (offset - 0x200) * 8 + GIC_BASE_IRQ s"
  have lt: "irq + i < GIC_MAXIRQ" if "irq < num_irq s" "i < 8" for i
    using block8 [OF assms irq_def that] .
  have "succeeds gic_wf (sbind (GIC_TARGET t (irq + i)) (\<lambda>target. GIC_SET_PENDING t (irq + i) target))"
    if "irq < num_irq s" "i < 8" "gic_wf t" "\<not> irq < GIC_NR_SGIS" for i t
    using lt [OF that(1,2)] that(3,4) set_pending_keeps [of t "irq + i"] by (auto simp: GIC_TARGET_def at1_def)
  then show ?thesis
    using assms unfolding write_set_pending_def irq_def [symmetric] Let_def opt_keeps_def
    by (auto intro!: each_set_keeps)
qed

lemma write_control_keeps: "gic_wf s \<Longrightarrow> opt_keeps (write_control s offset value)"
  by (simp add: write_control_def opt_keeps_def)

lemma write_priority_keeps: "gic_wf s \<Longrightarrow> cpu < num_cpu s \<Longrightarrow> opt_keeps (write_priority s cpu offset value)"
  using wf_bounds [of s] by (auto simp: write_priority_def Let_def opt_keeps_def gic_set_priority_def at1_def at2_def)

lemma write_target_keeps: "gic_wf s \<Longrightarrow> opt_keeps (write_target s offset value)"
  using wf_bounds [of s] by (auto simp: write_target_def Let_def opt_keeps_def at1_def)

lemma write_config_keeps:
  assumes wf: "gic_wf s"
  shows "opt_keeps (write_config s offset value)"
proof -
  define irq where "irq = (offset - 0xc00) * 4 + GIC_BASE_IRQ s"
  define v where "v = (if irq < GIC_INTERNAL then value OR 0xaa else value)"
  have lt: "irq + i < GIC_MAXIRQ" if "irq < num_irq s" "i < 4" for i
    by (rule block_less [OF wf that(1), of 4]) (use that in \<open>auto simp: irq_def GIC_BASE_IRQ_def\<close>)
  have edge: "bit v (i * 2 + 1)" if "irq + i < GIC_NR_SGIS" "i < 4" for i
  proof -
    have "i = 0 \<or> i = 1 \<or> i = 2 \<or> i = 3" using that(2) by linarith
    moreover have "bit (0xaa :: u32) 1" "bit (0xaa :: u32) 3" "bit (0xaa :: u32) 5" "bit (0xaa :: u32) 7"
      by simp_all
    ultimately show ?thesis using that(1) by (auto simp: v_def gic_constants bit_or_iff)
  qed
  have "succeeds gic_wf (sbind (GIC_PUT_MODEL t (irq + i) (bit v (i * 2))) (\<lambda>s.
      GIC_PUT_EDGE_TRIGGER s (irq + i) (bit v (i * 2 + 1))))"
    if "irq < num_irq s" "i < 4" "gic_wf t" for i t
    by (rule succeeds_sbind [OF put_model_keeps [OF that(3) lt [OF that(1,2)]]])
      (rule put_edge_keeps, assumption, rule lt [OF that(1,2)], rule edge, assumption, rule that(2))
  then show ?thesis
    using wf unfolding write_config_def irq_def [symmetric] Let_def v_def [symmetric] opt_keeps_def
    by (auto intro!: succeeds_each)
qed

lemma sgi_cases: "gic_wf s \<Longrightarrow> \<not> legacy s \<Longrightarrow> cpu < num_cpu s \<Longrightarrow> cpu = 0"
  by (auto simp: gic_wf_def sgi_sources_def)

lemma wf_sgi_pending:
  assumes "gic_wf s" "\<forall>i < GIC_NR_SGIS. \<not> legacy s \<longrightarrow> bit (st_pending (irq_state s i)) 0 \<longrightarrow> p i 0 \<noteq> 0"
  shows "gic_wf (s\<lparr> sgi_pending := p \<rparr>)"
  using assms by (auto simp: gic_wf_def gic_shape_def gic_ids_def id_ok_def sgi_sources_def legacy_def)

lemma wf_sgi_both:
  assumes "gic_wf s" "i < GIC_NR_SGIS" "st_edge_trigger t = st_edge_trigger (irq_state s i)"
    "\<not> legacy s \<longrightarrow> bit (st_pending t) 0 \<longrightarrow> p \<noteq> 0"
  shows "gic_wf (s\<lparr> sgi_pending := upd2 (sgi_pending s) i 0 p, irq_state := (irq_state s)(i := t) \<rparr>)"
    (is "gic_wf ?t")
proof -
  have L: "legacy ?t = legacy s" and I: "id_ok ?t = id_ok s" by (auto simp: legacy_def id_ok_def)
  have "sgi_sources ?t"
    using assms unfolding gic_wf_def sgi_sources_def L by (auto simp: upd2_def)
  moreover have "gic_shape ?t" "gic_ids ?t"
    using assms(1) unfolding gic_wf_def gic_shape_def gic_ids_def I by auto
  ultimately show ?thesis by (simp add: gic_wf_def)
qed

lemma sgi_irq_commute:
  "s\<lparr> irq_state := a, sgi_pending := b \<rparr> = s\<lparr> sgi_pending := b, irq_state := a \<rparr>" for s :: GICState
  by (cases s) simp

lemma write_sgi_clear_keeps:
  assumes wf: "gic_wf s" and cpu: "cpu < num_cpu s" and o: "0xf10 \<le> offset" "offset < 0xf20"
  shows "opt_keeps (write_sgi_clear s cpu offset value)"
proof (cases "legacy s")
  case False
  define irq where "irq = offset - 0xf10"
  define p where "p = sgi_pending s irq 0 AND NOT (ucast value)"
  define t where "t = (irq_state s irq)\<lparr> st_pending := st_pending (irq_state s irq) AND NOT (cpu_mask 0) \<rparr>"
  have i: "irq < GIC_NR_SGIS" "irq < GIC_MAXIRQ" using o by (auto simp: irq_def gic_constants)
  have c: "cpu = 0" using sgi_cases [OF wf False cpu] .
  have nb: "\<not> bit (st_pending t) 0" by (simp add: t_def cpu_mask_def bit_simps)
  have zero: "gic_wf (s\<lparr> sgi_pending := upd2 (sgi_pending s) irq 0 p, irq_state := (irq_state s)(irq := t) \<rparr>)"
    by (rule wf_sgi_both [OF wf i(1)]) (simp add: t_def, simp add: nb)
  have nz: "gic_wf (s\<lparr> sgi_pending := upd2 (sgi_pending s) irq 0 p \<rparr>)" if "p \<noteq> 0"
    using wf_sgi_both [OF wf i(1), of "irq_state s irq" p] that by simp
  show ?thesis
    unfolding write_sgi_clear_def irq_def [symmetric] opt_keeps_def Let_def c p_def [symmetric]
    using False i zero nz
    by (auto simp: at2_def GIC_NCPU_def upd2_def GIC_CLEAR_PENDING_def on_irq_def at1_def t_def)
qed (simp add: write_sgi_clear_def opt_keeps_def)

lemma write_sgi_set_keeps:
  assumes wf: "gic_wf s" and cpu: "cpu < num_cpu s" and o: "0xf20 \<le> offset" "offset < 0xf30"
    and v: "legacy s \<or> (ucast value :: u8) \<noteq> 0"
  shows "opt_keeps (write_sgi_set s cpu offset value)"
proof (cases "legacy s")
  case False
  define irq where "irq = offset - 0xf20"
  define p where "p = sgi_pending s irq 0 OR ucast value"
  define t where "t = (irq_state s irq)\<lparr> st_pending := st_pending (irq_state s irq) OR cpu_mask 0 \<rparr>"
  have i: "irq < GIC_NR_SGIS" "irq < GIC_MAXIRQ" using o by (auto simp: irq_def gic_constants)
  have c: "cpu = 0" using sgi_cases [OF wf False cpu] .
  have "p \<noteq> 0"
    using v False by (auto simp: p_def word_eq_bits bit_or_iff)
  then have "gic_wf (s\<lparr> sgi_pending := upd2 (sgi_pending s) irq 0 p, irq_state := (irq_state s)(irq := t) \<rparr>)"
    by (intro wf_sgi_both [OF wf i(1)]) (simp_all add: t_def)
  then have "gic_wf (s\<lparr> irq_state := (irq_state s)(irq := t), sgi_pending := upd2 (sgi_pending s) irq 0 p \<rparr>)"
    by (simp only: sgi_irq_commute)
  then show ?thesis
    unfolding write_sgi_set_def irq_def [symmetric] opt_keeps_def Let_def c
    using False i by (simp add: at2_def GIC_NCPU_def GIC_SET_PENDING_def on_irq_def at1_def t_def p_def)
qed (simp add: write_sgi_set_def opt_keeps_def)

lemma dist_write_keeps:
  assumes "gic_wf s" "cpu < num_cpu s"
    and "legacy s \<or> \<not> (0xf20 \<le> offset \<and> offset < 0xf30) \<or> (ucast value :: u8) \<noteq> 0"
  shows "opt_keeps (dist_write s cpu offset value)"
proof -
  have N: "opt_keeps None" by (simp add: opt_keeps_def)
  note K = write_control_keeps write_set_enable_keeps write_clear_enable_keeps write_set_pending_keeps
    write_clear_pending_keeps write_target_keeps write_config_keeps
  note K2 = write_priority_keeps write_sgi_clear_keeps
  show ?thesis
    using write_sgi_set_keeps [OF assms(1,2), of offset "value"] assms(3)
    by (auto simp: dist_write_def N K [OF assms(1)] K2 [OF assms(1,2)])
qed

text \<open>A byte is safe to write unless it clears nothing and yet makes a software generated interrupt pending.\<close>

definition byte_ok :: "GICState \<Rightarrow> nat \<Rightarrow> u32 \<Rightarrow> bool" where
  "byte_ok s offset value \<longleftrightarrow> legacy s \<or> \<not> (0xf20 \<le> offset \<and> offset < 0xf30) \<or> (ucast value :: u8) \<noteq> 0"

text \<open>What no access changes.\<close>

definition same_config :: "GICState \<Rightarrow> GICState \<Rightarrow> bool" where
  "same_config s t \<longleftrightarrow> num_cpu t = num_cpu s \<and> num_irq t = num_irq s \<and> revision t = revision s"

definition fixes_config :: "GICState \<Rightarrow> c_error + GICState \<Rightarrow> bool" where
  "fixes_config s r \<longleftrightarrow> (\<forall>t. r = Inr t \<longrightarrow> same_config s t)"

lemma fixes_simps [simp]: "fixes_config s (Inr t) = same_config s t" "fixes_config s (Inl e)"
  by (simp_all add: fixes_config_def)

lemma fixes_sbind: "fixes_config s r \<Longrightarrow> (\<And>t. same_config s t \<Longrightarrow> fixes_config s (f t)) \<Longrightarrow> fixes_config s (sbind r f)"
  by (auto simp: fixes_config_def sbind_eq_Inr_iff)

lemma fixes_sbind_any: "(\<And>x. fixes_config s (f x)) \<Longrightarrow> fixes_config s (sbind r f)"
  by (auto simp: fixes_config_def sbind_eq_Inr_iff)

lemma fixes_at: "same_config s t \<Longrightarrow> fixes_config s (at1 n i t)" "same_config s t \<Longrightarrow> fixes_config s (at2 n i m j t)"
  by (simp_all add: at1_def at2_def)

lemma fixes_on_irq: "same_config s t \<Longrightarrow> fixes_config s (on_irq g t irq)"
  by (simp add: on_irq_def at1_def same_config_def)

lemma fixes_macros:
  assumes "same_config s t"
  shows "fixes_config s (GIC_SET_ENABLED t irq cm)" "fixes_config s (GIC_CLEAR_ENABLED t irq cm)"
    "fixes_config s (GIC_SET_PENDING t irq cm)" "fixes_config s (GIC_CLEAR_PENDING t irq cm)"
    "fixes_config s (GIC_SET_LEVEL t irq cm)" "fixes_config s (GIC_CLEAR_LEVEL t irq cm)"
    "fixes_config s (GIC_PUT_MODEL t irq b)" "fixes_config s (GIC_PUT_EDGE_TRIGGER t irq b)"
  using fixes_on_irq [OF assms]
  by (simp_all add: GIC_SET_ENABLED_def GIC_CLEAR_ENABLED_def GIC_SET_PENDING_def GIC_CLEAR_PENDING_def
      GIC_SET_LEVEL_def GIC_CLEAR_LEVEL_def GIC_PUT_MODEL_def GIC_PUT_EDGE_TRIGGER_def)

lemma fixes_each:
  "same_config s t \<Longrightarrow> (\<And>k u. same_config s u \<Longrightarrow> fixes_config s (f k u)) \<Longrightarrow> fixes_config s (each f i n t)"
  by (induction n arbitrary: i t) (auto intro: fixes_sbind)

lemma fixes_update_from: "same_config s t \<Longrightarrow> fixes_config s (gic_update_from t cpu n)"
proof (induction n arbitrary: t cpu)
  case (Suc n)
  have "fixes_config s (gic_update_cpu u c)" if "same_config s u" for u c
    using that unfolding gic_update_cpu_def
    by (auto intro!: fixes_sbind_any simp: same_config_def split: prod.splits)
  with Suc show ?case
    by (auto intro!: fixes_sbind simp: at1_def same_config_def)
qed simp

lemma fixes_update: "same_config s t \<Longrightarrow> fixes_config s (gic_update t)"
  by (simp add: gic_update_def fixes_update_from)

lemma same_config_refl [simp]: "same_config s s"
  by (simp add: same_config_def)

lemma same_config_trans: "same_config s t \<Longrightarrow> same_config t u \<Longrightarrow> same_config s u"
  by (simp add: same_config_def)

lemma same_configD:
  assumes "same_config s t"
  shows "num_cpu t = num_cpu s" "num_irq t = num_irq s" "revision t = revision s" "legacy t = legacy s"
    "byte_ok t = byte_ok s" "GIC_BASE_IRQ t = GIC_BASE_IRQ s"
  using assms by (auto simp: same_config_def legacy_def byte_ok_def fun_eq_iff GIC_BASE_IRQ_def)

definition opt_fixes :: "GICState \<Rightarrow> (c_error + GICState) option \<Rightarrow> bool" where
  "opt_fixes s r \<longleftrightarrow> (case r of None \<Rightarrow> True | Some r \<Rightarrow> fixes_config s r)"

lemma opt_fixes_simps [simp]: "opt_fixes s None" "opt_fixes s (Some r) = fixes_config s r"
  by (simp_all add: opt_fixes_def)

lemma opt_fixes_if: "fixes_config s r \<Longrightarrow> opt_fixes s (if b then None else Some r)"
  by simp

lemma fixes_each_set:
  assumes "\<And>k u. same_config s u \<Longrightarrow> fixes_config s (f k u)"
  shows "fixes_config s (each_set value f s)"
  unfolding each_set_def by (rule fixes_each) (use assms in auto)

lemma fixes_set_enable: "opt_fixes s (write_set_enable s cpu offset value)"
  unfolding write_set_enable_def Let_def
  by (intro opt_fixes_if fixes_each_set, rule fixes_sbind_any)
    (rule fixes_sbind [OF fixes_macros(1)], assumption, intro fixes_sbind_any, simp add: fixes_macros)

lemma fixes_clear_enable: "opt_fixes s (write_clear_enable s cpu offset value)"
  unfolding write_clear_enable_def Let_def by (intro opt_fixes_if fixes_each_set fixes_macros)

lemma fixes_set_pending: "opt_fixes s (write_set_pending s offset value)"
  unfolding write_set_pending_def Let_def by (intro opt_fixes_if fixes_each_set fixes_sbind_any fixes_macros)

lemma fixes_clear_pending: "opt_fixes s (write_clear_pending s offset value)"
  unfolding write_clear_pending_def Let_def by (intro opt_fixes_if fixes_each_set fixes_macros)

lemma fixes_control: "opt_fixes s (write_control s offset value)"
  by (simp add: write_control_def same_config_def)

lemma fixes_priority: "opt_fixes s (write_priority s cpu offset value)"
  by (simp add: write_priority_def gic_set_priority_def at1_def at2_def same_config_def Let_def)

lemma fixes_target: "opt_fixes s (write_target s offset value)"
  by (simp add: write_target_def at1_def same_config_def Let_def)

lemma fixes_config_write: "opt_fixes s (write_config s offset value)"
  unfolding write_config_def Let_def
  by (intro opt_fixes_if fixes_each fixes_sbind) (simp_all add: fixes_macros)

lemma fixes_sgi: "opt_fixes s (write_sgi_clear s cpu offset value)" "opt_fixes s (write_sgi_set s cpu offset value)"
  by (simp_all add: write_sgi_clear_def write_sgi_set_def gic_accesses same_config_def Let_def)

lemma fixes_dist_write: "dist_write s cpu offset value = Some r \<Longrightarrow> fixes_config s r"
proof -
  have "opt_fixes s (dist_write s cpu offset value)"
    by (simp add: dist_write_def fixes_control fixes_set_enable fixes_clear_enable fixes_set_pending
        fixes_clear_pending fixes_priority fixes_target fixes_config_write fixes_sgi)
  then show "dist_write s cpu offset value = Some r \<Longrightarrow> fixes_config s r" by simp
qed

definition held :: "GICState \<Rightarrow> GICState \<Rightarrow> bool" where
  "held s t \<longleftrightarrow> gic_inv t \<and> same_config s t"

lemma held_trans: "same_config s t \<Longrightarrow> held t u \<Longrightarrow> held s u"
  by (auto simp: held_def intro: same_config_trans)

lemma succeeds_held: "succeeds gic_inv r \<Longrightarrow> fixes_config s r \<Longrightarrow> succeeds (held s) r"
  by (auto simp: succeeds_def fixes_config_def held_def)

lemma update_held: "gic_wf t \<Longrightarrow> same_config s t \<Longrightarrow> succeeds (held s) (gic_update t)"
  by (intro succeeds_held update_keeps fixes_update)

lemma update_after:
  assumes "succeeds gic_wf r" "fixes_config s r"
  shows "succeeds (held s) (sbind r gic_update)"
  using assms update_held by (auto simp: succeeds_def fixes_config_def)

lemma writeb_held:
  assumes inv: "gic_inv s" and cpu: "cpu < num_cpu s" and b: "byte_ok s offset value"
  shows "succeeds (held s) (gic_dist_writeb s cpu offset value)"
proof (cases "dist_write s (gic_get_current_cpu s cpu) offset value")
  case None
  then show ?thesis using inv by (simp add: gic_dist_writeb_def held_def)
next
  case (Some r)
  have "opt_keeps (Some r)"
    using dist_write_keeps [OF inv_wf [OF inv] current_cpu_less [OF inv_wf [OF inv] cpu]] b Some
    by (metis byte_ok_def)
  then show ?thesis
    using Some update_after [OF _ fixes_dist_write [OF Some]] by (simp add: gic_dist_writeb_def opt_keeps_def)
qed

lemma held_then:
  assumes "succeeds (held s) r" "\<And>t. gic_inv t \<Longrightarrow> same_config s t \<Longrightarrow> succeeds (held t) (f t)"
  shows "succeeds (held s) (sbind r f)"
proof (rule succeeds_sbind [OF assms(1)])
  fix t assume "held s t"
  then have t: "gic_inv t" "same_config s t" by (simp_all add: held_def)
  show "succeeds (held s) (f t)"
    by (rule succeeds_mono [OF assms(2) [OF t]]) (rule held_trans [OF t(2)])
qed

lemma writew_held:
  assumes "gic_inv s" "cpu < num_cpu s" "byte_ok s offset (value AND 0xff)" "byte_ok s (offset + 1) (drop_bit 8 value)"
  shows "succeeds (held s) (gic_dist_writew s cpu offset value)"
  unfolding gic_dist_writew_def
  by (rule held_then [OF writeb_held [OF assms(1-3)]], rule writeb_held) (use assms in \<open>auto simp: same_configD\<close>)

lemma sgi_targets_closed:
  "irq < GIC_NR_SGIS \<Longrightarrow> sgi_targets s cpu irq m =
    Inr (s\<lparr> sgi_pending := (\<lambda>i c. if i = irq \<and> bit m c then sgi_pending s i c OR cpu_mask cpu else sgi_pending s i c) \<rparr>)"
proof (induction "unat m" arbitrary: s m rule: less_induct)
  case less
  show ?case
  proof (cases "ctz32 (ucast m) < GIC_NCPU")
    case True
    let ?t = "ctz32 (ucast m)"
    let ?s = "s\<lparr> sgi_pending := upd2 (sgi_pending s) irq ?t (sgi_pending s irq ?t OR cpu_mask cpu) \<rparr>"
    let ?m = "m AND NOT (push_bit ?t 1)"
    have b: "bit m ?t" and l: "?t < 8" using ctz_byte_bit [OF True] True by (simp_all add: GIC_NCPU_def)
    have bm: "bit ?m c \<longleftrightarrow> bit m c \<and> c \<noteq> ?t" for c
      using bit_imp_le_length [of m c] by (auto simp: bit_simps)
    have "sgi_targets s cpu irq m = sgi_targets ?s cpu irq ?m"
      using True less.prems by (subst sgi_targets.simps) (simp add: Let_def at2_def)
    also have "\<dots> = Inr (?s\<lparr> sgi_pending := (\<lambda>i c. if i = irq \<and> bit ?m c then sgi_pending ?s i c OR cpu_mask cpu else sgi_pending ?s i c) \<rparr>)"
      by (rule less.hyps [OF clear_ctz_less [OF True] less.prems])
    also have "\<dots> = Inr (s\<lparr> sgi_pending := (\<lambda>i c. if i = irq \<and> bit m c then sgi_pending s i c OR cpu_mask cpu else sgi_pending s i c) \<rparr>)"
      unfolding bm using b by (auto simp: upd2_def fun_eq_iff)
    finally show ?thesis .
  next
    case False
    then have "m = 0" using ctz_byte_less by blast
    then show ?thesis using False by (subst sgi_targets.simps) (simp add: Let_def)
  qed
qed

lemma cpu_mask_nonzero: "c < GIC_NCPU \<Longrightarrow> x OR cpu_mask c \<noteq> 0"
  by (auto simp: word_eq_bits bit_simps cpu_mask_def GIC_NCPU_def intro!: exI [of _ c])

lemma sgir_held:
  assumes inv: "gic_inv s" and cpu: "cpu < num_cpu s" and irq: "unat (value AND 0x3ff) < GIC_NR_SGIS"
  shows "succeeds (held s) (gic_dist_sgir s cpu value)"
proof -
  define i where "i = unat (value AND 0x3ff)"
  have lt: "i < GIC_NR_SGIS" "i < GIC_MAXIRQ" using irq by (auto simp: i_def gic_constants)
  have c: "cpu < GIC_NCPU" using cpu wf_bounds(2) [OF inv_wf [OF inv]] by simp
  have wf: "gic_wf s" using inv_wf [OF inv] .
  define u where "u m = s\<lparr> irq_state := (irq_state s)(i := (irq_state s i)\<lparr> st_pending := st_pending (irq_state s i) OR m \<rparr>),
      sgi_pending := (\<lambda>j c. if j = i \<and> bit m c then sgi_pending s j c OR cpu_mask cpu else sgi_pending s j c) \<rparr>" for m :: u8
  have "succeeds (held s) (sbind (GIC_SET_PENDING s i m) (\<lambda>s. sbind (sgi_targets s cpu i m) gic_update))" for m
  proof -
    have eq: "sbind (GIC_SET_PENDING s i m) (\<lambda>s. sbind (sgi_targets s cpu i m) gic_update) = gic_update (u m)"
      using lt by (simp add: GIC_SET_PENDING_def on_irq_def at1_def sgi_targets_closed u_def cong: if_cong)
    have L: "legacy (u m) = legacy s" and I: "id_ok (u m) = id_ok s" by (auto simp: u_def legacy_def id_ok_def)
    have "sgi_sources (u m)"
      using wf cpu_mask_nonzero [OF c] unfolding gic_wf_def sgi_sources_def L by (auto simp: u_def bit_or_iff)
    moreover have "gic_shape (u m)" "gic_ids (u m)"
      using wf unfolding gic_wf_def gic_shape_def gic_ids_def I by (auto simp: u_def)
    ultimately show ?thesis
      unfolding eq by (intro update_held) (auto simp: gic_wf_def same_config_def u_def)
  qed
  then show ?thesis unfolding gic_dist_sgir_def i_def [symmetric] Let_def .
qed

lemma wf_last_active:
  assumes "gic_wf s" "id_ok s x"
  shows "gic_wf (s\<lparr> last_active := upd2 (last_active s) i c x \<rparr>)"
  using assms by (auto simp: gic_wf_def gic_shape_def gic_ids_def id_ok_def sgi_sources_def legacy_def upd2_def)

lemma wf_running:
  assumes "gic_wf s" "id_ok s x" "unat p \<le> 0x100"
  shows "gic_wf (s\<lparr> running_irq := (running_irq s)(c := x), running_priority := (running_priority s)(c := p) \<rparr>)"
  using assms by (auto simp: gic_wf_def gic_shape_def gic_ids_def id_ok_def sgi_sources_def legacy_def)

definition prio_of :: "GICState \<Rightarrow> nat \<Rightarrow> nat \<Rightarrow> u16" where
  "prio_of s cpu irq = (if irq = 1023 then 0x100 else of_nat (irq_prio s cpu irq))"

lemma prio_of_le: "unat (prio_of s cpu irq) \<le> 0x100"
  using irq_prio_less [of s cpu irq] by (simp add: prio_of_def unat_of_nat)

lemma set_running_eq:
  assumes "gic_wf s" "cpu < GIC_NCPU" "irq = 1023 \<or> irq < num_irq s"
  shows "gic_set_running_irq s cpu irq =
    gic_update (s\<lparr> running_irq := (running_irq s)(cpu := of_nat irq),
                   running_priority := (running_priority s)(cpu := prio_of s cpu irq) \<rparr>)"
  using assms wf_bounds(3) [OF assms(1)]
  by (auto simp: gic_set_running_irq_def at1_def prio_of_def irq_prio_def)

lemma set_running_held:
  assumes "gic_wf s" "cpu < GIC_NCPU" "irq = 1023 \<or> irq < num_irq s"
  shows "succeeds (held s) (gic_set_running_irq s cpu irq)"
proof -
  have "id_ok s (of_nat irq)"
    using assms(3) id_ok_of_nat [of irq s] wf_bounds(3) [OF assms(1)] by auto
  then show ?thesis
    unfolding set_running_eq [OF assms]
    by (intro update_held wf_running [OF assms(1)]) (simp_all add: prio_of_le same_config_def)
qed

lemma clear_acknowledged_eq:
  assumes "irq < GIC_MAXIRQ"
  shows "clear_acknowledged s irq cpu = GIC_CLEAR_PENDING s irq (if st_model (irq_state s irq) then ALL_CPU_MASK else cpu_mask cpu)"
  using assms by (simp add: clear_acknowledged_def GIC_TEST_MODEL_def at1_def)

lemma take_pending_keeps:
  assumes wf: "gic_wf t" and lt: "irq < GIC_MAXIRQ" "cpu < num_cpu t"
    and sgi: "\<not> legacy t \<Longrightarrow> irq < GIC_NR_SGIS \<Longrightarrow> sgi_pending t irq 0 \<noteq> 0"
  shows "succeeds (\<lambda>(r, u). gic_wf u \<and> same_config t u) (take_pending t irq cpu)"
proof (cases "legacy t \<or> irq \<ge> GIC_NR_SGIS")
  case True
  obtain u where "clear_acknowledged t irq cpu = Inr u" "gic_wf u" "same_config t u"
    using clear_pending_keeps [OF wf lt(1)] fixes_macros(4) [of t t irq]
    unfolding clear_acknowledged_eq [OF lt(1)] succeeds_def fixes_config_def by (metis same_config_refl)
  then show ?thesis using True by (simp add: take_pending_def)
next
  case False
  then have i: "irq < GIC_NR_SGIS" and cpu: "cpu = 0" using sgi_cases [OF wf _ lt(2)] by auto
  define p where "p = sgi_pending t irq 0 AND NOT (push_bit (ctz32 (ucast (sgi_pending t irq 0))) 1)"
  have p2: "sgi_pending t irq 0 AND NOT (2 ^ ctz32 (ucast (sgi_pending t irq 0))) = p" by (simp add: p_def)
  define cm where "cm = (if st_model (irq_state t irq) then ALL_CPU_MASK else cpu_mask 0)"
  define q where "q = (irq_state t irq)\<lparr> st_pending := st_pending (irq_state t irq) AND NOT cm \<rparr>"
  have "bit cm 0" by (simp add: cm_def ALL_CPU_MASK_def cpu_mask_def)
  then have nb: "\<not> bit (st_pending q) 0" by (simp add: q_def bit_simps)
  have "gic_wf (t\<lparr> sgi_pending := upd2 (sgi_pending t) irq 0 0, irq_state := (irq_state t)(irq := q) \<rparr>)"
    by (rule wf_sgi_both [OF wf i]) (simp add: q_def, simp add: nb)
  moreover have "gic_wf (t\<lparr> sgi_pending := upd2 (sgi_pending t) irq 0 p \<rparr>)" if "p \<noteq> 0"
    using wf_sgi_both [OF wf i, of "irq_state t irq" p] that by simp
  ultimately show ?thesis
    using False i lt sgi unfolding take_pending_def cpu clear_acknowledged_eq [OF lt(1)] Let_def
    by (simp add: p2 at2_def GIC_NCPU_def c_assert_def GIC_CLEAR_PENDING_def on_irq_def at1_def q_def cm_def same_config_def)
qed

lemma acknowledge_eq:
  assumes wf: "gic_wf s" and cpu: "cpu < num_cpu s"
  defines "irq \<equiv> unat (current_pending s cpu)"
  shows "gic_acknowledge_irq s cpu =
    (if irq = 1023 \<or> unat (running_priority s cpu) \<le> irq_prio s cpu irq then Inr (1023, s)
     else sbind (take_pending (s\<lparr> last_active := upd2 (last_active s) irq cpu (running_irq s cpu) \<rparr>) irq cpu)
            (\<lambda>(ret, s). sbind (gic_set_running_irq s cpu irq) (\<lambda>s. Inr (ret, s))))"
proof -
  have c: "cpu < GIC_NCPU" using cpu wf_bounds(2) [OF wf] by simp
  have ids: "irq = 1023 \<or> irq < GIC_MAXIRQ"
    using wf c wf_bounds(3) [OF wf] by (auto simp: gic_wf_def gic_ids_def id_ok_def irq_def)
  show ?thesis
  proof (cases "irq = 1023")
    case True
    then show ?thesis using c by (simp add: gic_acknowledge_irq_def at1_def irq_def [symmetric])
  next
    case False
    then have "irq < GIC_MAXIRQ" using ids by simp
    then show ?thesis
      using False c by (simp add: gic_acknowledge_irq_def at1_def at2_def irq_def [symmetric] irq_prio_def cong: if_cong)
  qed
qed

lemma acknowledge_held:
  assumes inv: "gic_inv s" and cpu: "cpu < num_cpu s"
  shows "succeeds (\<lambda>(r, s'). held s s') (gic_acknowledge_irq s cpu)"
proof -
  have wf: "gic_wf s" using inv_wf [OF inv] .
  define irq where "irq = unat (current_pending s cpu)"
  define t where "t = s\<lparr> last_active := upd2 (last_active s) irq cpu (running_irq s cpu) \<rparr>"
  have c: "cpu < GIC_NCPU" using cpu wf_bounds(2) [OF wf] by simp
  have ids: "irq = 1023 \<or> irq < num_irq s" and run: "id_ok s (running_irq s cpu)"
    using wf c by (auto simp: gic_wf_def gic_ids_def id_ok_def irq_def)
  have wt: "gic_wf t" unfolding t_def by (rule wf_last_active [OF wf run])
  have ct: "same_config s t" by (simp add: t_def same_config_def)
  show ?thesis
  proof (cases "irq = 1023 \<or> unat (running_priority s cpu) \<le> irq_prio s cpu irq")
    case True
    then show ?thesis
      unfolding acknowledge_eq [OF wf cpu] irq_def [symmetric] using inv by (simp add: held_def)
  next
    case False
    then have lt: "irq < num_irq s" "irq < GIC_MAXIRQ" using ids wf_bounds(3) [OF wf] by auto
    have "sgi_pending t irq 0 \<noteq> 0" if "\<not> legacy t" "irq < GIC_NR_SGIS"
      using inv that sgi_cases [OF wf _ cpu] same_configD [OF ct]
      by (auto simp: gic_inv_def sgi_current_def irq_def t_def)
    then have T: "succeeds (\<lambda>(r, u). gic_wf u \<and> same_config t u) (take_pending t irq cpu)"
      using take_pending_keeps [OF wt lt(2)] cpu same_configD [OF ct] by simp
    have S: "succeeds (\<lambda>(r, s'). held s s') (sbind (gic_set_running_irq u cpu irq) (\<lambda>s. Inr (ret, s)))"
      if "gic_wf u" "same_config t u" for u and ret :: u32
    proof (rule succeeds_sbind [OF set_running_held [OF that(1) c]])
      show "irq = 1023 \<or> irq < num_irq u" using ids same_configD [OF ct] same_configD [OF that(2)] by simp
      show "succeeds (\<lambda>(r, s'). held s s') (Inr (ret, v))" if "held u v" for v
        using held_trans [OF same_config_trans [OF ct \<open>same_config t u\<close>] that] by simp
    qed
    have "succeeds (\<lambda>(r, s'). held s s') (sbind (take_pending t irq cpu) (\<lambda>(ret, s). sbind (gic_set_running_irq s cpu irq) (\<lambda>s. Inr (ret, s))))"
      by (rule succeeds_sbind [OF T]) (use S in auto)
    then show ?thesis
      unfolding acknowledge_eq [OF wf cpu] irq_def [symmetric] t_def [symmetric] using False by simp
  qed
qed

lemma set_irq_held:
  assumes inv: "gic_inv s"
    and line: "line < num_irq s - GIC_INTERNAL \<or> GIC_NR_SGIS \<le> (line - (num_irq s - GIC_INTERNAL)) mod GIC_INTERNAL"
  shows "succeeds (held s) (gic_set_irq s line level)"
proof -
  have wf: "gic_wf s" using inv_wf [OF inv] .
  have body: "succeeds (held s) (sbind (c_assert (irq \<ge> GIC_NR_SGIS)) (\<lambda>_.
      sbind (GIC_TEST_LEVEL s irq cm) (\<lambda>old.
       if level = (if old then 1 else 0) then Inr s
       else sbind (if legacy s then gic_set_irq_11mpcore s irq level cm target
                   else gic_set_irq_generic s irq level cm target) gic_update)))"
    if i: "GIC_NR_SGIS \<le> irq" "irq < GIC_MAXIRQ" for irq cm target
  proof -
    have P: "succeeds gic_wf (GIC_SET_PENDING t irq target)" if "gic_wf t" for t
      using set_pending_keeps [OF that i(2)] i(1) by blast
    have "succeeds gic_wf (gic_set_irq_11mpcore s irq level cm target)"
      unfolding gic_set_irq_11mpcore_def
      by (cases "level = 0", simp add: clear_level_keeps [OF wf i(2)], simp, rule succeeds_sbind [OF set_level_keeps [OF wf i(2)]])
        (use P i(2) in \<open>simp add: GIC_TEST_EDGE_TRIGGER_def GIC_TEST_ENABLED_def at1_def\<close>)
    moreover have "succeeds gic_wf (gic_set_irq_generic s irq level cm target)"
      unfolding gic_set_irq_generic_def
      by (cases "level = 0", simp add: clear_level_keeps [OF wf i(2)], simp, rule succeeds_sbind [OF set_level_keeps [OF wf i(2)]])
        (use P i(2) in \<open>simp add: GIC_TEST_EDGE_TRIGGER_def at1_def\<close>)
    moreover have "fixes_config s (gic_set_irq_11mpcore s irq level cm target)"
      "fixes_config s (gic_set_irq_generic s irq level cm target)"
      unfolding gic_set_irq_11mpcore_def gic_set_irq_generic_def
      by (auto simp: gic_accesses same_config_def)
    ultimately show ?thesis
      using i inv by (auto simp: GIC_TEST_LEVEL_def at1_def c_assert_def held_def intro: update_after)
  qed
  show ?thesis
  proof (cases "line < num_irq s - GIC_INTERNAL")
    case True
    then have lt: "line + GIC_INTERNAL < GIC_MAXIRQ" using wf_bounds(3) [OF wf] by simp
    have "GIC_NR_SGIS \<le> line + GIC_INTERNAL" by (simp add: gic_constants)
    then show ?thesis
      unfolding gic_set_irq_def using True lt body [of "line + GIC_INTERNAL"]
      by (simp add: GIC_TARGET_def at1_def)
  next
    case False
    let ?k = "line - (num_irq s - GIC_INTERNAL)"
    have "?k mod GIC_INTERNAL < GIC_MAXIRQ" by (simp add: gic_constants)
    then show ?thesis
      unfolding gic_set_irq_def using False body [of "?k mod GIC_INTERNAL"] line by (simp add: Let_def)
  qed
qed

lemma drop_active_keeps:
  assumes "gic_wf s" "cpu < GIC_NCPU" "irq < GIC_MAXIRQ" "tmp < num_irq s"
  shows "drop_active fuel s cpu irq tmp = Inl No_return \<or>
    succeeds (\<lambda>t. \<exists>l. t = s\<lparr> last_active := l \<rparr> \<and> gic_wf t) (drop_active fuel s cpu irq tmp)"
  using assms(4)
proof (induction fuel arbitrary: tmp)
  case (Suc fuel)
  have lt: "tmp < GIC_MAXIRQ" using Suc.prems wf_bounds(3) [OF assms(1)] by simp
  have ok: "id_ok s (last_active s i cpu)" if "i < GIC_MAXIRQ" for i
    using assms(1,2) that by (auto simp: gic_wf_def gic_ids_def)
  have ex: "\<exists>l. s\<lparr> last_active := x \<rparr> = s\<lparr> last_active := l \<rparr>" for x by blast
  have same: "\<exists>l. s = s\<lparr> last_active := l \<rparr>" by (rule exI [of _ "last_active s"]) simp
  have next_lt: "unat (last_active s tmp cpu) < num_irq s" if "unat (last_active s tmp cpu) \<noteq> 1023"
    using ok [OF lt] that by (auto simp: id_ok_def)
  show ?case
    using lt assms(1-3) Suc.IH [OF next_lt] wf_last_active [OF assms(1) ok [OF assms(3)]] ex same
    by (auto simp: at2_def)
qed simp

lemma reassert_keeps:
  assumes "gic_wf s" "legacy s" "irq < GIC_MAXIRQ"
  shows "succeeds (\<lambda>(u, t). gic_wf t \<and> same_config s t \<and> running_irq t = running_irq s \<and> last_active t = last_active s \<and> (\<not> u \<longrightarrow> t = s))
    (reassert_level s cpu irq)"
  using assms set_pending_keeps [OF assms(1,3), of "cpu_mask cpu"]
  by (simp add: reassert_level_def gic_accesses same_config_def)

lemma inv_last_active: "gic_inv s \<Longrightarrow> gic_wf (s\<lparr> last_active := l \<rparr>) \<Longrightarrow> gic_inv (s\<lparr> last_active := l \<rparr>)"
  by (simp add: gic_inv_def sgi_current_def legacy_def)

definition may_fail :: "(GICState \<Rightarrow> bool) \<Rightarrow> bool \<Rightarrow> c_error + GICState \<Rightarrow> bool" where
  "may_fail P b r \<longleftrightarrow> r = Inl No_return \<and> b \<or> succeeds P r"

lemma complete_rest:
  assumes wf: "gic_wf t" and c: "same_config s t" and i: "\<not> u \<longrightarrow> gic_inv t" and cpu: "cpu < GIC_NCPU"
    and irq: "irq < GIC_MAXIRQ" and run: "unat (running_irq t cpu) < num_irq t"
  shows "may_fail (held s) (irq \<noteq> unat (running_irq t cpu))
    (if irq \<noteq> unat (running_irq t cpu)
     then sbind (drop_active fuel t cpu irq (unat (running_irq t cpu))) (\<lambda>s. if u then gic_update s else Inr s)
     else sbind (at2 GIC_MAXIRQ (unat (running_irq t cpu)) GIC_NCPU cpu (unat (last_active t (unat (running_irq t cpu)) cpu))) (\<lambda>l.
            gic_set_running_irq t cpu l))"
proof (cases "irq = unat (running_irq t cpu)")
  case True
  have "id_ok t (last_active t irq cpu)" using wf cpu irq by (auto simp: gic_wf_def gic_ids_def)
  then have "unat (last_active t irq cpu) = 1023 \<or> unat (last_active t irq cpu) < num_irq t"
    by (auto simp: id_ok_def)
  from succeeds_mono [OF set_running_held [OF wf cpu this] held_trans [OF c]] show ?thesis
    using True irq cpu by (simp add: may_fail_def at2_def)
next
  case False
  have R: "succeeds (held s) (if u then gic_update v else Inr v)" if v: "v = t\<lparr> last_active := l \<rparr>" "gic_wf v" for v l
  proof (cases u)
    case True
    have "same_config s v" using c v(1) by (simp add: same_config_def)
    then show ?thesis using True update_held [OF v(2)] by simp
  next
    case False
    then show ?thesis using i c v inv_last_active [of t l] by (simp add: held_def same_config_def)
  qed
  from drop_active_keeps [OF wf cpu irq run, of fuel] show ?thesis
  proof
    assume "drop_active fuel t cpu irq (unat (running_irq t cpu)) = Inl No_return"
    then show ?thesis using False by (simp add: may_fail_def)
  next
    assume "succeeds (\<lambda>v. \<exists>l. v = t\<lparr> last_active := l \<rparr> \<and> gic_wf v) (drop_active fuel t cpu irq (unat (running_irq t cpu)))"
    then have "succeeds (held s) (sbind (drop_active fuel t cpu irq (unat (running_irq t cpu))) (\<lambda>s. if u then gic_update s else Inr s))"
      by (rule succeeds_sbind) (use R in blast)
    then show ?thesis using False by (simp add: may_fail_def)
  qed
qed

lemma complete_held:
  assumes inv: "gic_inv s" and cpu: "cpu < num_cpu s"
  shows "may_fail (held s) (irq \<noteq> unat (running_irq s cpu)) (gic_complete_irq fuel s cpu irq)"
proof -
  have wf: "gic_wf s" using inv_wf [OF inv] .
  have c: "cpu < GIC_NCPU" using cpu wf_bounds(2) [OF wf] by simp
  show ?thesis
  proof (cases "irq \<ge> num_irq s \<or> unat (running_irq s cpu) = 1023")
    case True
    then show ?thesis
      using c inv by (auto simp: gic_complete_irq_def at1_def may_fail_def held_def)
  next
    case False
    then have lt: "irq < GIC_MAXIRQ" using wf_bounds(3) [OF wf] by simp
    have run: "unat (running_irq s cpu) < num_irq s"
      using wf c False by (auto simp: gic_wf_def gic_ids_def id_ok_def)
    obtain u t where r: "(if legacy s then reassert_level s cpu irq else Inr (False, s)) = Inr (u, t)"
      and t: "gic_wf t" "same_config s t" "running_irq t = running_irq s" "last_active t = last_active s" "\<not> u \<longrightarrow> t = s"
    proof (cases "legacy s")
      case True
      then show ?thesis using that reassert_keeps [OF wf True lt, of cpu] by (auto simp: succeeds_def)
    next
      case False
      then show ?thesis using that [of False s] wf by simp
    qed
    have "gic_complete_irq fuel s cpu irq =
       (if irq \<noteq> unat (running_irq t cpu)
        then sbind (drop_active fuel t cpu irq (unat (running_irq t cpu))) (\<lambda>s. if u then gic_update s else Inr s)
        else sbind (at2 GIC_MAXIRQ (unat (running_irq t cpu)) GIC_NCPU cpu (unat (last_active t (unat (running_irq t cpu)) cpu))) (\<lambda>l.
               gic_set_running_irq t cpu l))"
      using False c by (simp add: gic_complete_irq_def at1_def r t(3) del: if_split)
    then show ?thesis
      using complete_rest [OF t(1,2) _ c lt, of u fuel] t(3,5) inv run same_configD(2) [OF t(2)] by simp
  qed
qed

lemma cpu_read_held:
  assumes inv: "gic_inv s" and cpu: "cpu < num_cpu s"
  shows "succeeds (\<lambda>(r, s'). held s s') (gic_cpu_read s cpu offset)"
proof -
  have c: "cpu < GIC_NCPU" using cpu wf_bounds(2) [OF inv_wf [OF inv]] by simp
  have h: "held s s" using inv by (simp add: held_def)
  have a: "(offset - 0xd0) div 4 < GIC_NR_APRS" if "offset = 0xd0 \<or> offset = 0xd4 \<or> offset = 0xd8 \<or> offset = 0xdc"
    using that by (auto simp: GIC_NR_APRS_def)
  show ?thesis
    using c h a acknowledge_held [OF inv cpu] unfolding gic_cpu_read_def
    by (simp add: at1_def at2_def)
qed

lemma cpu_write_held:
  assumes inv: "gic_inv s" and cpu: "cpu < num_cpu s"
  shows "may_fail (held s) (offset = 0x10 \<and> unat (value AND 0x3ff) \<noteq> unat (running_irq s cpu)) (gic_cpu_write fuel s cpu offset value)"
proof (cases "offset = 0x10")
  case True
  then show ?thesis using complete_held [OF inv cpu, of "unat (value AND 0x3ff)" fuel] by (simp add: gic_cpu_write_def)
next
  case False
  have wf: "gic_wf s" using inv_wf [OF inv] .
  have c: "cpu < GIC_NCPU" using cpu wf_bounds(2) [OF wf] by simp
  have h: "held s s" using inv by (simp add: held_def)
  have "succeeds (held s) (gic_cpu_write fuel s cpu offset value)"
    unfolding gic_cpu_write_def using c wf h False
    by (simp add: at1_def update_held same_config_def)
  then show ?thesis by (simp add: may_fail_def)
qed

lemma gather_succeeds: "(\<And>k. i \<le> k \<Longrightarrow> k < i + n \<Longrightarrow> \<exists>b. f k = Inr b) \<Longrightarrow> \<exists>r. gather f i n res = Inr r"
proof (induction n arbitrary: i res)
  case (Suc n)
  obtain b where "f i = Inr b" using Suc.prems [of i] by auto
  moreover have "\<exists>r. gather f (Suc i) n (res OR b) = Inr r" by (rule Suc.IH) (rule Suc.prems, auto)
  ultimately show ?case by simp
qed simp

lemma test_bit8_succeeds: "(\<And>i. i < 8 \<Longrightarrow> \<exists>b. test i = Inr b) \<Longrightarrow> \<exists>r. test_bit8 test = Inr r"
  unfolding test_bit8_def by (rule gather_succeeds) fastforce

lemma read_config_succeeds:
  assumes wf: "gic_wf s"
  shows "\<exists>r. read_config s offset = Inr r"
proof -
  define irq where "irq = (offset - 0xc00) * 2 + GIC_BASE_IRQ s"
  have lt: "irq + i < GIC_MAXIRQ" if "irq < num_irq s" "i < 4" for i
  proof -
    obtain k where k: "num_irq s = 32 * k" using wf_bounds(4) [OF wf] by (auto simp: mod_eq_0_iff_dvd elim!: dvdE)
    then have "32 * k \<le> 1020" using wf_bounds(3) [OF wf] by (simp add: GIC_MAXIRQ_def)
    then have "k \<le> 31" by linarith
    then show ?thesis using that k by (simp add: GIC_MAXIRQ_def)
  qed
  show ?thesis
  proof (cases "irq < num_irq s")
    case True
    have "\<exists>r. gather (\<lambda>i.
        sbind (GIC_TEST_MODEL s (irq + i)) (\<lambda>model.
        sbind (GIC_TEST_EDGE_TRIGGER s (irq + i)) (\<lambda>edge.
          Inr ((if model then push_bit (i * 2) 1 else 0) OR (if edge then push_bit (i * 2) 2 else 0))))) 0 4 0 = (Inr r :: c_error + u32)"
      by (rule gather_succeeds) (use lt [OF True] in \<open>simp add: GIC_TEST_MODEL_def GIC_TEST_EDGE_TRIGGER_def at1_def\<close>)
    then show ?thesis using True unfolding read_config_def irq_def [symmetric] Let_def by simp
  next
    case False
    then show ?thesis unfolding read_config_def irq_def [symmetric] Let_def by simp
  qed
qed

lemma read_bits_succeed:
  assumes wf: "gic_wf s"
  shows "\<exists>r. read_enabled s cpu offset = Inr r" "\<exists>r. read_pending s cpu offset = Inr r" "\<exists>r. read_active s cpu offset = Inr r"
proof -
  have T: "\<exists>r. test_bit8 (\<lambda>i. at1 GIC_MAXIRQ (k * 8 + GIC_BASE_IRQ s + i) (f i)) = Inr r"
    if "k * 8 + GIC_BASE_IRQ s < num_irq s" for k f
    by (rule test_bit8_succeeds) (use block8 [OF wf refl that] in \<open>simp add: at1_def\<close>)
  have P: "gic_test_pending s i cm = at1 GIC_MAXIRQ i (pending_on s i cm)" for i cm
    by (auto simp: gic_test_pending_def pending_on_def at1_def)
  show "\<exists>r. read_active s cpu offset = Inr r"
    using T [of "offset - 0x300"] by (auto simp: read_active_def Let_def GIC_TEST_ACTIVE_def not_le [symmetric])
  show "\<exists>r. read_enabled s cpu offset = Inr r"
    using T [of "offset - 0x100"] T [of "offset - 0x180"]
    by (auto simp: read_enabled_def Let_def GIC_TEST_ENABLED_def not_le [symmetric])
  show "\<exists>r. read_pending s cpu offset = Inr r"
    using T [of "offset - 0x200"] T [of "offset - 0x280"]
    by (auto simp: read_pending_def Let_def P not_le [symmetric])
qed

lemma readb_succeeds:
  assumes wf: "gic_wf s" and cpu: "cpu < num_cpu s" and o: "offset < 0x1000"
  shows "\<exists>r. gic_dist_readb s cpu offset = Inr r"
proof -
  have c: "gic_get_current_cpu s cpu < GIC_NCPU"
    using current_cpu_less [OF wf cpu] wf_bounds(2) [OF wf] by simp
  have "\<exists>r. read_control s offset = Inr r" by (simp add: read_control_def)
  moreover have "\<exists>r. read_priority s (gic_get_current_cpu s cpu) offset = Inr r"
    using c wf_bounds(3) [OF wf] by (simp add: read_priority_def Let_def)
  moreover have "\<exists>r. read_target s (gic_get_current_cpu s cpu) offset = Inr r"
    using wf_bounds(3) [OF wf] by (simp add: read_target_def Let_def GIC_TARGET_def at1_def)
  moreover have "\<exists>r. read_sgi s (gic_get_current_cpu s cpu) offset = Inr r" if "0xf10 \<le> offset" "offset < 0xf30"
    using c that by (simp add: read_sgi_def Let_def at2_def GIC_NR_SGIS_def) linarith
  moreover have "(offset - 0xfe0) div 4 < 8" using o by linarith
  ultimately show ?thesis
    using read_bits_succeed [OF wf] read_config_succeeds [OF wf]
    by (simp add: gic_dist_readb_def Let_def at1_def)
qed

lemma readw_succeeds:
  "gic_wf s \<Longrightarrow> cpu < num_cpu s \<Longrightarrow> offset + 1 < 0x1000 \<Longrightarrow> \<exists>r. gic_dist_readw s cpu offset = Inr r"
  using readb_succeeds [of s cpu offset] readb_succeeds [of s cpu "offset + 1"] by (auto simp: gic_dist_readw_def)

lemma readl_succeeds:
  "gic_wf s \<Longrightarrow> cpu < num_cpu s \<Longrightarrow> offset + 3 < 0x1000 \<Longrightarrow> \<exists>r. gic_dist_readl s cpu offset = Inr r"
  using readw_succeeds [of s cpu offset] readw_succeeds [of s cpu "offset + 2"] by (auto simp: gic_dist_readl_def)

section \<open>Sequences of accesses\<close>

datatype gic_access =
    Dist_readb nat | Dist_readw nat | Dist_readl nat
  | Dist_writeb nat u32 | Dist_writew nat u32 | Dist_writel nat u32
  | This_read nat | This_write nat u32
  | Core_read nat nat | Core_write nat nat u32
  | Set_line nat int
  | Reset

text \<open>The state after an access by a CPU.\<close>

fun perform :: "nat \<Rightarrow> GICState \<Rightarrow> nat \<Rightarrow> gic_access \<Rightarrow> c_error + GICState" where
  "perform fuel s cpu (Dist_readb off) = sbind (gic_dist_readb s cpu off) (\<lambda>_. Inr s)"
| "perform fuel s cpu (Dist_readw off) = sbind (gic_dist_readw s cpu off) (\<lambda>_. Inr s)"
| "perform fuel s cpu (Dist_readl off) = sbind (gic_dist_readl s cpu off) (\<lambda>_. Inr s)"
| "perform fuel s cpu (Dist_writeb off v) = gic_dist_writeb s cpu off v"
| "perform fuel s cpu (Dist_writew off v) = gic_dist_writew s cpu off v"
| "perform fuel s cpu (Dist_writel off v) = gic_dist_writel s cpu off v"
| "perform fuel s cpu (This_read off) = sbind (gic_thiscpu_read s cpu off) (\<lambda>(_, s). Inr s)"
| "perform fuel s cpu (This_write off v) = gic_thiscpu_write fuel s cpu off v"
| "perform fuel s cpu (Core_read c off) = sbind (gic_do_cpu_read s c off) (\<lambda>(_, s). Inr s)"
| "perform fuel s cpu (Core_write c off v) = gic_do_cpu_write fuel s c off v"
| "perform fuel s cpu (Set_line line level) = gic_set_irq s line level"
| "perform fuel s cpu Reset = Inr (arm_gic_common_reset s)"

text \<open>
  The accesses that stay clear of the three registers whose handlers lack a check, inside the regions of the device; an input
  line is one of those the device registers and not the line of a software generated interrupt.
\<close>

fun gic_guard :: "GICState \<Rightarrow> gic_access \<Rightarrow> bool" where
  "gic_guard s (Dist_readb off) \<longleftrightarrow> off < 0x1000"
| "gic_guard s (Dist_readw off) \<longleftrightarrow> off + 1 < 0x1000"
| "gic_guard s (Dist_readl off) \<longleftrightarrow> off + 3 < 0x1000"
| "gic_guard s (Dist_writeb off v) \<longleftrightarrow> byte_ok s off v"
| "gic_guard s (Dist_writew off v) \<longleftrightarrow> byte_ok s off (v AND 0xff) \<and> byte_ok s (off + 1) (drop_bit 8 v)"
| "gic_guard s (Dist_writel off v) \<longleftrightarrow>
     (if off = 0xf00 then unat (v AND 0x3ff) < GIC_NR_SGIS
      else \<forall>k < 4. byte_ok s (off + k) (drop_bit (8 * k) v AND 0xff))"
| "gic_guard s (Core_read c off) \<longleftrightarrow> c < num_cpu s"
| "gic_guard s (Core_write c off v) \<longleftrightarrow> c < num_cpu s"
| "gic_guard s (Set_line line level) \<longleftrightarrow>
     line < num_irq s - GIC_INTERNAL + GIC_INTERNAL * num_cpu s \<and>
     (line < num_irq s - GIC_INTERNAL \<or> GIC_NR_SGIS \<le> (line - (num_irq s - GIC_INTERNAL)) mod GIC_INTERNAL)"
| "gic_guard s a \<longleftrightarrow> True"

text \<open>The one access that may fail to return: the end of an interrupt that is not the running one.\<close>

fun ends_other :: "GICState \<Rightarrow> nat \<Rightarrow> gic_access \<Rightarrow> bool" where
  "ends_other s cpu (This_write off v) \<longleftrightarrow> off = 0x10 \<and> unat (v AND 0x3ff) \<noteq> unat (running_irq s (gic_get_current_cpu s cpu))"
| "ends_other s cpu (Core_write c off v) \<longleftrightarrow> off = 0x10 \<and> unat (v AND 0x3ff) \<noteq> unat (running_irq s c)"
| "ends_other s cpu a \<longleftrightarrow> False"

inductive gic_reach :: "GICState \<Rightarrow> GICState \<Rightarrow> bool" where
  start: "gic_reach s0 s0"
| access: "gic_reach s0 s \<Longrightarrow> cpu < num_cpu s \<Longrightarrow> gic_guard s a \<Longrightarrow> perform fuel s cpu a = Inr s' \<Longrightarrow> gic_reach s0 s'"

lemma byte_ok_low: "byte_ok s off (v AND 0xff) = byte_ok s off v"
proof -
  have "(ucast (v AND 0xff) :: u8) = ucast v"
  proof (rule bit_word_eqI)
    fix n assume n: "n < LENGTH(8)"
    have "bit (mask 8 :: u32) n" using n by (simp add: bit_mask_iff)
    then have "bit (0xff :: u32) n" by (simp add: mask_eq_exp_minus_1)
    then show "bit (ucast (v AND 0xff) :: u8) n = bit (ucast v :: u8) n" using n by (simp add: bit_simps)
  qed
  then show ?thesis by (simp add: byte_ok_def)
qed

lemma writel_held:
  assumes inv: "gic_inv s" and cpu: "cpu < num_cpu s" and g: "gic_guard s (Dist_writel offset value)"
  shows "succeeds (held s) (gic_dist_writel s cpu offset value)"
proof (cases "offset = 0xf00")
  case True
  then show ?thesis
    using sgir_held [OF inv current_cpu_less [OF inv_wf [OF inv] cpu]] g by (simp add: gic_dist_writel_def)
next
  case False
  have b: "byte_ok s (offset + k) (drop_bit (8 * k) value)" if "k < 4" for k
    using g False that by (auto simp: byte_ok_low)
  have low: "byte_ok s off (drop_bit 8 (value AND 0xffff)) = byte_ok s off (drop_bit 8 value)"
      "byte_ok s off (value AND 0xffff) = byte_ok s off value" for off
  proof -
    have m: "(0xffff :: u32) = mask 16" by (simp add: mask_eq_exp_minus_1)
    have "(ucast (drop_bit 8 (value AND mask 16)) :: u8) = ucast (drop_bit 8 value)"
      "(ucast (value AND mask 16) :: u8) = ucast value"
      by (rule bit_word_eqI, simp add: bit_simps)+
    then show "byte_ok s off (drop_bit 8 (value AND 0xffff)) = byte_ok s off (drop_bit 8 value)"
      "byte_ok s off (value AND 0xffff) = byte_ok s off value"
      unfolding m byte_ok_def by simp_all
  qed
  have W1: "succeeds (held s) (gic_dist_writew s cpu offset (value AND 0xffff))"
    by (rule writew_held [OF inv cpu]) (use b [of 0] b [of 1] low in \<open>simp_all add: byte_ok_low\<close>)
  have W2: "succeeds (held t) (gic_dist_writew t cpu (offset + 2) (drop_bit 16 value))"
    if "gic_inv t" "same_config s t" for t
    by (rule writew_held [OF that(1)])
      (use cpu b [of 2] b [of 3] same_configD [OF that(2)] in \<open>simp_all add: byte_ok_low numeral_3_eq_3\<close>)
  show ?thesis
    using False held_then [OF W1 W2] by (simp add: gic_dist_writel_def)
qed

lemma reset_inv:
  assumes "gic_shape s" "gic_ids s" "legacy s \<or> num_cpu s = 1"
  shows "gic_inv (arm_gic_common_reset s)"
proof -
  let ?r = "arm_gic_common_reset s"
  have F: "num_cpu ?r = num_cpu s" "num_irq ?r = num_irq s" "revision ?r = revision s" "last_active ?r = last_active s"
    "running_irq ?r = (\<lambda>i. if i < num_cpu s then 1023 else running_irq s i)"
    "running_priority ?r = (\<lambda>i. if i < num_cpu s then 0x100 else running_priority s i)"
    "current_pending ?r = (\<lambda>i. if i < num_cpu s then 1023 else current_pending s i)"
    "irq_state ?r = (\<lambda>i. if i < 16 then clear_irq_state\<lparr> st_enabled := ALL_CPU_MASK, st_edge_trigger := True \<rparr>
                               else if i < GIC_MAXIRQ then clear_irq_state else irq_state s i)"
    by (simp_all add: arm_gic_common_reset_def Let_def)
  have L: "legacy ?r = legacy s" and I: "id_ok ?r = id_ok s" by (auto simp: legacy_def id_ok_def F)
  have "gic_shape ?r" "gic_ids ?r"
    using assms(1,2) unfolding gic_shape_def gic_ids_def F I by auto
  moreover have "sgi_sources ?r"
    using assms(3) unfolding sgi_sources_def L F by (auto simp: clear_irq_state_def GIC_NR_SGIS_def)
  moreover have "sgi_current ?r"
    using assms(1) unfolding sgi_current_def L F by (auto simp: gic_shape_def GIC_NR_SGIS_def)
  ultimately show ?thesis by (simp add: gic_inv_def gic_wf_def)
qed

lemma access_held:
  assumes inv: "gic_inv s" and cpu: "cpu < num_cpu s" and g: "gic_guard s a"
  shows "may_fail (held s) (ends_other s cpu a) (perform fuel s cpu a)"
proof -
  have wf: "gic_wf s" using inv_wf [OF inv] .
  have h: "held s s" using inv by (simp add: held_def)
  note c = current_cpu_less [OF wf cpu]
  have drop: "succeeds (held s) (sbind r (\<lambda>(_, s). Inr s))" if "succeeds (\<lambda>(r, s'). held s s') r" for r :: "c_error + u32 \<times> GICState"
    using that by (auto simp: succeeds_def)
  have "same_config s (arm_gic_common_reset s)" by (simp add: same_config_def arm_gic_common_reset_def Let_def)
  moreover have "gic_inv (arm_gic_common_reset s)"
    by (rule reset_inv) (use wf in \<open>auto simp: gic_wf_def sgi_sources_def\<close>)
  ultimately have reset: "held s (arm_gic_common_reset s)" by (simp add: held_def)
  show ?thesis
  proof (cases a)
    case (Dist_readb off)
    then show ?thesis using readb_succeeds [OF wf cpu, of off] g h by (auto simp: may_fail_def)
  next
    case (Dist_readw off)
    then show ?thesis using readw_succeeds [OF wf cpu, of off] g h by (auto simp: may_fail_def)
  next
    case (Dist_readl off)
    then show ?thesis using readl_succeeds [OF wf cpu, of off] g h by (auto simp: may_fail_def)
  next
    case (Dist_writel off v)
    then show ?thesis using writel_held [OF inv cpu, of off v] g by (auto simp: may_fail_def)
  next
    case (This_write off v)
    then show ?thesis using cpu_write_held [OF inv c, of off v fuel] by (simp add: gic_thiscpu_write_def)
  next
    case (Core_write k off v)
    then show ?thesis using cpu_write_held [OF inv, of k off v fuel] g by (simp add: gic_do_cpu_write_def)
  qed (use g writeb_held [OF inv cpu] writew_held [OF inv cpu] cpu_read_held [OF inv c] cpu_read_held [OF inv]
      set_irq_held [OF inv] reset drop in \<open>simp_all add: may_fail_def gic_thiscpu_read_def gic_do_cpu_read_def\<close>)
qed

lemma reach_held: "gic_reach s0 s \<Longrightarrow> gic_inv s0 \<Longrightarrow> held s0 s"
proof (induction rule: gic_reach.induct)
  case (start s0)
  then show ?case by (simp add: held_def)
next
  case (access s0 s cpu a fuel s')
  then have s: "gic_inv s" "same_config s0 s" by (simp_all add: held_def)
  have "held s s'" using access_held [OF s(1) access.hyps(2,3), of fuel] access.hyps(4) by (simp add: may_fail_def)
  then show ?case by (rule held_trans [OF s(2)])
qed

text \<open>A device as it is allocated: all fields zero but the properties.\<close>

definition gic_zero :: "nat \<Rightarrow> nat \<Rightarrow> u32 \<Rightarrow> GICState" where
  "gic_zero cpus irqs rv = \<lparr> parent_irq = (\<lambda>_. False), gic_enabled = False, cpu_enabled = (\<lambda>_. False), irq_state = (\<lambda>_. clear_irq_state),
     irq_target = (\<lambda>_. 0), priority1 = (\<lambda>_ _. 0), priority2 = (\<lambda>_. 0), last_active = (\<lambda>_ _. 0), sgi_pending = (\<lambda>_ _. 0),
     priority_mask = (\<lambda>_. 0), running_irq = (\<lambda>_. 0), running_priority = (\<lambda>_. 0), current_pending = (\<lambda>_. 0),
     bpr = (\<lambda>_. 0), abpr = (\<lambda>_. 0), apr = (\<lambda>_ _. 0), num_cpu = cpus, num_irq = irqs, revision = rv \<rparr>"

lemma realize_shape:
  assumes "arm_gic_common_realize (gic_zero cpus irqs rv) = Inr s" "0 < cpus"
  shows "gic_shape s" "gic_ids s" "num_cpu s = cpus" "revision s = rv"
  using assms unfolding arm_gic_common_realize_def Let_def
  by (auto simp: gic_zero_def gic_shape_def gic_ids_def id_ok_def split: if_splits)

end
