(* ===== verification/Arm_Gic_Props.thy ===== *)
theory Arm_Gic_Props
  imports Arm_Gic_Inv
begin

text \<open>
  The properties of the interrupt controller: what an update shows, safety of all guarded accesses, delivery of software
  generated interrupts, acknowledge and end of interrupt, and the accesses a guest can make that fail or never return.
\<close>

section \<open>Properties of the controller\<close>

lemma update_outputs:
  assumes "gic_shape s" "gic_ids s"
  shows "\<exists>s'. gic_update s = Inr s' \<and> same_inputs s s' \<and> (\<forall>c. updated s 0 (num_cpu s) s' c)"
  by (rule gic_update_spec) (use assms in \<open>auto simp: gic_shape_def gic_ids_def\<close>)

text \<open>A device in use: one enabled interface, software generated interrupts enabled, nothing pending.\<close>

definition gic_ready :: "nat \<Rightarrow> u32 \<Rightarrow> GICState" where
  "gic_ready cpus rv = (arm_gic_common_reset (gic_zero cpus 32 rv))
     \<lparr> gic_enabled := True, cpu_enabled := (\<lambda>_. True), priority_mask := (\<lambda>_. 0xf0) \<rparr>"

lemma ready_fields:
  "num_cpu (gic_ready n rv) = n" "num_irq (gic_ready n rv) = 32" "revision (gic_ready n rv) = rv"
  "gic_enabled (gic_ready n rv)" "cpu_enabled (gic_ready n rv) c" "priority_mask (gic_ready n rv) c = 0xf0"
  "sgi_pending (gic_ready n rv) i c = 0" "last_active (gic_ready n rv) i c = 0"
  "priority1 (gic_ready n rv) i c = 0" "priority2 (gic_ready n rv) i = 0"
  "running_irq (gic_ready n rv) c = (if c < n then 1023 else 0)"
  "running_priority (gic_ready n rv) c = (if c < n then 0x100 else 0)"
  "current_pending (gic_ready n rv) c = (if c < n then 1023 else 0)"
  "irq_state (gic_ready n rv) i = (if i < 16 then clear_irq_state\<lparr> st_enabled := ALL_CPU_MASK, st_edge_trigger := True \<rparr> else clear_irq_state)"
  by (simp_all add: gic_ready_def arm_gic_common_reset_def gic_zero_def Let_def)

lemma ready_ok: "0 < n \<Longrightarrow> n \<le> 8 \<Longrightarrow> gic_shape (gic_ready n rv)" "gic_ids (gic_ready n rv)"
  by (auto simp: gic_shape_def gic_ids_def id_ok_def ready_fields gic_constants)


lemma ready_no_candidate: "\<not> candidate (gic_ready n rv) c i"
  by (simp add: candidate_def pending_on_def ready_fields clear_irq_state_def)

text \<open>C32: From the reset of a device that was realized, every access of every CPU that stays clear of the registers
  without a check returns without an out-of-bounds access or a failed assertion.  The one access that may not return
  is the end of an interrupt that is not the running one.  Devices with several CPUs are those of the legacy revisions.\<close>

theorem gic_accesses_safe:
  assumes "arm_gic_common_realize (gic_zero cpus irqs rv) = Inr s0" "0 < cpus"
    and "rv = REV_11MPCORE \<or> rv = REV_NVIC \<or> cpus = 1"
    and "gic_reach (arm_gic_common_reset s0) s" "cpu < cpus" "gic_guard s a"
  shows "(\<exists>s'. perform fuel s cpu a = Inr s') \<or> perform fuel s cpu a = Inl No_return \<and> ends_other s cpu a"
proof -
  note r = realize_shape [OF assms(1,2)]
  have "gic_inv (arm_gic_common_reset s0)"
    by (rule reset_inv [OF r(1,2)]) (use assms(3) r in \<open>auto simp: legacy_def\<close>)
  then have h: "held (arm_gic_common_reset s0) s" by (rule reach_held [OF assms(4)])
  then have "num_cpu s = cpus" using r(3) by (simp add: held_def same_config_def arm_gic_common_reset_def Let_def)
  then show ?thesis
    using access_held [of s cpu a fuel] assms(5,6) h by (auto simp: held_def may_fail_def succeeds_def)
qed


text \<open>The hypotheses hold for a first read of the acknowledge register.\<close>

theorem gic_accesses_safe_witness:
  "\<exists>s0. arm_gic_common_realize (gic_zero 1 64 1) = Inr s0 \<and>
     ((\<exists>s'. perform 0 (arm_gic_common_reset s0) 0 (This_read 0x0c) = Inr s') \<or>
      perform 0 (arm_gic_common_reset s0) 0 (This_read 0x0c) = Inl No_return \<and> ends_other (arm_gic_common_reset s0) 0 (This_read 0x0c))"
proof -
  have r: "arm_gic_common_realize (gic_zero 1 64 1) = Inr (gic_zero 1 64 1)"
    by (simp add: arm_gic_common_realize_def gic_zero_def GIC_NCPU_def GIC_MAXIRQ_def GIC_BASE_IRQ_def REV_NVIC_def Let_def)
  show ?thesis
    using gic_accesses_safe [OF r _ _ gic_reach.start, of 0 "This_read 0x0c" 0] r by simp
qed

text \<open>C33: With the distributor and every CPU interface enabled, an update shows on each interface the enabled pending
  interrupt of least priority value, the lowest number among equals, when it is below the priority mask and 1023
  otherwise, and drives the line high exactly when that interrupt preempts the running one.\<close>

theorem gic_update_selects:
  assumes "gic_shape s" "gic_ids s" "gic_enabled s" "\<forall>c < num_cpu s. cpu_enabled s c"
  shows "\<exists>s'. gic_update s = Inr s' \<and> same_inputs s s' \<and>
    (\<forall>c < num_cpu s. chosen s c (current_pending s' c) (parent_irq s' c))"
proof -
  obtain s' where s': "gic_update s = Inr s'" "same_inputs s s'" "\<forall>c. updated s 0 (num_cpu s) s' c"
    using update_outputs [OF assms(1,2)] by blast
  have "chosen s c (current_pending s' c) (parent_irq s' c)" if "c < num_cpu s" for c
  proof -
    have "active_cpu s d" if "d \<le> c" for d
      using assms(3,4) \<open>c < num_cpu s\<close> that by (simp add: active_cpu_def)
    then show ?thesis using s'(3) [rule_format, of c] that by (auto simp: updated_def)
  qed
  then show ?thesis using s' by blast
qed

theorem gic_update_selects_witness:
  "\<exists>s'. gic_update (gic_ready 2 1) = Inr s' \<and> same_inputs (gic_ready 2 1) s' \<and>
     chosen (gic_ready 2 1) 1 (current_pending s' 1) (parent_irq s' 1)"
  using gic_update_selects [OF ready_ok(1) ready_ok(2), of 2 1] by (auto simp: ready_fields)

text \<open>C34: An update stops at the first CPU interface that is disabled: it leaves the shown interrupt and the line of
  every later interface as they were, whatever is pending there.\<close>

theorem gic_update_stops:
  assumes "gic_shape s" "gic_ids s" "d < c" "d < num_cpu s" "\<not> cpu_enabled s d"
  shows "\<exists>s'. gic_update s = Inr s' \<and> current_pending s' c = current_pending s c \<and> parent_irq s' c = parent_irq s c"
proof -
  obtain s' where s': "gic_update s = Inr s'" "\<forall>c. updated s 0 (num_cpu s) s' c"
    using update_outputs [OF assms(1,2)] by blast
  have "\<not> (\<forall>d. 0 \<le> d \<and> d < c \<longrightarrow> active_cpu s d)" using assms(3,5) by (auto simp: active_cpu_def)
  then have "current_pending s' c = current_pending s c \<and> parent_irq s' c = parent_irq s c"
    using s'(2) [rule_format, of c] unfolding updated_def by presburger
  then show ?thesis using s'(1) by blast
qed

text \<open>With the interface of CPU 0 disabled, the line of CPU 1 stays high although nothing is pending.\<close>

theorem gic_update_stops_witness:
  "let s = (gic_ready 2 1)\<lparr> cpu_enabled := (\<lambda>c. c \<noteq> 0), parent_irq := (\<lambda>_. True) \<rparr>
   in (\<forall>i. \<not> candidate s 1 i) \<and> (\<exists>s'. gic_update s = Inr s' \<and> parent_irq s' 1)"
proof -
  let ?s = "(gic_ready 2 1)\<lparr> cpu_enabled := (\<lambda>c. c \<noteq> 0), parent_irq := (\<lambda>_. True) \<rparr>"
  have "gic_shape ?s" "gic_ids ?s"
    using ready_ok [of 2 1] by (simp_all add: gic_shape_def gic_ids_def id_ok_def)
  then have "\<exists>s'. gic_update ?s = Inr s' \<and> parent_irq s' 1"
    using gic_update_stops [of ?s 0 1] by (auto simp: ready_fields)
  moreover have "\<not> candidate ?s 1 i" for i
    using ready_no_candidate [of 2 1 1 i] by (simp add: candidate_def pending_on_def legacy_def)
  ultimately show ?thesis by (simp add: Let_def)
qed




text \<open>C36: The handler of the software interrupt register takes ten bits of the value as the number, while the table of
  sources has sixteen rows: a write that names a larger number and has a target writes outside the table.\<close>

theorem gic_sgir_overrun:
  assumes "GIC_NR_SGIS \<le> unat (value AND 0x3ff)" "sgi_mask (gic_get_current_cpu s cpu) value \<noteq> 0"
  shows "gic_dist_writel s cpu 0xf00 value = Inl Out_of_bounds"
proof -
  let ?i = "unat (value AND 0x3ff)" and ?m = "sgi_mask (gic_get_current_cpu s cpu) value"
  have "sgi_targets t c ?i ?m = Inl Out_of_bounds" for t c
    using assms(1) ctz_byte_less [OF assms(2)] by (subst sgi_targets.simps) (simp add: Let_def at2_def)
  then show ?thesis
    by (auto simp: gic_dist_writel_def gic_dist_sgir_def Let_def GIC_SET_PENDING_def on_irq_def at1_def)
qed

theorem gic_sgir_overrun_witness:
  "gic_dist_writel (gic_ready 1 1) 0 0xf00 0x02000010 = Inl Out_of_bounds"
  by (rule gic_sgir_overrun) (simp_all add: GIC_NR_SGIS_def sgi_mask_def gic_get_current_cpu_def ready_fields cpu_mask_def)


















text \<open>The configuration of four interrupts, written from a byte and collected into one.\<close>

lemma config_written:
  assumes "irq + 3 < GIC_MAXIRQ"
  shows "\<exists>t. each (\<lambda>i s. sbind (GIC_PUT_MODEL s (irq + i) (bit v (i * 2))) (\<lambda>s.
        GIC_PUT_EDGE_TRIGGER s (irq + i) (bit v (i * 2 + 1)))) 0 4 s = Inr t \<and>
      (\<exists>q. t = s\<lparr> irq_state := q \<rparr>) \<and>
      (\<forall>i < 4. st_model (irq_state t (irq + i)) = bit v (i * 2) \<and> st_edge_trigger (irq_state t (irq + i)) = bit v (i * 2 + 1))"
proof -
  have "\<forall>i. i < 4 \<longrightarrow> i = 0 \<or> i = 1 \<or> i = 2 \<or> i = (3 :: nat)" by auto
  then show ?thesis
    using assms by (simp add: numeral_eq_Suc GIC_PUT_MODEL_def GIC_PUT_EDGE_TRIGGER_def on_irq_def at1_def less_Suc_eq all_conj_distrib) blast
qed

lemma gather4: "(\<And>k. k < 4 \<Longrightarrow> f k = Inr (b k)) \<Longrightarrow> gather f 0 4 0 = Inr (b 0 OR (b 1 OR (b 2 OR b 3)))"
  by (simp add: numeral_eq_Suc or.assoc)

lemma config_gathered:
  fixes v :: u32
  assumes lt: "irq + 3 < GIC_MAXIRQ"
    and c: "\<forall>i < 4. st_model (irq_state s (irq + i)) = bit v (i * 2) \<and> st_edge_trigger (irq_state s (irq + i)) = bit v (i * 2 + 1)"
  shows "gather (\<lambda>i. sbind (GIC_TEST_MODEL s (irq + i)) (\<lambda>model. sbind (GIC_TEST_EDGE_TRIGGER s (irq + i)) (\<lambda>edge.
           Inr ((if model then push_bit (i * 2) 1 else 0) OR (if edge then push_bit (i * 2) 2 else 0))))) 0 4 0 = Inr (v AND 0xff)"
proof -
  define b where "b i = (if bit v (i * 2) then push_bit (i * 2) 1 else 0) OR (if bit v (i * 2 + 1) then push_bit (i * 2) (2 :: u32) else 0)" for i
  have bb: "bit (b i) n \<longleftrightarrow> bit v n \<and> (n = i * 2 \<or> n = i * 2 + 1)" if "i < 4" for i n
  proof -
    have p: "bit (push_bit k (1 :: u32)) n \<longleftrightarrow> n = k" if "k < 32" for k
      using that by (subst bit_push_bit_iff) (auto simp: bit_1_iff)
    have "push_bit (i * 2) (2 :: u32) = push_bit (i * 2 + 1) 1" by (simp add: push_bit_eq_mult)
    then have p2: "bit (push_bit (i * 2) (2 :: u32)) n \<longleftrightarrow> n = i * 2 + 1" using p [of "i * 2 + 1"] that by (simp only:)
    show ?thesis
      using p [of "i * 2"] p2 that unfolding b_def bit_or_iff
      by (cases "bit v (i * 2)"; cases "bit v (i * 2 + 1)") (simp_all only: if_True if_False bit_0_eq bot_apply, auto)
  qed
  have step: "sbind (GIC_TEST_MODEL s (irq + i)) (\<lambda>model. sbind (GIC_TEST_EDGE_TRIGGER s (irq + i)) (\<lambda>edge.
           Inr ((if model then push_bit (i * 2) 1 else 0) OR (if edge then push_bit (i * 2) 2 else 0)))) = Inr (b i)" if "i < 4" for i
    using c that lt unfolding GIC_TEST_MODEL_def GIC_TEST_EDGE_TRIGGER_def at1_def b_def by simp
  have "b 0 OR (b 1 OR (b 2 OR b 3)) = v AND mask 8"
    by (rule bit_word_eqI) (auto simp: bit_or_iff bit_and_iff bb bit_mask_iff less_Suc_eq numeral_eq_Suc)
  moreover have "(mask 8 :: u32) = 0xff" by (simp add: mask_eq_exp_minus_1)
  ultimately show ?thesis using gather4 [OF step] by simp
qed

text \<open>C40: The configuration byte written at \<open>0xc00 + j\<close> describes the interrupts from \<open>4 * j\<close> on, but a read of
  that offset reports those from \<open>2 * j\<close> on: the value comes back at \<open>0xc00 + 2 * j\<close>.\<close>

theorem gic_config_moves:
  assumes shape: "gic_shape s" and ids: "gic_ids s" and rv: "revision s \<noteq> REV_NVIC" and j: "8 \<le> j" "4 * j < num_irq s"
  shows "\<exists>s'. gic_dist_writeb s cpu (0xc00 + j) value = Inr s' \<and> gic_dist_readb s' cpu (0xc00 + 2 * j) = Inr (value AND 0xff)"
proof -
  have n: "num_irq s \<le> 1020" "num_irq s mod 32 = 0" using shape by (auto simp: gic_shape_def GIC_MAXIRQ_def)
  have lt: "4 * j + 3 < GIC_MAXIRQ" "j < 0x180" using n j by (auto simp: GIC_MAXIRQ_def)
  have base: "GIC_BASE_IRQ s = 0" using rv by (simp add: GIC_BASE_IRQ_def)
  obtain t where E: "each (\<lambda>i s. sbind (GIC_PUT_MODEL s (4 * j + i) (bit value (i * 2))) (\<lambda>s.
        GIC_PUT_EDGE_TRIGGER s (4 * j + i) (bit value (i * 2 + 1)))) 0 4 s = Inr t"
    and q: "\<exists>q. t = s\<lparr> irq_state := q \<rparr>"
    and t: "\<forall>i < 4. st_model (irq_state t (4 * j + i)) = bit value (i * 2) \<and> st_edge_trigger (irq_state t (4 * j + i)) = bit value (i * 2 + 1)"
    using config_written [OF lt(1), of "value" s] by blast
  have I: "id_ok (s\<lparr> irq_state := q \<rparr>) = id_ok s" for q by (auto simp: id_ok_def)
  have tf: "gic_shape t" "gic_ids t" "num_irq t = num_irq s" "revision t = revision s"
    using q shape ids by (auto simp: gic_shape_def gic_ids_def I)
  obtain s' where U: "gic_update t = Inr s'" "same_inputs t s'" using update_outputs [OF tf(1,2)] by blast
  note D = same_inputsD [OF U(2)]
  have W: "gic_dist_writeb s cpu (0xc00 + j) value = Inr s'"
    using E U(1) j lt(2) by (simp add: gic_dist_writeb_def dist_write_def write_config_def Let_def base GIC_INTERNAL_def mult.commute)
  have "GIC_BASE_IRQ s' = 0" "4 * j < num_irq s'" using rv j(2) tf D by (simp_all add: GIC_BASE_IRQ_def)
  then have "read_config s' (0xc00 + 2 * j) = Inr (value AND 0xff)"
    using config_gathered [OF lt(1), of s' "value"] t D(3) by (simp add: read_config_def Let_def mult.assoc [symmetric])
  moreover have "2 * j < 0x300" using j(2) n by simp
  ultimately have "gic_dist_readb s' cpu (0xc00 + 2 * j) = Inr (value AND 0xff)"
    by (simp add: gic_dist_readb_def Let_def)
  then show ?thesis using W by blast
qed

text \<open>Sixteen edge triggered interrupts are asked for by the four bytes from offset \<open>0xc08\<close>; the first is read back at \<open>0xc10\<close>.\<close>

theorem gic_config_moves_witness:
  "\<exists>s'. gic_dist_writeb ((gic_ready 1 1)\<lparr> num_irq := 64 \<rparr>) 0 0xc08 0xaa = Inr s' \<and> gic_dist_readb s' 0 0xc10 = Inr 0xaa"
proof -
  let ?s = "(gic_ready 1 1)\<lparr> num_irq := 64 \<rparr>"
  have "gic_shape ?s" "gic_ids ?s"
    by (auto simp: gic_shape_def gic_ids_def id_ok_def ready_fields gic_constants)
  then show ?thesis
    using gic_config_moves [of ?s 8 0 "0xaa"] by (simp add: ready_fields REV_NVIC_def)
qed

end
