(* ===== verification/Spec2Isabelle.thy ===== *)
theory Spec2Isabelle
  imports Xbzrle Host_Utils Tcg_Block Bitmap Byte_Fifo HBitmap Arm_Gic_Props
begin

text \<open>
  A verification of core parts of QEMU 2.0 (the ARM fork of this repository): the machinery below the
  emulated processors and devices that can be stated and proved as functions on machine words, lists and
  records.

  \<^bold>\<open>The parts and how they interact.\<close>  A guest instruction is translated to a buffer of intermediate
  operations, which the optimiser (\<open>tcg/optimize.c\<close>) rewrites before the buffer is turned into host code or
  interpreted (\<open>tci.c\<close>); both compute with the integer helpers (\<open>host-utils\<close>, \<open>bitops\<close>).  Live migration
  sends changed pages through the XBZRLE codec (\<open>xbzrle.c\<close>) and finds dirty pages and blocks in bitmaps
  (\<open>util/bitmap.c\<close>) and hierarchical bitmaps (\<open>util/hbitmap.c\<close>), which share the bit searches.  Devices
  queue bytes in \<open>util/fifo8.c\<close> and raise interrupts on the generic interrupt controller
  (\<open>hw/intc/arm_gic.c\<close>), which picks the interrupt each CPU takes.

  \<^bold>\<open>Conventions.\<close>  Theory \<open>Prelude\<close> names the machine integers (\<open>u8\<close> to \<open>u64\<close> are words and wrap) and the
  ways a C function fails as values of \<open>c_error\<close>: a failed \<open>assert\<close>, \<open>abort\<close>, an access outside an array,
  a division or shift outside its domain, and \<open>No_return\<close> for a loop that used up its bound.  A fallible
  function returns \<open>c_error + 'a\<close> and \<open>sbind\<close> sequences such functions, so every early end of the source is a
  branch of the model.  Buffers are lists with checked access.  The host is little endian with 64 bit longs.
  State is passed explicitly: a struct is a record, an operation takes and returns it.

  \<^bold>\<open>Theories.\<close>

  \<^item> \<open>Xbzrle\<close>: \<open>uleb128_encode_small\<close>, \<open>uleb128_decode_small\<close> (\<open>util/cutils.c\<close>), \<open>xbzrle_encode_buffer\<close> and
    \<open>xbzrle_decode_buffer\<close>, the scans by words included.  Decoding inverts encoding; the encoder and, on
    any input, the decoder stay inside their buffers and return.

  \<^item> \<open>Host_Utils\<close>: counts of zero and one bits, 128 bit products and quotients with and without a 128 bit
    compiler type, \<open>muldiv64\<close>, rotates, bit fields, bit reversal and powers of two.  The routines equal their
    specification on the bits or on the integer values; two divisions are shown to miss an overflow and to
    report one that is none.

  \<^item> \<open>Tcg_Ops\<close>: the operations (\<open>tcg/tcg-opc.h\<close>) and what they compute.  The meaning is that of \<open>tci.c\<close>;
    operations that \<open>tci.c\<close> leaves as a TODO or does not have (\<open>movcond\<close>, \<open>muls2\<close>, \<open>andc\<close> and its like, the
    high products, the double word operations of 64 bit halves, the loads \<open>ld8s\<close>, \<open>ld16u\<close> and \<open>ld16s\<close>
    of the interpreter) follow the instruction reference \<open>tcg/README\<close>.  Host and guest memory, helper
    functions and links between blocks are the fields of a record \<open>machine\<close>, over which all theorems are
    universal.

  \<^item> \<open>Tcg_Optimize\<close>: \<open>tcg/optimize.c\<close>, one definition per stage of \<open>tcg_constant_folding\<close>.  It works on the
    operations of \<open>Tcg_Ops\<close>; the opcodes without a constructor there (\<open>nop1\<close> to \<open>nopn\<close>, \<open>debug_insn_start\<close>,
    \<open>div2\<close> and \<open>divu2\<close>, the \<open>qemu_ld_i32\<close> family with a memory operand) and their cases in the optimiser
    are left out.  \<open>Tcg_Knowledge\<close> (rings of copies, constants and masks are true of the state),
    \<open>Tcg_Folding\<close> (folding computes what the operation computes), \<open>Tcg_Simplify\<close> (each simplification),
    \<open>Tcg_Sound\<close> (one operation with control flow) and \<open>Tcg_Block\<close> (whole blocks) prove that an optimised
    block runs like the original, that the pass ends, and where folding goes wrong.

  \<^item> \<open>Bitmap\<close>: single bits, the word-wise searches (\<open>util/bitops.c\<close>), and the bitmap operations.  The locale
    \<open>bit_search\<close> states what \<open>bitmap_find_next_zero_area\<close> needs of the searches and is interpreted on
    \<open>find_next_zero_bit\<close> and \<open>find_next_bit\<close>.

  \<^item> \<open>Byte_Fifo\<close>: \<open>util/fifo8.c\<close>, a refinement of a bounded queue.  The locale \<open>byte_queue\<close> states the
    contract of pushing and popping and is interpreted on \<open>fifo8_push\<close> and \<open>fifo8_pop\<close>.

  \<^item> \<open>HBitmap\<close>: \<open>util/hbitmap.c\<close>, a refinement of a set of groups with its cardinality, and the iteration
    over it.  The locale \<open>range_set\<close> states the contract of adding and removing ranges and is interpreted on
    \<open>hbitmap_set\<close> and \<open>hbitmap_reset\<close>.

  \<^item> \<open>Arm_Gic\<close>: the interrupt controller with every handler of distributor and CPU interface, the input
    lines, the checks of \<open>arm_gic_common_realize\<close> and the reset.  \<open>Arm_Gic_Update\<close> proves that the search of
    \<open>gic_update\<close> finds the interrupt its contract \<open>chosen\<close> asks for; \<open>Arm_Gic_Inv\<close> proves the invariant \<open>gic_inv\<close> for
    every access and, by rule induction, for every sequence of accesses (\<open>gic_reach\<close>); \<open>Arm_Gic_Props\<close>
    holds the properties, with the accesses of a guest that overrun a table, fail an assertion or never
    return.

  \<^bold>\<open>Bounds and fuel.\<close>  Loops whose end is not structural carry a number of rounds.  Walks around rings of
  copies get the number of temporaries, which is shown to be enough on every well typed program.  The search of
  \<open>bitmap_find_next_zero_area\<close> gets two rounds more than the size of the bitmap, since every round but the
  first starts behind another bit of it; the counting loop of \<open>HBitmap\<close> gets two rounds more than there
  are words.  The theorems show that both return.  A run of a translation block may have any number of
  operations, the same before and after optimisation.  The loop of \<open>gic_complete_irq\<close> over the active
  interrupts can run forever, which is proved for every bound; no other access of the interrupt controller
  can fail to return.

  \<^bold>\<open>Not modelled.\<close>  The translators of guest instructions, liveness analysis, register allocation and the host back
  ends of the code generator, floating point, the memory and TLB code, the block layer and its image
  formats, networking, display and sound, the monitor and the object model, user mode emulation,
  accelerators, and the devices other than the interrupt controller are large subsystems of their own, or
  mostly I/O of the host.  Of the modelled files, the byte encoding of the interpreter's stream, the
  VMState tables of the FIFO and the interrupt controller, the registration of the device and its memory
  regions, \<open>bitmap_zero_extend\<close> (which leaves the contents of reallocated memory open), and guest error logs
  are left out.  For the interrupt controller, the safety of all sequences of accesses is proved for one CPU and
  for the 11MPCore and NVIC revisions; for several CPUs with a later revision the single operations are.
\<close>

end
